(* ===== verification/Prelude.thy ===== *)
theory Prelude
  imports Main "HOL-Library.Word" "HOL-Library.List_Lexorder" "HOL-Library.Multiset"
begin

text \<open>
  What every theory of the development shares: the outcome of a Go call, byte strings and
  their order, checked slice access, and the generic lemmas on lists and sums that the
  component proofs use.

  A Go function returns, or it panics. \<open>Return x\<close> is the first, \<open>Panic p\<close> the second, with
  the reason. Nothing under \<^verbatim>\<open>src/\<close> recovers from a panic, so a panic ends the call chain
  and \<open>obind\<close> propagates it. Go's \<open>error\<close> results are ordinary values and appear in the
  returned value (as a sum, or as an \<open>option\<close> where only the error is returned).
\<close>

section \<open>Collections of facts\<close>

named_theorems go_defs \<open>unfolding rules of the straight-line operations\<close>
named_theorems go_sums \<open>rewriting rules for sums of voting powers and priorities\<close>

section \<open>Outcomes of Go calls\<close>

datatype panic =
    PanicEmptySet             \<comment> \<open>"empty validator set"\<close>
  | PanicNonPositiveTimes     \<comment> \<open>"Cannot call IncrementProposerPriority with non-positive times"\<close>
  | PanicIdenticalValidators  \<comment> \<open>"Cannot compare identical validators"\<close>
  | PanicTotalPower           \<comment> \<open>"Total voting power should be guarded to not exceed ..."\<close>
  | PanicAvgPriority          \<comment> \<open>"Cannot represent avg ProposerPriority as an int64"\<close>
  | PanicMoreDeletes          \<comment> \<open>"more deletes than validators"\<close>
  | PanicCreateSet            \<comment> \<open>"Cannot create validator set: ..."\<close>
  | PanicDataHash             \<comment> \<open>\<open>panic(err)\<close> of \<open>CanonicalizeDataHash\<close>\<close>
  | PanicMarshal              \<comment> \<open>\<open>panic(err)\<close> after a failed marshalling\<close>
  | PanicInvalidVote          \<comment> \<open>"Invalid vote ... expected DataHash to be either empty or complete"\<close>
  | PanicUnknownFlag          \<comment> \<open>"Unknown DataHashFlag"\<close>
  | PanicNilVoteSet         \<comment> \<open>"AddVote() on nil VoteSet", "SetPeerMaj23() on nil VoteSet"\<close>
  | PanicDuplicateVote        \<comment> \<open>"addVerifiedVote does not expect duplicate votes"\<close>
  | PanicNotAdded             \<comment> \<open>"Expected to add non-conflicting vote"\<close>
  | PanicNotPrecommit         \<comment> \<open>"Cannot MakeCommit() unless VoteSet.Type is PrecommitType"\<close>
  | PanicNoMajority           \<comment> \<open>"Cannot MakeCommit() unless a blockhash has +2/3"\<close>
  | PanicReconstructCommit    \<comment> \<open>"Failed to reconstruct LastCommit"\<close>
  | PanicUnknownAddress       \<comment> \<open>"GetByAddress(address) returned nil"\<close>
  | PanicPubKey               \<comment> \<open>\<open>panic(err)\<close> when a public key cannot be read\<close>
  | PanicNoIndex              \<comment> \<open>"could not find validator index"\<close>
  | PanicUnknownVoteType      \<comment> \<open>"Unknown vote type"\<close>
  | NilDereference
  | IndexOutOfRange
  | DivideByZero

datatype 'a outcome = Return 'a | Panic panic

fun obind :: "'a outcome \<Rightarrow> ('a \<Rightarrow> 'b outcome) \<Rightarrow> 'b outcome" where
  "obind (Return x) f = f x"
| "obind (Panic p) f = Panic p"

fun returns :: "'a outcome \<Rightarrow> bool" where
  "returns (Return x) = True"
| "returns (Panic p) = False"

lemma obind_eq_Return [simp]:
  "obind m f = Return y \<longleftrightarrow> (\<exists>x. m = Return x \<and> f x = Return y)"
  by (cases m) auto

lemma obind_Return_right [simp]: "obind m Return = m"
  by (cases m) auto

lemma obind_assoc: "obind (obind m f) g = obind m (\<lambda>x. obind (f x) g)"
  by (cases m) auto

lemma returns_iff: "returns m \<longleftrightarrow> (\<exists>x. m = Return x)"
  by (cases m) auto

lemma obind_cong [fundef_cong]:
  "m = m' \<Longrightarrow> (\<And>x. m' = Return x \<Longrightarrow> f x = f' x) \<Longrightarrow> obind m f = obind m' f'"
  by (cases m') auto

text \<open>Running a fallible loop body over a slice, left to right, stopping at the first panic.\<close>

fun ofold :: "('a \<Rightarrow> 's \<Rightarrow> 's outcome) \<Rightarrow> 'a list \<Rightarrow> 's \<Rightarrow> 's outcome" where
  "ofold f [] s = Return s"
| "ofold f (x # xs) s = obind (f x s) (ofold f xs)"

lemma ofold_append: "ofold f (xs @ ys) s = obind (ofold f xs s) (ofold f ys)"
proof (induction xs arbitrary: s)
  case (Cons x xs)
  then show ?case by (cases "f x s") auto
qed simp

fun omap :: "('a \<Rightarrow> 'b outcome) \<Rightarrow> 'a list \<Rightarrow> 'b list outcome" where
  "omap f [] = Return []"
| "omap f (x # xs) = obind (f x) (\<lambda>y. obind (omap f xs) (\<lambda>ys. Return (y # ys)))"

lemma omap_Return:
  "(\<And>x. x \<in> set xs \<Longrightarrow> f x = Return (g x)) \<Longrightarrow> omap f xs = Return (map g xs)"
  by (induction xs) auto

lemma length_omap: "omap f xs = Return ys \<Longrightarrow> length ys = length xs"
  by (induction xs arbitrary: ys) auto

lemma nth_omap: "omap f xs = Return ys \<Longrightarrow> i < length xs \<Longrightarrow> f (xs ! i) = Return (ys ! i)"
proof (induction xs arbitrary: ys i)
  case (Cons x xs)
  then show ?case by (cases i) auto
qed simp

section \<open>Byte strings\<close>

type_synonym bytes = "8 word list"

text \<open>\<open>bytes.Compare\<close> of the Go standard library: the lexicographic three-way comparison.\<close>

definition bytes_Compare :: "bytes \<Rightarrow> bytes \<Rightarrow> int" where
  "bytes_Compare a b = (if a < b then -1 else if a = b then 0 else 1)"

lemma bytes_Compare_lt [simp]: "bytes_Compare a b = -1 \<longleftrightarrow> a < b"
  "bytes_Compare a b < 0 \<longleftrightarrow> a < b"
  by (auto simp: bytes_Compare_def)

lemma bytes_Compare_gt [simp]: "0 < bytes_Compare a b \<longleftrightarrow> b < a"
  by (auto simp: bytes_Compare_def)

section \<open>Slices\<close>

text \<open>\<open>xs[i]\<close> panics when \<open>i\<close> is out of range.\<close>

definition slice_get :: "'a list \<Rightarrow> int \<Rightarrow> 'a outcome" where
  "slice_get xs i =
     (if 0 \<le> i \<and> i < int (length xs) then Return (xs ! nat i) else Panic IndexOutOfRange)"

lemma slice_get_nat [simp]: "k < length xs \<Longrightarrow> slice_get xs (int k) = Return (xs ! k)"
  by (simp add: slice_get_def)

section \<open>Generic lemmas on lists and sums\<close>

lemma update_slot: "xs[i := Some v] ! j = Some w \<Longrightarrow> xs ! j = Some w \<or> j = i \<and> w = v"
  by (cases "j = i"; cases "i < length xs") (auto simp: list_update_beyond)

lemma card_insert_le_Suc: "finite A \<Longrightarrow> card (insert x A) \<le> Suc (card A)"
  by (simp add: card_insert_if)

lemma sum_less_one:
  fixes f g :: "'a \<Rightarrow> nat"
  assumes "finite A" and "i \<in> A" and "f i < g i" and "\<And>j. j \<in> A \<Longrightarrow> f j \<le> g j"
  shows "Suc (sum f A) \<le> sum g A"
  using sum_strict_mono_ex1 [OF assms(1), of f g] assms(2-4) by (auto simp: Suc_le_eq)

lemma sum_list_update:
  fixes f :: "'a \<Rightarrow> 'b::ab_group_add"
  shows "k < length xs \<Longrightarrow>
    sum_list (map f (xs[k := x])) = sum_list (map f xs) - f (xs ! k) + f x"
  by (induction xs arbitrary: k) (auto split: nat.splits simp: algebra_simps)

lemma sum_list_mono_map:
  fixes f g :: "'a \<Rightarrow> int"
  shows "(\<And>x. x \<in> set xs \<Longrightarrow> f x \<le> g x) \<Longrightarrow> sum_list (map f xs) \<le> sum_list (map g xs)"
  by (rule sum_list_mono)

lemma sum_list_nonneg_map:
  fixes f :: "'a \<Rightarrow> int"
  shows "(\<And>x. x \<in> set xs \<Longrightarrow> 0 \<le> f x) \<Longrightarrow> 0 \<le> sum_list (map f xs)"
  by (rule sum_list_nonneg) auto

lemma sum_list_member_le:
  fixes f :: "'a \<Rightarrow> int"
  shows "(\<And>x. x \<in> set xs \<Longrightarrow> 0 \<le> f x) \<Longrightarrow> x \<in> set xs \<Longrightarrow> f x \<le> sum_list (map f xs)"
proof (induction xs)
  case (Cons y ys)
  then show ?case using sum_list_nonneg_map [of ys f] by fastforce
qed simp

lemma sum_list_const_bounds:
  fixes f :: "'a \<Rightarrow> int"
  shows "(\<And>x. x \<in> set xs \<Longrightarrow> l \<le> f x) \<Longrightarrow> int (length xs) * l \<le> sum_list (map f xs)"
    and "(\<And>x. x \<in> set xs \<Longrightarrow> f x \<le> u) \<Longrightarrow> sum_list (map f xs) \<le> int (length xs) * u"
  by (induction xs) (auto simp: algebra_simps add_mono)

lemma sum_list_zero_map: "(\<And>x. x \<in> set xs \<Longrightarrow> f x = (0::int)) \<Longrightarrow> sum_list (map f xs) = 0"
  by (induction xs) auto

lemma find_Some_member: "find P xs = Some x \<Longrightarrow> x \<in> set xs \<and> P x"
  by (auto simp: find_Some_iff in_set_conv_nth)

lemma find_key_distinct:
  "distinct (map f xs) \<Longrightarrow> x \<in> set xs \<Longrightarrow> find (\<lambda>y. f y = f x) xs = Some x"
  by (induction xs) (auto simp: image_iff)

lemma find_key_None: "find (\<lambda>y. f y = k) xs = None \<longleftrightarrow> k \<notin> f ` set xs"
  by (auto simp: find_None_iff)

end
