(* ===== verification/Go_Int.thy ===== *)
theory Go_Int
  imports Prelude "HOL-Library.Signed_Division"
begin

text \<open>
  Go's \<open>int64\<close> arithmetic, and the checked helpers at the end of
  \<^verbatim>\<open>src/concord/proposer_set.go\<close>. A value of type \<open>int64\<close> is an \<open>int\<close> in
  \<open>{MinInt64..MaxInt64}\<close> and every operation writes out its wrap-around; the lemmas
  \<open>i64_add_word\<close>, \<open>i64_sub_word\<close> and \<open>i64_mul_word\<close> tie this reading to two's
  complement words of 64 bits. Division truncates towards zero, as Go's does.
\<close>

section \<open>Fixed-width arithmetic\<close>

definition MaxInt64 :: int where "MaxInt64 = 2 ^ 63 - 1"
definition MinInt64 :: int where "MinInt64 = - (2 ^ 63)"

definition is_i64 :: "int \<Rightarrow> bool" where
  "is_i64 x \<longleftrightarrow> MinInt64 \<le> x \<and> x \<le> MaxInt64"

definition wrap64 :: "int \<Rightarrow> int" where
  "wrap64 x = (x + 2 ^ 63) mod 2 ^ 64 - 2 ^ 63"

definition wrap32 :: "int \<Rightarrow> int" where
  "wrap32 x = (x + 2 ^ 31) mod 2 ^ 32 - 2 ^ 31"

definition i64_add :: "int \<Rightarrow> int \<Rightarrow> int" where "i64_add a b = wrap64 (a + b)"
definition i64_sub :: "int \<Rightarrow> int \<Rightarrow> int" where "i64_sub a b = wrap64 (a - b)"
definition i64_mul :: "int \<Rightarrow> int \<Rightarrow> int" where "i64_mul a b = wrap64 (a * b)"
definition i64_neg :: "int \<Rightarrow> int" where "i64_neg a = wrap64 (- a)"

text \<open>The quotient truncates; the caller rules out a zero divisor, which panics in Go.\<close>

definition i64_quo :: "int \<Rightarrow> int \<Rightarrow> int" where "i64_quo a b = wrap64 (a sdiv b)"

text \<open>The arithmetic right shift \<open>a >> k\<close>.\<close>

definition i64_shr :: "int \<Rightarrow> nat \<Rightarrow> int" where "i64_shr a k = a div 2 ^ k"

lemmas i64_defs = i64_add_def i64_sub_def i64_mul_def i64_neg_def

lemma is_i64_iff: "is_i64 x \<longleftrightarrow> - (2 ^ 63) \<le> x \<and> x < 2 ^ 63"
  by (auto simp: is_i64_def MinInt64_def MaxInt64_def)

lemma wrap64_id [simp]: "is_i64 x \<Longrightarrow> wrap64 x = x"
  by (simp add: is_i64_iff wrap64_def)

lemma is_i64_wrap64 [simp]: "is_i64 (wrap64 x)"
  using pos_mod_bound [of "2 ^ 64" "x + 2 ^ 63"] pos_mod_sign [of "2 ^ 64" "x + 2 ^ 63"]
  by (simp add: is_i64_iff wrap64_def)

lemma wrap32_id: "- (2 ^ 31) \<le> x \<Longrightarrow> x < 2 ^ 31 \<Longrightarrow> wrap32 x = x"
  by (simp add: wrap32_def)

lemma wrap32_nat [simp]: "k < 2 ^ 31 \<Longrightarrow> wrap32 (int k) = int k"
  by (rule wrap32_id) (simp_all flip: of_nat_less_iff)

text \<open>The wrap-around is that of two's complement words.\<close>

lemma wrap64_word: "wrap64 x = sint (word_of_int x :: 64 word)"
  by (simp add: wrap64_def signed_take_bit_eq_take_bit_shift take_bit_eq_mod sint_sbintrunc')

lemma i64_add_word:
  "i64_add a b = sint ((word_of_int a :: 64 word) + word_of_int b)"
  by (simp add: i64_add_def wrap64_word)

lemma i64_sub_word:
  "i64_sub a b = sint ((word_of_int a :: 64 word) - word_of_int b)"
  by (simp add: i64_sub_def wrap64_word)

lemma i64_mul_word:
  "i64_mul a b = sint ((word_of_int a :: 64 word) * word_of_int b)"
  by (simp add: i64_mul_def wrap64_word)

lemma is_i64_ops [simp]:
  "is_i64 (i64_add a b)" "is_i64 (i64_sub a b)" "is_i64 (i64_mul a b)"
  "is_i64 (i64_neg a)" "is_i64 (i64_quo a b)"
  by (simp_all add: i64_defs i64_quo_def)

lemma i64_exact:
  "is_i64 (a + b) \<Longrightarrow> i64_add a b = a + b"
  "is_i64 (a - b) \<Longrightarrow> i64_sub a b = a - b"
  "is_i64 (a * b) \<Longrightarrow> i64_mul a b = a * b"
  by (simp_all add: i64_defs)

lemma sdiv_nonneg_eq: "0 \<le> a \<Longrightarrow> 0 < b \<Longrightarrow> a sdiv b = a div (b::int)"
  by (cases "a = 0") (simp_all add: signed_divide_int_def sgn_if)

lemma int_div_le: "0 \<le> a \<Longrightarrow> 0 < b \<Longrightarrow> a div b \<le> (a::int)"
  using zdiv_mono2 [of a 1 b] by simp

lemma sdiv_abs_le: "\<bar>a sdiv b\<bar> \<le> \<bar>a :: int\<bar>"
proof (cases "b = 0")
  case False
  then have "0 \<le> \<bar>a\<bar> div \<bar>b\<bar>" "\<bar>a\<bar> div \<bar>b\<bar> \<le> \<bar>a\<bar>"
    using int_div_le [of "\<bar>a\<bar>" "\<bar>b\<bar>"] by (simp_all add: pos_imp_zdiv_nonneg_iff)
  moreover have "\<bar>a sdiv b\<bar> \<le> \<bar>\<bar>a\<bar> div \<bar>b\<bar>\<bar>"
    by (auto simp: signed_divide_int_def abs_mult sgn_if simp del: div_minus_minus)
  ultimately show ?thesis by linarith
qed (simp add: signed_divide_int_def)

lemma i64_quo_nonneg: "is_i64 a \<Longrightarrow> 0 \<le> a \<Longrightarrow> 0 < b \<Longrightarrow> i64_quo a b = a div b"
proof -
  assume a: "is_i64 a" "0 \<le> a" and b: "0 < b"
  have "0 \<le> a div b" "a div b \<le> a"
    using a b by (simp_all add: pos_imp_zdiv_nonneg_iff int_div_le)
  with a have "is_i64 (a div b)" by (simp add: is_i64_iff)
  then show ?thesis using a b by (simp add: i64_quo_def sdiv_nonneg_eq)
qed

section \<open>Checked arithmetic\<close>

definition safeAdd :: "int \<Rightarrow> int \<Rightarrow> int \<times> bool" where
  "safeAdd a b =
     (if b > 0 \<and> a > i64_sub MaxInt64 b then (-1, True)
      else if b < 0 \<and> a < i64_sub MinInt64 b then (-1, True)
      else (i64_add a b, False))"

definition safeSub :: "int \<Rightarrow> int \<Rightarrow> int \<times> bool" where
  "safeSub a b =
     (if b > 0 \<and> a < i64_add MinInt64 b then (-1, True)
      else if b < 0 \<and> a > i64_add MaxInt64 b then (-1, True)
      else (i64_sub a b, False))"

definition safeAddClip :: "int \<Rightarrow> int \<Rightarrow> int" where
  "safeAddClip a b =
     (let (c, overflow) = safeAdd a b
      in if overflow then (if b < 0 then MinInt64 else MaxInt64) else c)"

definition safeSubClip :: "int \<Rightarrow> int \<Rightarrow> int" where
  "safeSubClip a b =
     (let (c, overflow) = safeSub a b
      in if overflow then (if b > 0 then MinInt64 else MaxInt64) else c)"

definition safeMul :: "int \<Rightarrow> int \<Rightarrow> int \<times> bool" where
  "safeMul a b =
     (if a = 0 \<or> b = 0 then (0, False)
      else let absOfB = (if b < 0 then i64_neg b else b);
               absOfA = (if a < 0 then i64_neg a else a)
           in if absOfA > i64_quo MaxInt64 absOfB then (0, True)
              else (i64_mul a b, False))"

text \<open>
  The clipped reading: the exact value cut to the range of \<open>int64\<close>. The checked
  operations below implement it.
\<close>

definition clip64 :: "int \<Rightarrow> int" where
  "clip64 x = max MinInt64 (min MaxInt64 x)"

lemma clip64_id [simp]: "is_i64 x \<Longrightarrow> clip64 x = x"
  by (simp add: clip64_def is_i64_def)

lemma is_i64_clip64 [simp]: "is_i64 (clip64 x)"
  by (auto simp: clip64_def is_i64_def MinInt64_def MaxInt64_def)

lemma clip64_mono: "x \<le> y \<Longrightarrow> clip64 x \<le> clip64 y"
  by (auto simp: clip64_def)

lemma safeAdd_spec:
  assumes "is_i64 a" and "is_i64 b"
  shows "safeAdd a b = (if is_i64 (a + b) then (a + b, False) else (-1, True))"
proof -
  have "b > 0 \<Longrightarrow> i64_sub MaxInt64 b = MaxInt64 - b"
    and "b < 0 \<Longrightarrow> i64_sub MinInt64 b = MinInt64 - b"
    using assms by (auto intro!: i64_exact simp: is_i64_iff MaxInt64_def MinInt64_def)
  then show ?thesis
    using assms by (auto simp: safeAdd_def i64_exact is_i64_iff MaxInt64_def MinInt64_def)
qed

lemma safeSub_spec:
  assumes "is_i64 a" and "is_i64 b"
  shows "safeSub a b = (if is_i64 (a - b) then (a - b, False) else (-1, True))"
proof -
  have "b > 0 \<Longrightarrow> i64_add MinInt64 b = MinInt64 + b"
    and "b < 0 \<Longrightarrow> i64_add MaxInt64 b = MaxInt64 + b"
    using assms by (intro i64_exact(1); simp add: is_i64_iff MaxInt64_def MinInt64_def)+
  then show ?thesis
    using assms by (auto simp: safeSub_def i64_exact is_i64_iff MaxInt64_def MinInt64_def)
qed

lemma safeAddClip_eq: "is_i64 a \<Longrightarrow> is_i64 b \<Longrightarrow> safeAddClip a b = clip64 (a + b)"
  by (auto simp: safeAddClip_def safeAdd_spec clip64_def is_i64_iff MaxInt64_def MinInt64_def)

lemma safeSubClip_eq: "is_i64 a \<Longrightarrow> is_i64 b \<Longrightarrow> safeSubClip a b = clip64 (a - b)"
  by (auto simp: safeSubClip_def safeSub_spec clip64_def is_i64_iff MaxInt64_def MinInt64_def)

lemma int_div_less_iff: "0 < b \<Longrightarrow> (m::int) div b < a \<longleftrightarrow> m < a * b"
proof -
  assume b: "0 < b"
  have "a \<le> m div b \<longleftrightarrow> a * b \<le> m"
  proof
    assume "a \<le> m div b"
    then have "a * b \<le> m div b * b" using b by (simp add: mult_right_mono)
    also have "\<dots> \<le> m" using b by (simp add: minus_mod_eq_div_mult [symmetric])
    finally show "a * b \<le> m" .
  next
    assume "a * b \<le> m"
    then have "a * b div b \<le> m div b" using b by (rule zdiv_mono1)
    then show "a \<le> m div b" using b by simp
  qed
  then show ?thesis by linarith
qed

text \<open>
  \<open>safeMul\<close> detects every product outside \<open>{-MaxInt64..MaxInt64}\<close> unless its first
  argument is \<open>MinInt64\<close>, whose negation wraps.
\<close>

lemma safeMul_spec:
  assumes "is_i64 a" and "is_i64 b" and "a \<noteq> MinInt64"
  shows "safeMul a b = (if \<bar>a * b\<bar> \<le> MaxInt64 then (a * b, False) else (0, True))"
proof (cases "a = 0 \<or> b = 0")
  case True
  then show ?thesis by (auto simp: safeMul_def MaxInt64_def)
next
  case nz: False
  have absA: "(if a < 0 then i64_neg a else a) = \<bar>a\<bar>"
    using assms by (auto simp: i64_neg_def is_i64_iff MinInt64_def)
  show ?thesis
  proof (cases "b = MinInt64")
    case True
    have "(1::int) * 2 ^ 63 \<le> \<bar>a\<bar> * 2 ^ 63"
      using nz by (intro mult_right_mono) auto
    then have "MaxInt64 < \<bar>a * b\<bar>"
      using True by (simp add: abs_mult MinInt64_def MaxInt64_def)
    moreover have "i64_quo MaxInt64 (i64_neg b) = 0"
      using True by (simp add: i64_quo_def i64_neg_def wrap64_def MinInt64_def MaxInt64_def
          signed_divide_int_def)
    ultimately show ?thesis
      using True nz absA by (simp add: safeMul_def MinInt64_def Let_def)
  next
    case False
    have absB: "(if b < 0 then i64_neg b else b) = \<bar>b\<bar>"
      using assms False by (auto simp: i64_neg_def is_i64_iff MinInt64_def)
    have quo: "i64_quo MaxInt64 \<bar>b\<bar> = MaxInt64 div \<bar>b\<bar>"
      using nz by (intro i64_quo_nonneg) (auto simp: is_i64_iff MaxInt64_def)
    have "MaxInt64 div \<bar>b\<bar> < \<bar>a\<bar> \<longleftrightarrow> MaxInt64 < \<bar>a * b\<bar>"
      using nz by (simp add: int_div_less_iff abs_mult)
    moreover have "\<bar>a * b\<bar> \<le> MaxInt64 \<Longrightarrow> is_i64 (a * b)"
      by (auto simp: is_i64_iff MaxInt64_def abs_le_iff)
    ultimately show ?thesis
      using nz by (auto simp: safeMul_def Let_def absA absB quo i64_exact)
  qed
qed

end
