(* ===== verification/Pb_Types.thy ===== *)
theory Pb_Types
  imports Go_Int
begin

text \<open>
  The protobuf messages the consensus code exchanges, as the structs of
  \<^verbatim>\<open>src/concord/pb/*.pb.go\<close>, and the third-party code the program calls. An
  enumeration is the \<open>int32\<close> it is on the wire, so that unknown values exist. A
  \<open>time.Time\<close> is a number of nanoseconds counted from Go's zero time.

  Code outside \<^verbatim>\<open>src/\<close> (public keys, hash sizes, the delimited marshaller of
  \<open>protoio\<close>) is gathered in the record \<open>tm\<close>, an argument of every definition that
  uses it. Nothing is assumed of its fields unless a lemma says so.
\<close>

type_synonym time = int

definition time_IsZero :: "time \<Rightarrow> bool" where "time_IsZero t \<longleftrightarrow> t = 0"

section \<open>Enumerations\<close>

type_synonym SignedMsgType = int

definition UnknownType :: SignedMsgType where "UnknownType = 0"
definition PrevoteType :: SignedMsgType where "PrevoteType = 1"
definition PrecommitType :: SignedMsgType where "PrecommitType = 2"
definition ProposalType :: SignedMsgType where "ProposalType = 32"

lemmas msg_type_defs = UnknownType_def PrevoteType_def PrecommitType_def ProposalType_def

section \<open>Messages\<close>

record pb_DataHash =
  pbHash :: bytes

record pb_Vote =
  pvType :: SignedMsgType
  pvHeight :: int
  pvRound :: int
  pvDataHash :: pb_DataHash
  pvTimestamp :: time
  pvValidatorAddress :: bytes
  pvValidatorIndex :: int
  pvSignature :: bytes

record pb_CommitSig =
  pcsDataHashFlag :: int
  pcsValidatorAddress :: bytes
  pcsTimestamp :: time
  pcsSignature :: bytes

record pb_Commit =
  pcHeight :: int
  pcRound :: int
  pcDataHash :: pb_DataHash
  pcSignatures :: "pb_CommitSig list"

record pb_Proposal =
  ppType :: SignedMsgType
  ppRound :: int
  ppPolRound :: int
  ppData :: bytes
  ppTimestamp :: time
  ppSignature :: bytes

record CanonicalDataHash =
  cHash :: bytes

record CanonicalProposal =
  cpType :: SignedMsgType
  cpHeight :: int
  cpRound :: int
  cpPOLRound :: int
  cpDataHash :: "CanonicalDataHash option"
  cpTimestamp :: time
  cpChainID :: bytes

record CanonicalVote =
  cvType :: SignedMsgType
  cvHeight :: int
  cvRound :: int
  cvDataHash :: "CanonicalDataHash option"
  cvTimestamp :: time
  cvChainID :: bytes

text \<open>The zero values \<open>&pb.DataHash{}\<close> and \<open>&pb.Proposal{}\<close>.\<close>

definition pb_DataHash_zero :: pb_DataHash where
  "pb_DataHash_zero = \<lparr>pbHash = []\<rparr>"

definition pb_Proposal_zero :: pb_Proposal where
  "pb_Proposal_zero =
     \<lparr>ppType = UnknownType, ppRound = 0, ppPolRound = 0, ppData = [], ppTimestamp = 0,
      ppSignature = []\<rparr>"

section \<open>The libraries the program calls\<close>

text \<open>
  \<open>'pk\<close> is the type of public keys (\<open>crypto.PubKey\<close>). A marshaller returns \<open>None\<close>
  for a non-nil error.
\<close>

record 'pk tm =
  tmhash_Size :: nat
  crypto_AddressSize :: nat
  ed25519_SignatureSize :: nat
  PubKey_Address :: "'pk \<Rightarrow> bytes"
  PubKey_Bytes :: "'pk \<Rightarrow> bytes"
  VerifySignature :: "'pk \<Rightarrow> bytes \<Rightarrow> bytes \<Rightarrow> bool"
  MarshalDelimitedVote :: "CanonicalVote \<Rightarrow> bytes option"
  MarshalDelimitedProposal :: "CanonicalProposal \<Rightarrow> bytes option"

text \<open>\<open>MaxSignatureSize = tmmath.MaxInt(ed25519.SignatureSize, 64)\<close>.\<close>

definition MaxSignatureSize :: "'pk tm \<Rightarrow> nat" where
  "MaxSignatureSize T = max (ed25519_SignatureSize T) 64"

text \<open>
  A concrete instance used by the witnesses: a key is a byte string, its own address; a
  signature of a message is the key followed by the message; the delimited encoding of a
  canonical message spells its fields and refuses what does not fit a byte. Sizes are those
  of the libraries, but for addresses and hashes, which are one byte long to keep the
  witnesses readable.
\<close>

definition hash_code :: "CanonicalDataHash option \<Rightarrow> bytes" where
  "hash_code h =
     (case h of None \<Rightarrow> [0] | Some c \<Rightarrow> 1 # word_of_int (int (length (cHash c))) # cHash c)"

definition spell :: "int \<Rightarrow> int \<Rightarrow> int \<Rightarrow> CanonicalDataHash option \<Rightarrow> int \<Rightarrow> bytes \<Rightarrow> bytes option" where
  "spell t height round h ts chainID =
     (if 0 \<le> t \<and> t < 256 \<and> height = 0 \<and> round = 0 \<and> 0 \<le> ts \<and> ts < 256 \<and>
         (case h of None \<Rightarrow> True | Some c \<Rightarrow> length (cHash c) < 256)
      then Some (word_of_int t # word_of_int ts # hash_code h @ chainID) else None)"

definition sample_tm :: "bytes tm" where
  "sample_tm =
     \<lparr>tmhash_Size = 1, crypto_AddressSize = 1, ed25519_SignatureSize = 64,
      PubKey_Address = (\<lambda>k. k), PubKey_Bytes = (\<lambda>k. k),
      VerifySignature = (\<lambda>k m s. s = k @ m),
      MarshalDelimitedVote =
        (\<lambda>v. spell (cvType v) (cvHeight v) (cvRound v) (cvDataHash v) (cvTimestamp v) (cvChainID v)),
      MarshalDelimitedProposal =
        (\<lambda>p. if cpPOLRound p = 0
             then spell (cpType p) (cpHeight p) (cpRound p) (cpDataHash p) (cpTimestamp p) (cpChainID p)
             else None)\<rparr>"

text \<open>What a marshaller promises: it has a left inverse, so it is injective where it succeeds.\<close>

definition marshal_injective :: "('m \<Rightarrow> bytes option) \<Rightarrow> bool" where
  "marshal_injective M \<longleftrightarrow> (\<forall>x y. M x \<noteq> None \<longrightarrow> M x = M y \<longrightarrow> x = y)"

lemma byte_inj: "0 \<le> a \<Longrightarrow> a < 256 \<Longrightarrow> 0 \<le> b \<Longrightarrow> b < 256 \<Longrightarrow>
    (word_of_int a :: 8 word) = word_of_int b \<longleftrightarrow> a = b"
  by (auto simp: word_of_int_eq_iff take_bit_int_eq_self_iff take_bit_int_eq_self)

lemma hash_code_inj:
  assumes "\<And>c. h = Some c \<Longrightarrow> length (cHash c) < 256" "\<And>c. h' = Some c \<Longrightarrow> length (cHash c) < 256"
    and "hash_code h @ xs = hash_code h' @ ys"
  shows "h = h' \<and> xs = ys"
proof (cases h; cases h')
  fix c c' assume h: "h = Some c" "h' = Some c'"
  then have "length (cHash c) = length (cHash c')" "cHash c @ xs = cHash c' @ ys"
    using assms byte_inj [of "int (length (cHash c))" "int (length (cHash c'))"]
    by (auto simp: hash_code_def)
  then show ?thesis using h by auto
qed (use assms(3) in \<open>auto simp: hash_code_def\<close>)

lemma spell_inj:
  assumes "spell t he r h ts ch = Some bz" and "spell t' he' r' h' ts' ch' = Some bz"
  shows "t = t' \<and> he = he' \<and> r = r' \<and> h = h' \<and> ts = ts' \<and> ch = ch'"
  using assms hash_code_inj [of h h' ch ch'] byte_inj
  by (auto simp: spell_def split: if_splits option.splits)

lemma sample_tm_injective:
  "marshal_injective (MarshalDelimitedVote sample_tm)"
  "marshal_injective (MarshalDelimitedProposal sample_tm)"
proof -
  show "marshal_injective (MarshalDelimitedVote sample_tm)"
    using spell_inj by (fastforce simp: marshal_injective_def sample_tm_def intro: CanonicalVote.equality)
  show "marshal_injective (MarshalDelimitedProposal sample_tm)"
    using spell_inj
    by (fastforce simp: marshal_injective_def sample_tm_def split: if_splits intro: CanonicalProposal.equality)
qed

end
