(* ===== verification/Con_Proposer.thy ===== *)
theory Con_Proposer
  imports Pb_Types
begin

text \<open>
  \<^verbatim>\<open>src/concord/proposer.go\<close>: a validator, its basic validation, the comparison that
  rotates the proposer role, and its protobuf form. A pointer that may be nil is an
  \<open>option\<close>.
\<close>

record 'pk Proposer =
  Address :: bytes
  PubKey :: "'pk option"
  VotingPower :: int
  ProposerPriority :: int

definition NewValidator :: "'pk tm \<Rightarrow> 'pk \<Rightarrow> int \<Rightarrow> 'pk Proposer" where
  "NewValidator T pubKey votingPower =
     \<lparr>Address = PubKey_Address T pubKey, PubKey = Some pubKey, VotingPower = votingPower,
      ProposerPriority = 0\<rparr>"

definition Proposer_Copy :: "'pk Proposer \<Rightarrow> 'pk Proposer" where
  "Proposer_Copy v = v"

section \<open>Basic validation\<close>

datatype proposer_error =
    NilValidator | NoPublicKey | NegativeVotingPower | WrongAddressSize bytes | PubKeyError

definition Proposer_ValidateBasic :: "'pk tm \<Rightarrow> 'pk Proposer option \<Rightarrow> proposer_error option" where
  "Proposer_ValidateBasic T v =
     (case v of
        None \<Rightarrow> Some NilValidator
      | Some v \<Rightarrow>
          if PubKey v = None then Some NoPublicKey
          else if VotingPower v < 0 then Some NegativeVotingPower
          else if length (Address v) \<noteq> crypto_AddressSize T then Some (WrongAddressSize (Address v))
          else None)"

lemma Proposer_ValidateBasic_ok:
  "Proposer_ValidateBasic T v = None \<longleftrightarrow>
     (\<exists>w. v = Some w \<and> PubKey w \<noteq> None \<and> 0 \<le> VotingPower w \<and>
        length (Address w) = crypto_AddressSize T)"
  by (auto simp: Proposer_ValidateBasic_def split: option.splits)

section \<open>Comparison\<close>

text \<open>
  \<open>v.CompareProposerPriority(other)\<close> returns one of its two pointers; the model says
  which. Callers compare the returned pointer with the receiver.
\<close>

datatype choice = Receiver | Argument

definition CompareProposerPriority ::
    "'pk Proposer option \<Rightarrow> 'pk Proposer \<Rightarrow> choice outcome" where
  "CompareProposerPriority v other =
     (case v of
        None \<Rightarrow> Return Argument
      | Some v \<Rightarrow>
          if ProposerPriority v > ProposerPriority other then Return Receiver
          else if ProposerPriority v < ProposerPriority other then Return Argument
          else (let result = bytes_Compare (Address v) (Address other)
                in if result < 0 then Return Receiver
                   else if result > 0 then Return Argument
                   else Panic PanicIdenticalValidators))"

text \<open>The order the comparison decides: higher priority first, then lower address.\<close>

datatype standing = Standing (score: int) (holder: bytes)

instantiation standing :: linorder
begin

definition less_standing :: "standing \<Rightarrow> standing \<Rightarrow> bool" where
  "less_standing a b \<longleftrightarrow> score b < score a \<or> score b = score a \<and> holder a < holder b"

definition less_eq_standing :: "standing \<Rightarrow> standing \<Rightarrow> bool" where
  "less_eq_standing a b \<longleftrightarrow> score b < score a \<or> score b = score a \<and> holder a \<le> holder b"

instance
  by standard (auto simp: less_standing_def less_eq_standing_def intro: standing.expand)

end

definition priority_standing :: "'pk Proposer \<Rightarrow> standing" where
  "priority_standing v = Standing (ProposerPriority v) (Address v)"

definition outranks :: "'pk Proposer \<Rightarrow> 'pk Proposer \<Rightarrow> bool" where
  "outranks v w \<longleftrightarrow>
     ProposerPriority w < ProposerPriority v \<or>
     ProposerPriority w = ProposerPriority v \<and> Address v < Address w"

lemma outranks_standing: "outranks v w \<longleftrightarrow> priority_standing v < priority_standing w"
  by (simp add: outranks_def priority_standing_def less_standing_def)

lemma outranks_irrefl [simp]: "\<not> outranks v v"
  by (simp add: outranks_standing)

lemma outranks_trans: "outranks u v \<Longrightarrow> outranks v w \<Longrightarrow> outranks u w"
  by (auto simp: outranks_standing)

lemma outranks_asym: "outranks u v \<Longrightarrow> \<not> outranks v u"
  by (auto simp: outranks_standing)

lemma outranks_total: "Address u \<noteq> Address v \<Longrightarrow> outranks u v \<or> outranks v u"
  by (auto simp: outranks_def)

lemma CompareProposerPriority_None [simp]: "CompareProposerPriority None w = Return Argument"
  by (simp add: CompareProposerPriority_def)

lemma CompareProposerPriority_Some:
  "Address v \<noteq> Address w \<Longrightarrow>
     CompareProposerPriority (Some v) w = Return (if outranks v w then Receiver else Argument)"
  by (auto simp: CompareProposerPriority_def outranks_def Let_def)

section \<open>Protobuf form\<close>

text \<open>\<open>'kp\<close> is the type of protobuf keys; the key conversions are third-party code.\<close>

record 'kp pb_Validator =
  vaAddress :: bytes
  vaPubKey :: 'kp
  vaVotingPower :: int
  vaProposerPriority :: int

definition Proposer_Bytes ::
    "('pk option \<Rightarrow> 'kp option) \<Rightarrow> ('kp \<Rightarrow> int \<Rightarrow> bytes option) \<Rightarrow> 'pk Proposer \<Rightarrow> bytes outcome" where
  "Proposer_Bytes PubKeyToProto MarshalSimple v =
     (case PubKeyToProto (PubKey v) of
        None \<Rightarrow> Panic PanicMarshal
      | Some pk \<Rightarrow>
          (case MarshalSimple pk (VotingPower v) of
             None \<Rightarrow> Panic PanicMarshal
           | Some bz \<Rightarrow> Return bz))"

definition Proposer_ToProto ::
    "('pk option \<Rightarrow> 'kp option) \<Rightarrow> 'pk Proposer option \<Rightarrow> proposer_error + 'kp pb_Validator" where
  "Proposer_ToProto PubKeyToProto v =
     (case v of
        None \<Rightarrow> Inl NilValidator
      | Some v \<Rightarrow>
          (case PubKeyToProto (PubKey v) of
             None \<Rightarrow> Inl PubKeyError
           | Some pk \<Rightarrow>
               Inr \<lparr>vaAddress = Address v, vaPubKey = pk, vaVotingPower = VotingPower v,
                    vaProposerPriority = ProposerPriority v\<rparr>))"

definition ValidatorFromProto ::
    "('kp \<Rightarrow> 'pk option) \<Rightarrow> 'kp pb_Validator option \<Rightarrow> proposer_error + 'pk Proposer" where
  "ValidatorFromProto PubKeyFromProto vp =
     (case vp of
        None \<Rightarrow> Inl NilValidator
      | Some vp \<Rightarrow>
          (case PubKeyFromProto (vaPubKey vp) of
             None \<Rightarrow> Inl PubKeyError
           | Some pk \<Rightarrow>
               Inr \<lparr>Address = vaAddress vp, PubKey = Some pk, VotingPower = vaVotingPower vp,
                    ProposerPriority = vaProposerPriority vp\<rparr>))"

text \<open>What the key conversions promise: decoding an encoded key gives it back.\<close>

lemma ValidatorFromProto_ToProto:
  assumes keys: "\<And>k p. toP (Some k) = Some p \<Longrightarrow> fromP p = Some k"
    and "PubKey v \<noteq> None" and "Proposer_ToProto toP (Some v) = Inr p"
  shows "ValidatorFromProto fromP (Some p) = Inr v"
  using assms by (auto simp: Proposer_ToProto_def ValidatorFromProto_def split: option.splits)

end
