(* ===== verification/Con_ProposerSet.thy ===== *)
theory Con_ProposerSet
  imports Con_Proposer
begin

text \<open>
  The validator set of \<^verbatim>\<open>src/concord/proposer_set.go\<close>: its state, its lookups, the cached
  total voting power and the proposer it designates.

  \<open>Proposers\<close> is a slice of pointers to validators the set owns, and \<open>Proposer\<close> points
  either to one of these validators, whose later priority changes it then sees
  (\<open>InSet a\<close>, the element with address \<open>a\<close>), or to a validator that is not, or no
  longer, in the slice (\<open>Detached v\<close>). Addresses identify elements; \<open>wf_set\<close> holds
  that they are distinct.
\<close>

datatype 'pk proposer_ptr = InSet bytes | Detached "'pk Proposer"

record 'pk ProposerSet =
  Proposers :: "'pk Proposer list"
  Proposer :: "'pk proposer_ptr option"
  totalVotingPower :: int

definition MaxTotalVotingPower :: int where
  "MaxTotalVotingPower = i64_quo MaxInt64 8"

definition PriorityWindowSizeFactor :: int where
  "PriorityWindowSizeFactor = 2"

lemma MaxTotalVotingPower_eq: "MaxTotalVotingPower = 2 ^ 60 - 1"
  by (simp add: MaxTotalVotingPower_def i64_quo_def MaxInt64_def wrap64_def signed_divide_int_def)

section \<open>Lookups\<close>

definition IsNilOrEmpty :: "'pk ProposerSet option \<Rightarrow> bool" where
  "IsNilOrEmpty vals = (case vals of None \<Rightarrow> True | Some s \<Rightarrow> Proposers s = [])"

definition HasAddress :: "'pk ProposerSet \<Rightarrow> bytes \<Rightarrow> bool" where
  "HasAddress s address \<longleftrightarrow> list_ex (\<lambda>v. Address v = address) (Proposers s)"

fun find_address :: "'pk Proposer list \<Rightarrow> bytes \<Rightarrow> nat \<Rightarrow> int \<times> 'pk Proposer option" where
  "find_address [] address idx = (-1, None)"
| "find_address (v # vs) address idx =
     (if Address v = address then (wrap32 (int idx), Some v)
      else find_address vs address (Suc idx))"

definition GetByAddress :: "'pk ProposerSet \<Rightarrow> bytes \<Rightarrow> int \<times> 'pk Proposer option" where
  "GetByAddress s address = find_address (Proposers s) address 0"

definition GetByIndex :: "'pk ProposerSet \<Rightarrow> int \<Rightarrow> (bytes \<times> 'pk Proposer) option" where
  "GetByIndex s index =
     (if index < 0 \<or> index \<ge> int (length (Proposers s)) then None
      else let val = Proposers s ! nat index in Some (Address val, val))"

definition Size :: "'pk ProposerSet \<Rightarrow> nat" where
  "Size s = length (Proposers s)"

text \<open>\<open>Iterate\<close> calls \<open>fn\<close>, here a function on the state the closure captures, until it
  asks to stop.\<close>

fun iterate_from :: "(nat \<Rightarrow> 'pk Proposer \<Rightarrow> 's \<Rightarrow> bool \<times> 's) \<Rightarrow> nat \<Rightarrow> 'pk Proposer list \<Rightarrow> 's \<Rightarrow> 's"
where
  "iterate_from fn i [] st = st"
| "iterate_from fn i (v # vs) st =
     (let (stop, st') = fn i v st in if stop then st' else iterate_from fn (Suc i) vs st')"

definition Iterate :: "'pk ProposerSet \<Rightarrow> (nat \<Rightarrow> 'pk Proposer \<Rightarrow> 's \<Rightarrow> bool \<times> 's) \<Rightarrow> 's \<Rightarrow> 's" where
  "Iterate s fn st = iterate_from fn 0 (Proposers s) st"

definition Set_Hash :: "(bytes list \<Rightarrow> bytes) \<Rightarrow> ('pk Proposer \<Rightarrow> bytes outcome) \<Rightarrow>
    'pk ProposerSet \<Rightarrow> bytes outcome" where
  "Set_Hash HashFromByteSlices Bytes s =
     obind (omap Bytes (Proposers s)) (\<lambda>bzs. Return (HashFromByteSlices bzs))"

section \<open>Total voting power\<close>

fun sum_power :: "'pk Proposer list \<Rightarrow> int \<Rightarrow> int outcome" where
  "sum_power [] acc = Return acc"
| "sum_power (v # vs) acc =
     (let acc' = safeAddClip acc (VotingPower v)
      in if acc' > MaxTotalVotingPower then Panic PanicTotalPower else sum_power vs acc')"

definition updateTotalVotingPower :: "'pk ProposerSet \<Rightarrow> 'pk ProposerSet outcome" where
  "updateTotalVotingPower s =
     obind (sum_power (Proposers s) 0) (\<lambda>t. Return (s\<lparr>totalVotingPower := t\<rparr>))"

text \<open>The total is cached in the set; the call returns the set with its cache filled.\<close>

definition TotalVotingPower :: "'pk ProposerSet \<Rightarrow> ('pk ProposerSet \<times> int) outcome" where
  "TotalVotingPower s =
     obind (if totalVotingPower s = 0 then updateTotalVotingPower s else Return s)
       (\<lambda>s. Return (s, totalVotingPower s))"

section \<open>The designated proposer\<close>

definition deref :: "'pk ProposerSet \<Rightarrow> 'pk proposer_ptr \<Rightarrow> 'pk Proposer outcome" where
  "deref s p =
     (case p of
        Detached v \<Rightarrow> Return v
      | InSet a \<Rightarrow>
          (case snd (GetByAddress s a) of None \<Rightarrow> Panic NilDereference | Some v \<Rightarrow> Return v))"

fun find_proposer_from :: "'pk Proposer list \<Rightarrow> 'pk Proposer option \<Rightarrow> 'pk Proposer option outcome"
where
  "find_proposer_from [] proposer = Return proposer"
| "find_proposer_from (v # vs) proposer =
     (if proposer = None \<or> Address v \<noteq> Address (the proposer) then
        obind (CompareProposerPriority proposer v)
          (\<lambda>c. find_proposer_from vs (case c of Receiver \<Rightarrow> proposer | Argument \<Rightarrow> Some v))
      else find_proposer_from vs proposer)"

definition findProposer :: "'pk ProposerSet \<Rightarrow> 'pk Proposer option outcome" where
  "findProposer s = find_proposer_from (Proposers s) None"

definition GetProposer :: "'pk ProposerSet \<Rightarrow> ('pk ProposerSet \<times> 'pk Proposer option) outcome" where
  "GetProposer s =
     (if Proposers s = [] then Return (s, None)
      else obind
        (case Proposer s of
           None \<Rightarrow> obind (findProposer s)
             (\<lambda>p. Return (s\<lparr>Proposer := map_option (\<lambda>v. InSet (Address v)) p\<rparr>))
         | Some p \<Rightarrow> Return s)
        (\<lambda>s'. case Proposer s' of
           None \<Rightarrow> Panic NilDereference
         | Some p \<Rightarrow> obind (deref s' p) (\<lambda>v. Return (s', Some v))))"

definition validatorListCopy :: "'pk Proposer list \<Rightarrow> 'pk Proposer list" where
  "validatorListCopy valsList = map Proposer_Copy valsList"

lemma validatorListCopy_eq [simp]: "validatorListCopy vs = vs"
  by (simp add: validatorListCopy_def Proposer_Copy_def map_idI)

text \<open>
  \<open>Copy\<close> copies the elements but keeps the \<open>Proposer\<close> pointer, which then points into
  the copied set, not into the copy: to the copy it is a detached validator.
\<close>

definition Copy :: "'pk ProposerSet \<Rightarrow> 'pk ProposerSet" where
  "Copy s =
     \<lparr>Proposers = validatorListCopy (Proposers s),
      Proposer =
        (case Proposer s of
           Some (InSet a) \<Rightarrow> map_option Detached (snd (GetByAddress s a))
         | p \<Rightarrow> p),
      totalVotingPower = totalVotingPower s\<rparr>"

datatype set_error =
    SetNilOrEmpty | InvalidValidator nat proposer_error | InvalidProposer proposer_error

fun validate_all :: "'pk tm \<Rightarrow> nat \<Rightarrow> 'pk Proposer list \<Rightarrow> set_error option" where
  "validate_all T idx [] = None"
| "validate_all T idx (v # vs) =
     (case Proposer_ValidateBasic T (Some v) of
        Some err \<Rightarrow> Some (InvalidValidator idx err)
      | None \<Rightarrow> validate_all T (Suc idx) vs)"

definition Set_ValidateBasic :: "'pk tm \<Rightarrow> 'pk ProposerSet option \<Rightarrow> set_error option outcome" where
  "Set_ValidateBasic T vals =
     (if IsNilOrEmpty vals then Return (Some SetNilOrEmpty)
      else let s = the vals in
        case validate_all T 0 (Proposers s) of
          Some err \<Rightarrow> Return (Some err)
        | None \<Rightarrow>
            obind
              (case Proposer s of
                 None \<Rightarrow> Return None
               | Some p \<Rightarrow> obind (deref s p) (\<lambda>v. Return (Some v)))
              (\<lambda>p. Return (map_option InvalidProposer (Proposer_ValidateBasic T p))))"


section \<open>Well-formed sets\<close>

abbreviation power_sum :: "'pk Proposer list \<Rightarrow> int" where
  "power_sum vs \<equiv> sum_list (map VotingPower vs)"

definition powers_ok :: "'pk Proposer list \<Rightarrow> bool" where
  "powers_ok vs \<longleftrightarrow> (\<forall>v \<in> set vs. 0 \<le> VotingPower v) \<and> power_sum vs \<le> MaxTotalVotingPower"

definition cache_ok :: "'pk ProposerSet \<Rightarrow> bool" where
  "cache_ok s \<longleftrightarrow> totalVotingPower s = 0 \<or> totalVotingPower s = power_sum (Proposers s)"

definition ptr_ok :: "'pk ProposerSet \<Rightarrow> bool" where
  "ptr_ok s \<longleftrightarrow> (case Proposer s of Some (InSet a) \<Rightarrow> a \<in> Address ` set (Proposers s) | _ \<Rightarrow> True)"

definition wf_set :: "'pk ProposerSet \<Rightarrow> bool" where
  "wf_set s \<longleftrightarrow>
     distinct (map Address (Proposers s)) \<and> powers_ok (Proposers s) \<and>
     (\<forall>v \<in> set (Proposers s). is_i64 (ProposerPriority v)) \<and> cache_ok s \<and> ptr_ok s"

text \<open>The set with its cache filled, as \<open>TotalVotingPower\<close> leaves it.\<close>

abbreviation cached :: "'pk ProposerSet \<Rightarrow> 'pk ProposerSet" where
  "cached s \<equiv> s\<lparr>totalVotingPower := power_sum (Proposers s)\<rparr>"

lemma powers_okD:
  assumes "powers_ok vs"
  shows "v \<in> set vs \<Longrightarrow> 0 \<le> VotingPower v"
    and "v \<in> set vs \<Longrightarrow> VotingPower v \<le> power_sum vs"
    and "0 \<le> power_sum vs"
    and "power_sum vs \<le> MaxTotalVotingPower"
  using assms by (auto simp: powers_ok_def intro!: sum_list_member_le sum_list_nonneg_map)

lemma powers_ok_i64:
  assumes "powers_ok vs"
  shows "v \<in> set vs \<Longrightarrow> is_i64 (VotingPower v)" and "is_i64 (power_sum vs)"
    and "is_i64 (2 * power_sum vs)"
  using powers_okD [OF assms] by (fastforce simp: is_i64_iff MaxTotalVotingPower_eq)+

lemma sum_power_spec:
  assumes "\<And>v. v \<in> set vs \<Longrightarrow> 0 \<le> VotingPower v \<and> is_i64 (VotingPower v)"
    and "0 \<le> acc" and "acc \<le> MaxTotalVotingPower"
  shows "sum_power vs acc =
    (if acc + power_sum vs \<le> MaxTotalVotingPower then Return (acc + power_sum vs)
     else Panic PanicTotalPower)"
  using assms
proof (induction vs arbitrary: acc)
  case (Cons v vs)
  have v: "0 \<le> VotingPower v" "is_i64 (VotingPower v)" using Cons.prems(1) by auto
  have rest: "0 \<le> power_sum vs" using Cons.prems(1) by (auto intro: sum_list_nonneg_map)
  have acc: "is_i64 acc"
    using Cons.prems(2,3) by (simp add: is_i64_iff MaxTotalVotingPower_eq)
  have clip: "safeAddClip acc (VotingPower v) = clip64 (acc + VotingPower v)"
    using acc v by (simp add: safeAddClip_eq)
  show ?case
  proof (cases "acc + VotingPower v \<le> MaxTotalVotingPower")
    case True
    then have "clip64 (acc + VotingPower v) = acc + VotingPower v"
      using Cons.prems(2) v by (intro clip64_id) (simp add: is_i64_iff MaxTotalVotingPower_eq)
    then show ?thesis
      using True Cons.prems v by (simp add: Let_def clip Cons.IH add.assoc)
  next
    case False
    then have "MaxTotalVotingPower < clip64 (acc + VotingPower v)"
      by (auto simp: clip64_def MaxTotalVotingPower_eq MaxInt64_def)
    then show ?thesis using False rest by (simp add: Let_def clip)
  qed
qed simp

lemma updateTotalVotingPower_ok:
  assumes "powers_ok (Proposers s)"
  shows "updateTotalVotingPower s = Return (cached s)"
  using powers_okD [OF assms] powers_ok_i64 [OF assms]
  by (simp add: updateTotalVotingPower_def sum_power_spec MaxTotalVotingPower_eq)

lemma TotalVotingPower_ok:
  assumes "powers_ok (Proposers s)" and "cache_ok s"
  shows "TotalVotingPower s = Return (cached s, power_sum (Proposers s))"
  using assms by (auto simp: TotalVotingPower_def updateTotalVotingPower_ok cache_ok_def)

lemma wf_setD:
  assumes "wf_set s"
  shows "distinct (map Address (Proposers s))" "powers_ok (Proposers s)" "cache_ok s" "ptr_ok s"
    "v \<in> set (Proposers s) \<Longrightarrow> is_i64 (ProposerPriority v)"
  using assms by (simp_all add: wf_set_def)

lemma wf_set_cached [simp]: "wf_set s \<Longrightarrow> wf_set (cached s)"
  by (auto simp: wf_set_def cache_ok_def ptr_ok_def split: option.splits proposer_ptr.splits)

lemma GetProposer_again:
  assumes "GetProposer s = Return (s', p)"
  shows "GetProposer s' = Return (s', p) \<and> Proposers s' = Proposers s \<and>
    totalVotingPower s' = totalVotingPower s"
proof (cases "Proposers s = []")
  case False
  then show ?thesis
    using assms by (cases "Proposer s") (auto simp: GetProposer_def split: option.splits)
qed (use assms in \<open>simp add: GetProposer_def\<close>)

section \<open>Facts about lookups\<close>

lemma snd_find_address: "snd (find_address vs a i) = find (\<lambda>v. Address v = a) vs"
  by (induction vs a i rule: find_address.induct) auto

lemma snd_GetByAddress: "snd (GetByAddress s a) = find (\<lambda>v. Address v = a) (Proposers s)"
  by (simp add: GetByAddress_def snd_find_address)

lemma HasAddress_iff: "HasAddress s a \<longleftrightarrow> a \<in> Address ` set (Proposers s)"
  by (auto simp: HasAddress_def list_ex_iff)

lemma find_address_index:
  assumes "find_address vs a i = (idx, Some v)" and "length vs + i < 2 ^ 31"
  shows "\<exists>k < length vs. idx = int (i + k) \<and> vs ! k = v \<and> Address v = a"
  using assms
proof (induction vs a i rule: find_address.induct)
  case (2 u vs a i)
  show ?case
  proof (cases "Address u = a")
    case True
    then show ?thesis using "2.prems" by (intro exI [of _ 0]) auto
  next
    case False
    then have "find_address vs a (Suc i) = (idx, Some v)" "length vs + Suc i < 2 ^ 31"
      using "2.prems" by simp_all
    from "2.IH" [OF False this] obtain k where
      "k < length vs" "idx = int (Suc i + k)" "vs ! k = v" "Address v = a" by blast
    then show ?thesis by (intro exI [of _ "Suc k"]) auto
  qed
qed simp

lemma find_address_None: "snd (find_address vs a i) = None \<Longrightarrow> fst (find_address vs a i) = -1"
  by (induction vs a i rule: find_address.induct) auto

lemma GetByIndex_Some:
  "GetByIndex s i = Some (a, v) \<longleftrightarrow>
     0 \<le> i \<and> i < int (length (Proposers s)) \<and> v = Proposers s ! nat i \<and> a = Address v"
  by (auto simp: GetByIndex_def Let_def)

lemma deref_InSet:
  "deref s (InSet a) = Return v \<longleftrightarrow> find (\<lambda>v. Address v = a) (Proposers s) = Some v"
  by (auto simp: deref_def snd_GetByAddress split: option.splits)

lemma ptr_ok_deref: "ptr_ok s \<Longrightarrow> Proposer s = Some p \<Longrightarrow> \<exists>v. deref s p = Return v"
  using find_key_None [of Address] 
  by (cases p) (force simp: ptr_ok_def deref_def snd_GetByAddress split: option.splits)+

end
