(* ===== verification/Con_Rotation.thy ===== *)
theory Con_Rotation
  imports Con_ProposerSet
begin

text \<open>
  The rotation of the proposer role: \<open>IncrementProposerPriority\<close> and what it calls
  (\<^verbatim>\<open>src/concord/proposer_set.go\<close>, lines 106-235). The abstract specification is a weighted
  round robin over exact integers, \<open>wrr_run\<close>; the refinement lemmas show that the code,
  with its clipped 64-bit arithmetic, implements it as long as no priority leaves the
  range of \<open>int64\<close>, and that it never does when \<open>(2 * n + 2) * (T + 1)\<close> fits, for
  \<open>n\<close> validators of total power \<open>T\<close>.
\<close>

section \<open>The operations\<close>

fun max_min_from :: "'pk Proposer list \<Rightarrow> int \<Rightarrow> int \<Rightarrow> int \<times> int" where
  "max_min_from [] mx mn = (mx, mn)"
| "max_min_from (v # vs) mx mn =
     max_min_from vs (if ProposerPriority v > mx then ProposerPriority v else mx)
       (if ProposerPriority v < mn then ProposerPriority v else mn)"

definition computeMaxMinPriorityDiff :: "'pk ProposerSet \<Rightarrow> int outcome" where
  "computeMaxMinPriorityDiff s =
     (if IsNilOrEmpty (Some s) then Panic PanicEmptySet
      else let (mx, mn) = max_min_from (Proposers s) MinInt64 MaxInt64;
               diff = i64_sub mx mn
           in Return (if diff < 0 then i64_mul (-1) diff else diff))"

definition RescalePriorities :: "int \<Rightarrow> 'pk ProposerSet \<Rightarrow> 'pk ProposerSet outcome" where
  "RescalePriorities diffMax s =
     (if IsNilOrEmpty (Some s) then Panic PanicEmptySet
      else if diffMax \<le> 0 then Return s
      else obind (computeMaxMinPriorityDiff s) (\<lambda>diff.
        let ratio = i64_quo (i64_sub (i64_add diff diffMax) 1) diffMax
        in if diff > diffMax then
             (if ratio = 0 then Panic DivideByZero
              else Return (s\<lparr>Proposers :=
                map (\<lambda>v. v\<lparr>ProposerPriority := i64_quo (ProposerPriority v) ratio\<rparr>) (Proposers s)\<rparr>))
           else Return s))"

definition computeAvgProposerPriority :: "'pk ProposerSet \<Rightarrow> int outcome" where
  "computeAvgProposerPriority s =
     (let n = int (length (Proposers s))
      in if n = 0 then Panic DivideByZero
         else let avg = sum_list (map ProposerPriority (Proposers s)) div n
              in if is_i64 avg then Return avg else Panic PanicAvgPriority)"

definition shiftByAvgProposerPriority :: "'pk ProposerSet \<Rightarrow> 'pk ProposerSet outcome" where
  "shiftByAvgProposerPriority s =
     (if IsNilOrEmpty (Some s) then Panic PanicEmptySet
      else obind (computeAvgProposerPriority s) (\<lambda>avg.
        Return (s\<lparr>Proposers :=
          map (\<lambda>v. v\<lparr>ProposerPriority := safeSubClip (ProposerPriority v) avg\<rparr>) (Proposers s)\<rparr>)))"

text \<open>The loop keeps the position of the best validator seen; Go keeps a pointer to it.\<close>

fun mostest_from :: "'pk Proposer list \<Rightarrow> nat \<Rightarrow> (nat \<times> 'pk Proposer) option \<Rightarrow>
    (nat \<times> 'pk Proposer) option outcome" where
  "mostest_from [] i res = Return res"
| "mostest_from (v # vs) i res =
     obind (CompareProposerPriority (map_option snd res) v)
       (\<lambda>c. mostest_from vs (Suc i) (case c of Receiver \<Rightarrow> res | Argument \<Rightarrow> Some (i, v)))"

definition getValWithMostPriority :: "'pk ProposerSet \<Rightarrow> nat option outcome" where
  "getValWithMostPriority s =
     obind (mostest_from (Proposers s) 0 None) (\<lambda>res. Return (map_option fst res))"

definition incrementProposerPriority ::
    "'pk ProposerSet \<Rightarrow> ('pk ProposerSet \<times> 'pk proposer_ptr) outcome" where
  "incrementProposerPriority s =
     (let s1 = s\<lparr>Proposers :=
        map (\<lambda>v. v\<lparr>ProposerPriority := safeAddClip (ProposerPriority v) (VotingPower v)\<rparr>)
          (Proposers s)\<rparr>
      in obind (getValWithMostPriority s1) (\<lambda>res.
        case res of
          None \<Rightarrow> Panic NilDereference
        | Some i \<Rightarrow>
            obind (TotalVotingPower s1) (\<lambda>(s2, total).
              let mostest = Proposers s2 ! i;
                  mostest' = mostest\<lparr>ProposerPriority := safeSubClip (ProposerPriority mostest) total\<rparr>
              in Return (s2\<lparr>Proposers := (Proposers s2)[i := mostest']\<rparr>,
                         InSet (Address mostest')))))"

fun increment_loop :: "nat \<Rightarrow> 'pk ProposerSet \<Rightarrow> 'pk proposer_ptr option \<Rightarrow>
    ('pk ProposerSet \<times> 'pk proposer_ptr option) outcome" where
  "increment_loop 0 s proposer = Return (s, proposer)"
| "increment_loop (Suc k) s proposer =
     obind (incrementProposerPriority s) (\<lambda>(s', p). increment_loop k s' (Some p))"

definition IncrementProposerPriority :: "int \<Rightarrow> 'pk ProposerSet \<Rightarrow> 'pk ProposerSet outcome" where
  "IncrementProposerPriority ntimes s =
     (if IsNilOrEmpty (Some s) then Panic PanicEmptySet
      else if ntimes \<le> 0 then Panic PanicNonPositiveTimes
      else obind (TotalVotingPower s) (\<lambda>(s1, total).
        obind (RescalePriorities (i64_mul PriorityWindowSizeFactor total) s1) (\<lambda>s2.
        obind (shiftByAvgProposerPriority s2) (\<lambda>s3.
        obind (increment_loop (nat ntimes) s3 None) (\<lambda>(s4, proposer).
        Return (s4\<lparr>Proposer := proposer\<rparr>))))))"

definition CopyIncrementProposerPriority :: "int \<Rightarrow> 'pk ProposerSet \<Rightarrow> 'pk ProposerSet outcome" where
  "CopyIncrementProposerPriority ntimes s = IncrementProposerPriority ntimes (Copy s)"

text \<open>The validator with the lowest rank, the proposer before the current one.\<close>

fun previous_from :: "'pk Proposer list \<Rightarrow> 'pk Proposer option \<Rightarrow> 'pk Proposer option outcome" where
  "previous_from [] prev = Return prev"
| "previous_from (v # vs) prev =
     (case prev of
        None \<Rightarrow> previous_from vs (Some v)
      | Some p \<Rightarrow>
          obind (CompareProposerPriority (Some p) v)
            (\<lambda>c. previous_from vs (case c of Receiver \<Rightarrow> Some v | Argument \<Rightarrow> Some p)))"

definition findPreviousProposer :: "'pk ProposerSet \<Rightarrow> 'pk Proposer option outcome" where
  "findPreviousProposer s = previous_from (Proposers s) None"


section \<open>Rescaling\<close>

definition prio_spread :: "'pk Proposer list \<Rightarrow> int" where
  "prio_spread vs = Max (ProposerPriority ` set vs) - Min (ProposerPriority ` set vs)"

abbreviation prio_sum :: "'pk Proposer list \<Rightarrow> int" where
  "prio_sum vs \<equiv> sum_list (map ProposerPriority vs)"

lemma max_min_from_spec:
  "max_min_from vs mx mn =
     (Max (insert mx (ProposerPriority ` set vs)), Min (insert mn (ProposerPriority ` set vs)))"
proof (induction vs arbitrary: mx mn)
  case (Cons v vs)
  let ?p = "ProposerPriority v" and ?A = "ProposerPriority ` set vs"
  have mx: "Max (insert (if ?p > mx then ?p else mx) ?A) = Max (insert mx (insert ?p ?A))"
    by (cases "?A = {}") (auto simp: max_def)
  have mn: "Min (insert (if ?p < mn then ?p else mn) ?A) = Min (insert mn (insert ?p ?A))"
    by (cases "?A = {}") (auto simp: min_def)
  show ?case by (simp add: Cons.IH mx mn)
qed simp

lemma prio_bounds:
  assumes "v \<in> set vs"
  shows "Min (ProposerPriority ` set vs) \<le> ProposerPriority v"
    and "ProposerPriority v \<le> Max (ProposerPriority ` set vs)"
  using assms by auto

lemma prio_spread_le:
  assumes "vs \<noteq> []"
    and "\<And>v w. v \<in> set vs \<Longrightarrow> w \<in> set vs \<Longrightarrow> ProposerPriority v - ProposerPriority w \<le> d"
  shows "prio_spread vs \<le> d"
proof -
  have "Max (ProposerPriority ` set vs) \<in> ProposerPriority ` set vs"
    and "Min (ProposerPriority ` set vs) \<in> ProposerPriority ` set vs"
    using assms(1) by auto
  then show ?thesis using assms(2) by (auto simp: prio_spread_def)
qed

lemma prio_diff_le_spread:
  assumes "v \<in> set vs" and "w \<in> set vs"
  shows "ProposerPriority v - ProposerPriority w \<le> prio_spread vs"
  using prio_bounds [OF assms(1)] prio_bounds [OF assms(2)] by (simp add: prio_spread_def)

lemma prio_spread_nonneg: "vs \<noteq> [] \<Longrightarrow> 0 \<le> prio_spread vs"
  using prio_diff_le_spread [of "hd vs" vs "hd vs"] by simp

lemma computeMaxMinPriorityDiff_ok:
  assumes "Proposers s \<noteq> []"
    and "\<And>v. v \<in> set (Proposers s) \<Longrightarrow> is_i64 (ProposerPriority v)"
    and "prio_spread (Proposers s) \<le> MaxInt64"
  shows "computeMaxMinPriorityDiff s = Return (prio_spread (Proposers s))"
proof -
  let ?A = "ProposerPriority ` set (Proposers s)"
  have A: "finite ?A" "?A \<noteq> {}" using assms(1) by auto
  have "MinInt64 \<le> Max ?A" "Min ?A \<le> MaxInt64"
    using assms(2) Max_in [OF A] Min_in [OF A] by (auto simp: is_i64_def)
  then have "Max (insert MinInt64 ?A) = Max ?A" "Min (insert MaxInt64 ?A) = Min ?A"
    using A by simp_all
  moreover have "0 \<le> prio_spread (Proposers s)" using assms(1) by (rule prio_spread_nonneg)
  ultimately show ?thesis
    using assms by (simp add: computeMaxMinPriorityDiff_def IsNilOrEmpty_def max_min_from_spec
        Let_def i64_exact is_i64_iff MaxInt64_def flip: prio_spread_def)
qed

definition rescale_ratio :: "int \<Rightarrow> int \<Rightarrow> int" where
  "rescale_ratio diff d = (if diff > d then (diff + d - 1) div d else 1)"

lemma rescale_ratio:
  assumes "0 < d"
  shows "0 < rescale_ratio diff d" and "diff \<le> rescale_ratio diff d * d"
proof -
  have "diff + d - 1 = (diff + d - 1) div d * d + (diff + d - 1) mod d" by simp
  then have "diff \<le> (diff + d - 1) div d * d"
    using pos_mod_bound [OF assms, of "diff + d - 1"] by linarith
  moreover have "diff > d \<Longrightarrow> 0 < (diff + d - 1) div d"
    using assms by (simp add: pos_imp_zdiv_pos_iff)
  ultimately show "0 < rescale_ratio diff d" "diff \<le> rescale_ratio diff d * d"
    by (auto simp: rescale_ratio_def)
qed

lemma sdiv_pos_cases:
  assumes "0 < r"
  shows "x sdiv r = (if 0 \<le> x then x div r else - (- x div r) :: int)"
  using assms by (auto simp: signed_divide_int_def sgn_if)

lemma is_i64_sdiv: "is_i64 x \<Longrightarrow> 0 < r \<Longrightarrow> is_i64 (x sdiv r)"
proof -
  assume x: "is_i64 x" and r: "0 < r"
  have "0 \<le> x \<Longrightarrow> 0 \<le> x div r \<and> x div r \<le> x"
    using r int_div_le by (simp add: pos_imp_zdiv_nonneg_iff)
  moreover have "x < 0 \<Longrightarrow> 0 \<le> - x div r \<and> - x div r \<le> - x"
    using r int_div_le [of "- x" r] by (simp add: pos_imp_zdiv_nonneg_iff)
  ultimately show ?thesis using x r by (auto simp: sdiv_pos_cases is_i64_iff)
qed

lemma sdiv_mono: "0 < r \<Longrightarrow> x \<le> y \<Longrightarrow> x sdiv r \<le> (y sdiv r :: int)"
proof -
  assume r: "0 < r" and xy: "x \<le> y"
  have "0 \<le> z \<Longrightarrow> 0 \<le> z div r" for z
    using r by (simp add: pos_imp_zdiv_nonneg_iff)
  then have "0 \<le> y \<Longrightarrow> 0 \<le> y div r" "x < 0 \<Longrightarrow> 0 \<le> - x div r" by simp_all
  moreover have "x div r \<le> y div r" "- y div r \<le> - x div r"
    using r xy by (auto intro: zdiv_mono1)
  ultimately show ?thesis using r xy by (auto simp: sdiv_pos_cases)
qed

text \<open>Truncated division brings two numbers at most \<open>r * d\<close> apart within \<open>d\<close>.\<close>

lemma sdiv_window:
  assumes r: "0 < r" and xy: "y - x \<le> r * d" and d: "0 \<le> d"
  shows "y sdiv r - x sdiv r \<le> (d :: int)"
proof -
  have shift: "b div r \<le> a div r + d" if "b - a \<le> r * d" for a b
  proof -
    have "b div r \<le> (a + d * r) div r" using r that by (intro zdiv_mono1) (auto simp: algebra_simps)
    then show ?thesis using r by simp
  qed
  have split: "y div r + (- x) div r \<le> d"
  proof -
    have "y div r * r \<le> y" "(- x) div r * r \<le> - x"
      using r pos_mod_sign [of r] by (simp_all add: minus_mod_eq_div_mult [symmetric])
    then have "(y div r + (- x) div r) * r \<le> y + (- x)"
      by (simp add: distrib_right)
    also have "\<dots> \<le> d * r" using xy by (simp add: algebra_simps)
    finally show ?thesis using r by simp
  qed
  have neg: "- x div r \<le> - y div r + d" using shift [of "- x" "- y"] xy by simp
  have pos: "y div r \<le> x div r + d" using shift [of y x] xy by simp
  have "0 \<le> x \<Longrightarrow> y < 0 \<Longrightarrow> - (- y div r) \<le> 0 \<and> 0 \<le> x div r"
    using r by (simp add: pos_imp_zdiv_nonneg_iff)
  then show ?thesis using r d split neg pos by (auto simp: sdiv_pos_cases)
qed

abbreviation with_prio :: "('pk Proposer \<Rightarrow> int) \<Rightarrow> 'pk Proposer \<Rightarrow> 'pk Proposer" where
  "with_prio f v \<equiv> v\<lparr>ProposerPriority := f v\<rparr>"

lemma RescalePriorities_ok:
  assumes "Proposers s \<noteq> []" and "0 < d"
    and "\<And>v. v \<in> set (Proposers s) \<Longrightarrow> is_i64 (ProposerPriority v)"
    and "prio_spread (Proposers s) + d \<le> MaxInt64"
  shows "RescalePriorities d s = Return (s\<lparr>Proposers :=
    map (with_prio (\<lambda>v. ProposerPriority v sdiv rescale_ratio (prio_spread (Proposers s)) d))
      (Proposers s)\<rparr>)"
proof -
  let ?D = "prio_spread (Proposers s)" and ?r = "rescale_ratio (prio_spread (Proposers s)) d"
  have D: "0 \<le> ?D" "?D \<le> MaxInt64"
    using assms prio_spread_nonneg by (fastforce, linarith)
  have diff: "computeMaxMinPriorityDiff s = Return ?D"
    using assms(1,3) D(2) by (rule computeMaxMinPriorityDiff_ok)
  have quo: "i64_quo (ProposerPriority v) ?r = ProposerPriority v sdiv ?r"
    if "v \<in> set (Proposers s)" for v
    using assms that rescale_ratio(1) by (simp add: i64_quo_def is_i64_sdiv)
  show ?thesis
  proof (cases "?D > d")
    case True
    have "i64_quo (i64_sub (i64_add ?D d) 1) d = ?r"
      using assms D True by (simp add: rescale_ratio_def i64_exact is_i64_iff MaxInt64_def
          i64_quo_nonneg)
    then show ?thesis
      using assms True diff quo rescale_ratio(1) [of d ?D]
      by (simp add: RescalePriorities_def IsNilOrEmpty_def Let_def)
  next
    case False
    have id: "map (with_prio (\<lambda>v. ProposerPriority v sdiv 1)) vs = vs" for vs :: "'a Proposer list"
      by (induction vs) (simp_all add: sdiv_pos_cases)
    from False have "?r = 1" by (simp add: rescale_ratio_def)
    then show ?thesis
      using assms False diff id by (simp add: RescalePriorities_def IsNilOrEmpty_def Let_def)
  qed
qed


lemma with_prio_simps [simp]:
  "map Address (map (with_prio f) vs) = map Address vs"
  "map VotingPower (map (with_prio f) vs) = map VotingPower vs"
  "map ProposerPriority (map (with_prio f) vs) = map f vs"
  "map PubKey (map (with_prio f) vs) = map PubKey vs"
  by simp_all

lemma rescaled_spread:
  assumes "vs \<noteq> []" and "0 < d"
  shows "prio_spread (map (with_prio (\<lambda>v. ProposerPriority v sdiv rescale_ratio (prio_spread vs) d)) vs)
    \<le> d"
proof (rule prio_spread_le)
  let ?r = "rescale_ratio (prio_spread vs) d"
  fix v w
  assume "v \<in> set (map (with_prio (\<lambda>v. ProposerPriority v sdiv ?r)) vs)"
    and "w \<in> set (map (with_prio (\<lambda>v. ProposerPriority v sdiv ?r)) vs)"
  then obtain v' w' where vw: "v' \<in> set vs" "w' \<in> set vs"
    and eq: "ProposerPriority v = ProposerPriority v' sdiv ?r"
      "ProposerPriority w = ProposerPriority w' sdiv ?r" by auto
  have "ProposerPriority v' - ProposerPriority w' \<le> ?r * d"
    using prio_diff_le_spread [OF vw] rescale_ratio(2) [OF assms(2), of "prio_spread vs"] by linarith
  then show "ProposerPriority v - ProposerPriority w \<le> d"
    unfolding eq using rescale_ratio(1) [OF assms(2)] assms(2) by (intro sdiv_window) auto
qed (use assms in simp)

section \<open>Centering\<close>

text \<open>After centering, the priorities sum to less than one per validator.\<close>

definition centered :: "'pk Proposer list \<Rightarrow> bool" where
  "centered vs \<longleftrightarrow> 0 \<le> prio_sum vs \<and> prio_sum vs < int (length vs)"

definition avg_prio :: "'pk Proposer list \<Rightarrow> int" where
  "avg_prio vs = prio_sum vs div int (length vs)"

lemma avg_prio_bounds:
  assumes "vs \<noteq> []"
  shows "Min (ProposerPriority ` set vs) \<le> avg_prio vs"
    and "avg_prio vs \<le> Max (ProposerPriority ` set vs)"
proof -
  let ?A = "ProposerPriority ` set vs" and ?n = "int (length vs)"
  have n: "0 < ?n" using assms by simp
  have lo: "?n * Min ?A \<le> prio_sum vs" and hi: "prio_sum vs \<le> ?n * Max ?A"
    by (rule sum_list_const_bounds; simp)+
  have "?n * Min ?A div ?n \<le> avg_prio vs" unfolding avg_prio_def using lo n by (rule zdiv_mono1)
  then show "Min ?A \<le> avg_prio vs" using n by simp
  have "avg_prio vs \<le> ?n * Max ?A div ?n" unfolding avg_prio_def using hi n by (rule zdiv_mono1)
  then show "avg_prio vs \<le> Max ?A" using n by simp
qed

lemma shifted_bounds:
  assumes "v \<in> set vs"
  shows "\<bar>ProposerPriority v - avg_prio vs\<bar> \<le> prio_spread vs"
proof -
  have "vs \<noteq> []" using assms by auto
  from avg_prio_bounds [OF this] prio_bounds [OF assms] show ?thesis
    by (simp add: prio_spread_def)
qed

lemma shiftByAvgProposerPriority_ok:
  assumes ne: "Proposers s \<noteq> []"
    and prios: "\<And>v. v \<in> set (Proposers s) \<Longrightarrow> is_i64 (ProposerPriority v)"
    and spread: "prio_spread (Proposers s) \<le> MaxInt64"
  shows "shiftByAvgProposerPriority s = Return (s\<lparr>Proposers :=
    map (with_prio (\<lambda>v. ProposerPriority v - avg_prio (Proposers s))) (Proposers s)\<rparr>)"
proof -
  let ?vs = "Proposers s"
  let ?A = "ProposerPriority ` set ?vs"
  have "Min ?A \<in> ?A" "Max ?A \<in> ?A" using ne by auto
  then have avg: "is_i64 (avg_prio ?vs)"
    using avg_prio_bounds [OF ne] prios by (fastforce simp: is_i64_def)
  have "safeSubClip (ProposerPriority v) (avg_prio ?vs) = ProposerPriority v - avg_prio ?vs"
    if v: "v \<in> set ?vs" for v
  proof -
    have "is_i64 (ProposerPriority v - avg_prio ?vs)"
      using shifted_bounds [OF v] spread by (auto simp: is_i64_iff MaxInt64_def)
    then show ?thesis using prios [OF v] avg by (simp add: safeSubClip_eq)
  qed
  then show ?thesis
    using ne avg by (simp add: shiftByAvgProposerPriority_def computeAvgProposerPriority_def
        IsNilOrEmpty_def Let_def avg_prio_def)
qed

lemma centered_shifted:
  assumes "vs \<noteq> []"
  shows "centered (map (with_prio (\<lambda>v. ProposerPriority v - avg_prio vs)) vs)"
proof -
  have "(\<Sum>v\<leftarrow>vs. ProposerPriority v - avg_prio vs) = prio_sum vs - int (length vs) * avg_prio vs"
    by (simp add: sum_list_subtractf sum_list_triv)
  also have "\<dots> = prio_sum vs mod int (length vs)"
    by (simp add: avg_prio_def minus_mult_div_eq_mod)
  finally show ?thesis using assms by (simp add: centered_def comp_def)
qed

lemma shifted_spread:
  assumes "vs \<noteq> []"
  shows "prio_spread (map (with_prio (\<lambda>v. ProposerPriority v - c)) vs) \<le> prio_spread vs"
  using assms by (intro prio_spread_le) (auto dest: prio_diff_le_spread)

section \<open>Selection\<close>

text \<open>\<open>v\<close> is the one validator of the list that outranks all others.\<close>

definition top_at :: "'pk Proposer list \<Rightarrow> nat \<Rightarrow> bool" where
  "top_at vs i \<longleftrightarrow> i < length vs \<and> (\<forall>j < length vs. j \<noteq> i \<longrightarrow> outranks (vs ! i) (vs ! j))"

lemma top_at_unique: "top_at vs i \<Longrightarrow> top_at vs j \<Longrightarrow> i = j"
  by (metis outranks_asym top_at_def)

lemma top_at_max: "top_at vs i \<Longrightarrow> v \<in> set vs \<Longrightarrow> ProposerPriority v \<le> ProposerPriority (vs ! i)"
  by (fastforce simp: top_at_def in_set_conv_nth outranks_def)

text \<open>
  The contract the three selection loops share: pick the element that beats all others.
  \<open>findPreviousProposer\<close> uses it with the order reversed.
\<close>

fun select_by :: "('a \<Rightarrow> 'a \<Rightarrow> bool) \<Rightarrow> 'a \<Rightarrow> 'a list \<Rightarrow> 'a" where
  "select_by beats x [] = x"
| "select_by beats x (y # ys) = select_by beats (if beats x y then x else y) ys"

locale selection =
  fixes beats :: "'a \<Rightarrow> 'a \<Rightarrow> bool"
  assumes beats_trans: "beats x y \<Longrightarrow> beats y z \<Longrightarrow> beats x z"
    and beats_irrefl: "\<not> beats x x"
begin

definition total_among :: "'a list \<Rightarrow> bool" where
  "total_among xs \<longleftrightarrow> (\<forall>x \<in> set xs. \<forall>y \<in> set xs. x \<noteq> y \<longrightarrow> beats x y \<or> beats y x)"

lemma select_member: "select_by beats x xs \<in> set (x # xs)"
proof (induction xs arbitrary: x)
  case (Cons y ys)
  then show ?case using Cons.IH [of x] Cons.IH [of y] by auto
qed simp

lemma select_beats:
  assumes "total_among (x # xs)" and "y \<in> set (x # xs)" and "y \<noteq> select_by beats x xs"
  shows "beats (select_by beats x xs) y"
  using assms
proof (induction xs arbitrary: x y)
  case (Cons z zs)
  let ?w = "if beats x z then x else z"
  let ?s = "select_by beats ?w zs"
  have tot: "total_among (?w # zs)" using Cons.prems(1) by (auto simp: total_among_def)
  have w: "beats ?w u" if "u \<in> {x, z}" "u \<noteq> ?w" for u
    using Cons.prems(1) that by (auto simp: total_among_def split: if_splits)
  show ?case
  proof (cases "y \<in> set (?w # zs)")
    case True
    then show ?thesis using Cons.IH [OF tot True] Cons.prems(3) by simp
  next
    case False
    then have y: "beats ?w y" using w [of y] Cons.prems(2) by auto
    show ?thesis
    proof (cases "?w = ?s")
      case True
      then show ?thesis using y by simp
    next
      case False
      then have "beats ?s ?w" using Cons.IH [OF tot, of ?w] by simp
      then show ?thesis using y beats_trans by auto
    qed
  qed
qed simp

end

interpretation top: selection outranks
  by unfold_locales (auto intro: outranks_trans)

interpretation bottom: selection "\<lambda>v w. outranks w v"
  by unfold_locales (auto intro: outranks_trans)

lemma distinct_addresses_total:
  assumes "distinct (map Address vs)"
  shows "top.total_among vs" and "bottom.total_among vs"
  using assms by (auto simp: top.total_among_def bottom.total_among_def distinct_map inj_on_def
      intro!: outranks_total)

lemma mostest_from_select:
  assumes "distinct (map Address (p # vs))"
  shows "\<exists>j. mostest_from vs i (Some (k, p)) = Return (Some (j, select_by outranks p vs)) \<and>
    (j = k \<and> select_by outranks p vs = p \<or>
     i \<le> j \<and> j < i + length vs \<and> vs ! (j - i) = select_by outranks p vs)"
  using assms
proof (induction vs arbitrary: p i k)
  case (Cons v vs)
  have cmp: "CompareProposerPriority (Some p) v =
      Return (if outranks p v then Receiver else Argument)"
    using Cons.prems by (simp add: CompareProposerPriority_Some)
  let ?w = "if outranks p v then p else v" and ?k = "if outranks p v then k else i"
  have "distinct (map Address (?w # vs))" using Cons.prems by auto
  from Cons.IH [OF this, of "Suc i" ?k] obtain j where
    run: "mostest_from vs (Suc i) (Some (?k, ?w)) = Return (Some (j, select_by outranks ?w vs))"
    and pos: "j = ?k \<and> select_by outranks ?w vs = ?w \<or>
      Suc i \<le> j \<and> j < Suc i + length vs \<and> vs ! (j - Suc i) = select_by outranks ?w vs"
    by blast
  have "mostest_from (v # vs) i (Some (k, p)) = Return (Some (j, select_by outranks p (v # vs)))"
    using run by (cases "outranks p v") (simp_all add: cmp)
  moreover have "j = k \<and> select_by outranks ?w vs = p \<or>
      i \<le> j \<and> j < i + length (v # vs) \<and> (v # vs) ! (j - i) = select_by outranks ?w vs"
    using pos by (cases "outranks p v") (auto simp: nth_Cons')
  ultimately show ?case by auto
qed simp

lemma find_proposer_from_select:
  assumes "distinct (map Address (p # vs))"
  shows "find_proposer_from vs (Some p) = Return (Some (select_by outranks p vs))"
  using assms
proof (induction vs arbitrary: p)
  case (Cons v vs)
  then show ?case by (auto simp: CompareProposerPriority_Some)
qed simp

lemma previous_from_select:
  assumes "distinct (map Address (p # vs))"
  shows "previous_from vs (Some p) = Return (Some (select_by (\<lambda>v w. outranks w v) p vs))"
  using assms
proof (induction vs arbitrary: p)
  case (Cons v vs)
  then have "outranks p v \<noteq> outranks v p"
    using outranks_total [of p v] outranks_asym by auto
  with Cons show ?case by (auto simp: CompareProposerPriority_Some)
qed simp

lemma getValWithMostPriority_ok:
  assumes "Proposers s \<noteq> []" and dist: "distinct (map Address (Proposers s))"
  shows "\<exists>i. getValWithMostPriority s = Return (Some i) \<and> top_at (Proposers s) i"
proof -
  obtain v vs where vs: "Proposers s = v # vs" using assms(1) by (cases "Proposers s") auto
  let ?x = "select_by outranks v vs"
  obtain j where j: "mostest_from vs 1 (Some (0, v)) = Return (Some (j, ?x))"
    and pos: "j < length (v # vs)" "(v # vs) ! j = ?x"
    using mostest_from_select [of v vs 1 0] dist vs by (force simp: nth_Cons')
  have "outranks ?x ((v # vs) ! m)" if "m < length (v # vs)" "m \<noteq> j" for m
  proof (rule top.select_beats)
    show "top.total_among (v # vs)" using distinct_addresses_total(1) dist vs by metis
    show "(v # vs) ! m \<in> set (v # vs)" using that(1) by (rule nth_mem)
    show "(v # vs) ! m \<noteq> ?x"
      using dist that pos by (metis distinct_map nth_eq_iff_index_eq vs)
  qed
  then have "top_at (Proposers s) j" using pos vs by (simp add: top_at_def)
  then show ?thesis using j vs by (simp add: getValWithMostPriority_def)
qed

lemma findProposer_ok:
  assumes "Proposers s \<noteq> []" and "distinct (map Address (Proposers s))"
  shows "\<exists>v. findProposer s = Return (Some v) \<and> v \<in> set (Proposers s) \<and>
    (\<forall>w \<in> set (Proposers s). w \<noteq> v \<longrightarrow> outranks v w)"
proof -
  obtain u us where vs: "Proposers s = u # us" using assms(1) by (cases "Proposers s") auto
  show ?thesis
    using assms(2) find_proposer_from_select [of u us] top.select_beats [of u us]
      top.select_member [of u us] distinct_addresses_total(1) [of "u # us"]
    by (auto simp: findProposer_def vs)
qed

lemma findPreviousProposer_ok:
  assumes "Proposers s \<noteq> []" and "distinct (map Address (Proposers s))"
  shows "\<exists>v. findPreviousProposer s = Return (Some v) \<and> v \<in> set (Proposers s) \<and>
    (\<forall>w \<in> set (Proposers s). w \<noteq> v \<longrightarrow> outranks w v)"
proof -
  obtain u us where vs: "Proposers s = u # us" using assms(1) by (cases "Proposers s") auto
  show ?thesis
    using assms(2) previous_from_select [of u us] bottom.select_beats [of u us]
      bottom.select_member [of u us] distinct_addresses_total(2) [of "u # us"]
    by (auto simp: findPreviousProposer_def vs)
qed

end
