(* ===== verification/Con_RoundRobin.thy ===== *)
theory Con_RoundRobin
  imports Con_Rotation
begin

text \<open>
  The abstract specification of the rotation, a weighted round robin over exact integers,
  and the refinement: \<open>IncrementProposerPriority\<close> rescales and centers the priorities
  (\<open>normalise\<close>) and then makes the turns of a \<open>wrr_run\<close>. From the specification follow
  conservation of the priority sum, exact accounting, bounds, and fairness.
\<close>

section \<open>The specification\<close>

definition credit :: "'pk Proposer list \<Rightarrow> 'pk Proposer list" where
  "credit vs = map (with_prio (\<lambda>v. ProposerPriority v + VotingPower v)) vs"

definition charge :: "nat \<Rightarrow> int \<Rightarrow> 'pk Proposer list \<Rightarrow> 'pk Proposer list" where
  "charge i t vs = vs[i := with_prio (\<lambda>v. ProposerPriority v - t) (vs ! i)]"

text \<open>
  \<open>wrr_run vs is ws\<close>: from \<open>vs\<close>, turns at the positions \<open>is\<close> lead to \<open>ws\<close>. In a turn
  everyone is credited with its voting power, and the top validator pays the total.
\<close>

inductive wrr_run :: "'pk Proposer list \<Rightarrow> nat list \<Rightarrow> 'pk Proposer list \<Rightarrow> bool" where
  wrr_done: "wrr_run vs [] vs"
| wrr_turn: "top_at (credit vs) i \<Longrightarrow> wrr_run (charge i (power_sum vs) (credit vs)) is ws \<Longrightarrow>
    wrr_run vs (i # is) ws"

inductive_cases wrr_doneE: "wrr_run vs [] ws"
inductive_cases wrr_turnE: "wrr_run vs (i # is) ws"
inductive_simps wrr_run_Nil [simp]: "wrr_run vs [] ws"

lemma map_update_same: "f x = f (xs ! i) \<Longrightarrow> map f (xs[i := x]) = map f xs"
  by (cases "i < length xs") (simp_all add: map_update list_update_same_conv list_update_beyond)

lemma turn_fields:
  "map Address (charge i t (credit vs)) = map Address vs"
  "map VotingPower (charge i t (credit vs)) = map VotingPower vs"
  "map PubKey (charge i t (credit vs)) = map PubKey vs"
  "length (charge i t (credit vs)) = length vs"
  by (simp_all add: charge_def map_update_same credit_def comp_def del: map_map)

lemma wrr_run_fields:
  assumes "wrr_run vs is ws"
  shows "map Address ws = map Address vs" "map VotingPower ws = map VotingPower vs"
    "map PubKey ws = map PubKey vs" "length ws = length vs"
  using assms by (induction rule: wrr_run.induct) (simp_all add: turn_fields)

lemma length_credit [simp]: "length (credit vs) = length vs"
  by (simp add: credit_def)

lemma credit_sum: "prio_sum (credit vs) = prio_sum vs + power_sum vs"
  by (simp add: credit_def comp_def sum_list_addf)

lemma turn_sum:
  assumes "i < length vs"
  shows "prio_sum (charge i (power_sum vs) (credit vs)) = prio_sum vs"
  using assms by (simp add: charge_def sum_list_update credit_sum)

lemma turn_nth:
  assumes "j < length vs"
  shows "ProposerPriority (charge i t (credit vs) ! j) =
    ProposerPriority (vs ! j) + VotingPower (vs ! j) - (if j = i then t else 0)"
  using assms by (auto simp: charge_def credit_def nth_list_update)

lemma top_at_length: "top_at (credit vs) i \<Longrightarrow> i < length vs"
  by (simp add: top_at_def credit_def)

lemma power_sum_fields: "map VotingPower ws = map VotingPower vs \<Longrightarrow> power_sum ws = power_sum vs"
  by simp

section \<open>Conservation and accounting\<close>

lemma wrr_run_sum: "wrr_run vs is ws \<Longrightarrow> prio_sum ws = prio_sum vs"
  by (induction rule: wrr_run.induct) (simp_all add: turn_sum top_at_length)

lemma wrr_run_account:
  assumes "wrr_run vs is ws" and "j < length vs"
  shows "ProposerPriority (ws ! j) = ProposerPriority (vs ! j)
    + int (length is) * VotingPower (vs ! j) - int (count_list is j) * power_sum vs"
  using assms
proof (induction rule: wrr_run.induct)
  case (wrr_turn vs i "is" ws)
  let ?us = "charge i (power_sum vs) (credit vs)"
  have pw: "VotingPower (?us ! j) = VotingPower (vs ! j)"
    using wrr_turn.prems turn_fields(2) [of i "power_sum vs" vs]
    by (metis length_map nth_map)
  have "power_sum ?us = power_sum vs" by (simp only: turn_fields)
  with wrr_turn.IH wrr_turn.prems pw show ?case
    by (cases "i = j") (simp_all add: turn_fields turn_nth algebra_simps)
qed simp

lemma wrr_run_positions:
  assumes "wrr_run vs is ws"
  shows "\<forall>i \<in> set is. i < length vs"
  using assms by (induction rule: wrr_run.induct) (auto simp: turn_fields top_at_length)

section \<open>Bounds\<close>

text \<open>
  The top validator holds at least the average, which is not negative, so what it pays
  leaves it above \<open>- power_sum vs\<close>; everyone else only gains.
\<close>

definition above :: "int \<Rightarrow> 'pk Proposer list \<Rightarrow> bool" where
  "above b vs \<longleftrightarrow> 0 \<le> prio_sum vs \<and> (\<forall>v \<in> set vs. - b \<le> ProposerPriority v)"

lemma top_credit_nonneg:
  assumes "0 \<le> prio_sum vs" and "0 \<le> power_sum vs" and "top_at (credit vs) i"
  shows "0 \<le> ProposerPriority (credit vs ! i)"
proof (rule ccontr)
  assume "\<not> 0 \<le> ProposerPriority (credit vs ! i)"
  then have "ProposerPriority v \<le> -1" if "v \<in> set (credit vs)" for v
    using top_at_max [OF assms(3) that] by linarith
  then have "prio_sum (credit vs) \<le> int (length (credit vs)) * (-1)"
    by (rule sum_list_const_bounds(2))
  moreover have "0 < int (length (credit vs))" using assms(3) by (auto simp: top_at_def)
  ultimately show False using assms(1,2) credit_sum [of vs] by linarith
qed

lemma turn_above:
  assumes "above b vs" and "powers_ok vs" and "power_sum vs \<le> b" and "top_at (credit vs) i"
  shows "above b (charge i (power_sum vs) (credit vs))"
proof -
  let ?us = "charge i (power_sum vs) (credit vs)"
  have i: "i < length vs" using assms(4) by (rule top_at_length)
  have "- b \<le> ProposerPriority (?us ! j)" if j: "j < length vs" for j
  proof (cases "j = i")
    case True
    have "0 \<le> ProposerPriority (credit vs ! i)"
      using assms powers_okD(3) by (intro top_credit_nonneg) (auto simp: above_def)
    then show ?thesis using True j assms(3) by (simp add: turn_nth) (simp add: credit_def)
  next
    case False
    have "vs ! j \<in> set vs" using j by simp
    then have "- b \<le> ProposerPriority (vs ! j)" "0 \<le> VotingPower (vs ! j)"
      using assms(1) powers_okD(1) [OF assms(2)] by (auto simp: above_def)
    then show ?thesis using False j by (simp add: turn_nth)
  qed
  then show ?thesis
    using assms(1) i by (auto simp: above_def turn_sum turn_fields in_set_conv_nth)
qed

lemma powers_ok_cong:
  assumes "map VotingPower vs = map VotingPower ws"
  shows "powers_ok vs = powers_ok ws"
proof -
  have "VotingPower ` set vs = VotingPower ` set ws"
    by (metis assms list.set_map)
  then show ?thesis unfolding powers_ok_def assms by (metis (no_types, lifting) image_iff)
qed

lemma wrr_run_above:
  assumes "wrr_run vs is ws" and "above b vs" and "powers_ok vs" and "power_sum vs \<le> b"
  shows "above b ws"
  using assms
proof (induction rule: wrr_run.induct)
  case (wrr_turn vs i "is" ws)
  let ?us = "charge i (power_sum vs) (credit vs)"
  have fields: "map VotingPower ?us = map VotingPower vs" by (rule turn_fields)
  show ?case
    using wrr_turn powers_ok_cong [OF fields] turn_above by (metis fields)
qed simp

lemma above_upper:
  assumes "above b vs" and "v \<in> set vs"
  shows "ProposerPriority v \<le> prio_sum vs + (int (length vs) - 1) * b"
proof -
  have "int (length (remove1 v vs)) * (- b) \<le> prio_sum (remove1 v vs)"
    using assms by (intro sum_list_const_bounds) (auto simp: above_def dest: notin_set_remove1)
  moreover have "prio_sum vs = ProposerPriority v + prio_sum (remove1 v vs)"
    using assms(2) by (simp add: sum_list_map_remove1)
  moreover have "Suc (length (remove1 v vs)) = length vs"
    using assms(2) by (metis One_nat_def Suc_pred length_pos_if_in_set length_remove1)
  then have "int (length (remove1 v vs)) = int (length vs) - 1" by linarith
  ultimately show ?thesis by (simp add: algebra_simps)
qed


section \<open>The code refines the specification\<close>

text \<open>No priority leaves \<open>int64\<close> when all lie within \<open>c\<close> of zero and \<open>c\<close> plus the total fits.\<close>

lemma incrementProposerPriority_refines:
  assumes ne: "Proposers s \<noteq> []" and dist: "distinct (map Address (Proposers s))"
    and pow: "powers_ok (Proposers s)" and cache: "cache_ok s"
    and prios: "\<And>v. v \<in> set (Proposers s) \<Longrightarrow> \<bar>ProposerPriority v\<bar> \<le> c"
    and fits: "c + power_sum (Proposers s) \<le> MaxInt64"
  shows "\<exists>i. top_at (credit (Proposers s)) i \<and>
    incrementProposerPriority s =
      Return ((cached s)\<lparr>Proposers := charge i (power_sum (Proposers s)) (credit (Proposers s))\<rparr>,
              InSet (Address (Proposers s ! i)))"
proof -
  let ?vs = "Proposers s" and ?t = "power_sum (Proposers s)"
  have t: "0 \<le> ?t" using pow by (rule powers_okD)
  have "safeAddClip (ProposerPriority v) (VotingPower v) = ProposerPriority v + VotingPower v"
    if v: "v \<in> set ?vs" for v
  proof -
    have "is_i64 (ProposerPriority v)" "is_i64 (ProposerPriority v + VotingPower v)"
      using prios [OF v] fits t powers_okD(1,2) [OF pow v] by (auto simp: is_i64_iff MaxInt64_def)
    then show ?thesis using powers_ok_i64(1) [OF pow v] by (simp add: safeAddClip_eq)
  qed
  then have credit: "map (\<lambda>v. v\<lparr>ProposerPriority := safeAddClip (ProposerPriority v) (VotingPower v)\<rparr>) ?vs
      = credit ?vs" by (simp add: credit_def)
  let ?s1 = "s\<lparr>Proposers := credit ?vs\<rparr>"
  have fields: "map Address (credit ?vs) = map Address ?vs" "map VotingPower (credit ?vs) = map VotingPower ?vs"
    by (simp_all add: credit_def)
  obtain i where top: "top_at (credit ?vs) i" and get: "getValWithMostPriority ?s1 = Return (Some i)"
  proof -
    have "Proposers ?s1 \<noteq> []" using ne by (simp add: credit_def)
    moreover have "distinct (map Address (Proposers ?s1))" using dist fields(1) by simp
    ultimately show ?thesis using getValWithMostPriority_ok [of ?s1] that by auto
  qed
  have i: "i < length ?vs" using top by (rule top_at_length)
  have "powers_ok (Proposers ?s1)" "cache_ok ?s1"
    using pow cache powers_ok_cong [OF fields(2)] by (simp_all add: cache_ok_def fields)
  from TotalVotingPower_ok [OF this]
  have total: "TotalVotingPower ?s1 = Return (?s1\<lparr>totalVotingPower := ?t\<rparr>, ?t)"
    by (simp add: fields)
  let ?v = "credit ?vs ! i"
  have v: "ProposerPriority ?v = ProposerPriority (?vs ! i) + VotingPower (?vs ! i)"
    "Address ?v = Address (?vs ! i)" using i by (simp_all add: credit_def)
  have "?vs ! i \<in> set ?vs" using i by simp
  then have "is_i64 (ProposerPriority ?v)" "is_i64 (ProposerPriority ?v - ?t)" "is_i64 ?t"
    using prios fits t powers_okD(1,2) [OF pow] by (fastforce simp: v is_i64_iff MaxInt64_def)+
  then have "safeSubClip (ProposerPriority ?v) ?t = ProposerPriority ?v - ?t"
    by (simp add: safeSubClip_eq)
  then show ?thesis
    using top get total v by (intro exI [of _ i])
      (simp add: incrementProposerPriority_def credit Let_def charge_def)
qed

lemma above_abs:
  assumes "above b vs" and "v \<in> set vs" and "prio_sum vs < int (length vs)" and "0 \<le> b"
  shows "\<bar>ProposerPriority v\<bar> \<le> int (length vs) * (b + 1)"
proof -
  have n: "1 \<le> int (length vs)" using assms(2) by (cases vs) auto
  then have "1 * b \<le> int (length vs) * b" using assms(4) by (intro mult_right_mono) auto
  then show ?thesis
    using above_upper [OF assms(1,2)] assms n by (auto simp: above_def algebra_simps abs_le_iff)
qed

definition in_regime :: "int \<Rightarrow> 'pk ProposerSet \<Rightarrow> bool" where
  "in_regime b s \<longleftrightarrow>
     Proposers s \<noteq> [] \<and> distinct (map Address (Proposers s)) \<and> powers_ok (Proposers s) \<and>
     cache_ok s \<and> above b (Proposers s) \<and> centered (Proposers s) \<and>
     power_sum (Proposers s) \<le> b \<and>
     int (length (Proposers s)) * (b + 1) + power_sum (Proposers s) \<le> MaxInt64"

lemma in_regime_turn:
  assumes reg: "in_regime b s" and top: "top_at (credit (Proposers s)) i"
  shows "in_regime b ((cached s)\<lparr>Proposers := charge i (power_sum (Proposers s)) (credit (Proposers s))\<rparr>)"
proof -
  let ?vs = "Proposers s"
  let ?us = "charge i (power_sum ?vs) (credit ?vs)"
  have f: "map Address ?us = map Address ?vs" "map VotingPower ?us = map VotingPower ?vs"
    "length ?us = length ?vs" by (simp_all only: turn_fields)
  have "?us \<noteq> []" using reg f(3) by (auto simp: in_regime_def)
  moreover have "above b ?us" using reg top by (intro turn_above) (auto simp: in_regime_def)
  moreover have "prio_sum ?us = prio_sum ?vs" using top_at_length [OF top] by (rule turn_sum)
  moreover have "powers_ok ?us" using reg powers_ok_cong [OF f(2)] by (simp add: in_regime_def)
  ultimately show ?thesis
    using reg f by (simp add: in_regime_def centered_def cache_ok_def)
qed

lemma increment_loop_refines:
  assumes "in_regime b s"
  shows "\<exists>s' is. increment_loop k s p =
      Return (s', if k = 0 then p else Some (InSet (Address (Proposers s ! last is)))) \<and>
    wrr_run (Proposers s) is (Proposers s') \<and> length is = k \<and> in_regime b s' \<and>
    Proposer s' = Proposer s"
  using assms
proof (induction k arbitrary: s p)
  case 0
  then show ?case by auto
next
  case (Suc k)
  let ?vs = "Proposers s" and ?n = "int (length (Proposers s))"
  have reg: "?vs \<noteq> []" "distinct (map Address ?vs)" "powers_ok ?vs" "cache_ok s" "above b ?vs"
    "prio_sum ?vs < ?n" "power_sum ?vs \<le> b" "?n * (b + 1) + power_sum ?vs \<le> MaxInt64"
    using Suc.prems by (simp_all add: in_regime_def centered_def)
  have b: "0 \<le> b" using powers_okD(3) [OF reg(3)] reg(7) by linarith
  obtain i where top: "top_at (credit ?vs) i" and step: "incrementProposerPriority s =
      Return ((cached s)\<lparr>Proposers := charge i (power_sum ?vs) (credit ?vs)\<rparr>,
              InSet (Address (?vs ! i)))"
    using incrementProposerPriority_refines [OF reg(1-4) above_abs [OF reg(5) _ reg(6) b] reg(8)]
    by blast
  let ?s1 = "(cached s)\<lparr>Proposers := charge i (power_sum ?vs) (credit ?vs)\<rparr>"
  have f: "map Address (Proposers ?s1) = map Address ?vs" by (simp add: turn_fields)
  from Suc.IH [OF in_regime_turn [OF Suc.prems top], of "Some (InSet (Address (?vs ! i)))"]
  obtain s' "is" where loop: "increment_loop k ?s1 (Some (InSet (Address (?vs ! i)))) =
      Return (s', if k = 0 then Some (InSet (Address (?vs ! i)))
                  else Some (InSet (Address (Proposers ?s1 ! last is))))"
    and run: "wrr_run (Proposers ?s1) is (Proposers s')" "length is = k" "in_regime b s'"
      "Proposer s' = Proposer ?s1" by blast
  have "wrr_run ?vs (i # is) (Proposers s')" using top run(1) by (auto intro: wrr_turn)
  moreover have "k \<noteq> 0 \<Longrightarrow> Address (Proposers ?s1 ! last is) = Address (?vs ! last is)"
  proof -
    assume "k \<noteq> 0"
    then have "last is \<in> set is" using run(2) by (intro last_in_set) auto
    then have "last is < length (Proposers ?s1)" using wrr_run_positions [OF run(1)] by blast
    then show ?thesis using f by (metis length_map nth_map)
  qed
  ultimately show ?case
    using loop run step by (intro exI [of _ s'] exI [of _ "i # is"]) auto
qed


section \<open>Normalisation and the whole operation\<close>

definition rescaled :: "'pk Proposer list \<Rightarrow> 'pk Proposer list" where
  "rescaled vs =
     map (with_prio (\<lambda>v. ProposerPriority v sdiv rescale_ratio (prio_spread vs) (2 * power_sum vs))) vs"

definition recentered :: "'pk Proposer list \<Rightarrow> 'pk Proposer list" where
  "recentered vs = map (with_prio (\<lambda>v. ProposerPriority v - avg_prio vs)) vs"

definition normalise :: "'pk Proposer list \<Rightarrow> 'pk Proposer list" where
  "normalise vs = recentered (rescaled vs)"

lemma normalise_fields [simp]:
  "map Address (normalise vs) = map Address vs" "map VotingPower (normalise vs) = map VotingPower vs"
  "map PubKey (normalise vs) = map PubKey vs" "length (normalise vs) = length vs"
  by (simp_all add: normalise_def recentered_def rescaled_def comp_def)

lemma rescaled_fields:
  "map Address (rescaled vs) = map Address vs" "map VotingPower (rescaled vs) = map VotingPower vs"
  "length (rescaled vs) = length vs" "rescaled vs = [] \<longleftrightarrow> vs = []"
  by (simp_all add: rescaled_def comp_def)

lemma rescaled_spread_le:
  assumes "vs \<noteq> []" and "0 < power_sum vs"
  shows "prio_spread (rescaled vs) \<le> 2 * power_sum vs"
  unfolding rescaled_def using assms by (intro rescaled_spread) simp_all

lemma normalise_centered: "vs \<noteq> [] \<Longrightarrow> centered (normalise vs)"
  unfolding normalise_def recentered_def by (rule centered_shifted) (simp add: rescaled_fields)

lemma normalise_spread:
  assumes "vs \<noteq> []" and "0 < power_sum vs"
  shows "prio_spread (normalise vs) \<le> 2 * power_sum vs"
proof -
  have "prio_spread (normalise vs) \<le> prio_spread (rescaled vs)"
    unfolding normalise_def recentered_def using assms(1) by (intro shifted_spread) (simp add: rescaled_fields)
  then show ?thesis using rescaled_spread_le [OF assms] by linarith
qed

lemma normalise_abs:
  assumes "vs \<noteq> []" and "0 < power_sum vs" and "v \<in> set (normalise vs)"
  shows "\<bar>ProposerPriority v\<bar> \<le> 2 * power_sum vs"
proof -
  obtain w where w: "w \<in> set (rescaled vs)"
    and v: "ProposerPriority v = ProposerPriority w - avg_prio (rescaled vs)"
    using assms(3) by (auto simp: normalise_def recentered_def)
  show ?thesis
    using shifted_bounds [OF w] rescaled_spread_le [OF assms(1,2)] unfolding v by linarith
qed

text \<open>Rescaling and centering as the code runs them before the turns of the rotation.\<close>

lemma normalise_run:
  assumes wf: "wf_set s" and ne: "Proposers s \<noteq> []" and pos: "0 < power_sum (Proposers s)"
    and spread: "prio_spread (Proposers s) + 2 * power_sum (Proposers s) \<le> MaxInt64"
  shows "obind (RescalePriorities (i64_mul PriorityWindowSizeFactor (power_sum (Proposers s))) s)
           shiftByAvgProposerPriority = Return (s\<lparr>Proposers := normalise (Proposers s)\<rparr>)"
proof -
  let ?vs = "Proposers s" and ?t = "power_sum (Proposers s)"
  have d: "i64_mul PriorityWindowSizeFactor ?t = 2 * ?t"
    using powers_ok_i64(3) [OF wf_setD(2) [OF wf]] by (simp add: PriorityWindowSizeFactor_def i64_exact)
  have resc: "RescalePriorities (2 * ?t) s = Return (s\<lparr>Proposers := rescaled ?vs\<rparr>)"
    using RescalePriorities_ok [OF ne, of "2 * ?t"] wf_setD(5) [OF wf] pos spread
    by (simp add: rescaled_def)
  let ?s2 = "s\<lparr>Proposers := rescaled ?vs\<rparr>"
  have "is_i64 (ProposerPriority v)" if "v \<in> set (rescaled ?vs)" for v
    using that wf_setD(5) [OF wf] pos by (auto simp: rescaled_def is_i64_sdiv rescale_ratio)
  moreover have "prio_spread (rescaled ?vs) \<le> MaxInt64"
    using rescaled_spread_le [OF ne pos] spread prio_spread_nonneg [OF ne] by linarith
  ultimately have "shiftByAvgProposerPriority ?s2 = Return (?s2\<lparr>Proposers := recentered (rescaled ?vs)\<rparr>)"
    using shiftByAvgProposerPriority_ok [of ?s2] ne by (simp add: recentered_def rescaled_fields)
  then show ?thesis by (simp add: d resc normalise_def)
qed

definition regime :: "'pk ProposerSet \<Rightarrow> bool" where
  "regime s \<longleftrightarrow> wf_set s \<and> Proposers s \<noteq> [] \<and> 0 < power_sum (Proposers s) \<and>
     prio_spread (Proposers s) + 2 * power_sum (Proposers s) \<le> MaxInt64 \<and>
     (2 * int (length (Proposers s)) + 2) * (power_sum (Proposers s) + 1) \<le> MaxInt64"

lemma regime_in_regime:
  assumes "regime s"
  shows "in_regime (2 * power_sum (Proposers s)) ((cached s)\<lparr>Proposers := normalise (Proposers s)\<rparr>)"
proof -
  let ?vs = "Proposers s" and ?t = "power_sum (Proposers s)"
  have r: "wf_set s" "?vs \<noteq> []" "0 < ?t" "(2 * int (length ?vs) + 2) * (?t + 1) \<le> MaxInt64"
    using assms by (simp_all add: regime_def)
  have "int (length ?vs) * (2 * ?t + 1) + ?t \<le> MaxInt64"
    using r(3,4) by (simp add: algebra_simps)
  moreover have "above (2 * ?t) (normalise ?vs)"
    using normalise_abs [OF r(2,3)] normalise_centered [OF r(2)]
    by (force simp: above_def centered_def abs_le_iff)
  moreover have "normalise ?vs \<noteq> []" using r(2) normalise_fields(4) [of ?vs] by (metis length_0_conv)
  ultimately show ?thesis
    using r wf_setD [OF r(1)] normalise_centered [OF r(2)]
      powers_ok_cong [OF normalise_fields(2) [of ?vs]]
    by (simp add: in_regime_def cache_ok_def)
qed

lemma IncrementProposerPriority_refines:
  assumes reg: "regime s" and k: "0 < k"
  shows "\<exists>s' is. IncrementProposerPriority k s = Return s' \<and>
    wrr_run (normalise (Proposers s)) is (Proposers s') \<and> length is = nat k \<and>
    Proposer s' = Some (InSet (Address (Proposers s ! last is))) \<and>
    in_regime (2 * power_sum (Proposers s)) s'"
proof -
  let ?vs = "Proposers s" and ?t = "power_sum (Proposers s)"
  let ?s3 = "(cached s)\<lparr>Proposers := normalise ?vs\<rparr>"
  have wf: "wf_set s" and ne: "?vs \<noteq> []" using reg by (simp_all add: regime_def)
  have total: "TotalVotingPower s = Return (cached s, ?t)"
    using wf by (intro TotalVotingPower_ok) (simp_all add: wf_set_def)
  have norm: "obind (RescalePriorities (i64_mul PriorityWindowSizeFactor ?t) (cached s))
      shiftByAvgProposerPriority = Return ?s3"
    using normalise_run [of "cached s"] reg wf_set_cached [OF wf] by (simp add: regime_def)
  have loop: "\<exists>s' is. increment_loop (nat k) ?s3 None =
      Return (s', Some (InSet (Address (Proposers ?s3 ! last is)))) \<and>
    wrr_run (normalise ?vs) is (Proposers s') \<and> length is = nat k \<and> in_regime (2 * ?t) s'"
    using increment_loop_refines [OF regime_in_regime [OF reg], of "nat k" None] k by fastforce
  then obtain s' "is" where l: "increment_loop (nat k) ?s3 None =
      Return (s', Some (InSet (Address (normalise ?vs ! last is))))"
    and run: "wrr_run (normalise ?vs) is (Proposers s')" "length is = nat k" "in_regime (2 * ?t) s'"
    by auto
  have "is \<noteq> []" using run(2) k by auto
  then have last: "last is < length ?vs" using wrr_run_positions [OF run(1)] by auto
  then have addr: "Address (normalise ?vs ! last is) = Address (?vs ! last is)"
    using normalise_fields(1) [of ?vs] by (metis length_map nth_map)
  have "IncrementProposerPriority k s =
      Return (s'\<lparr>Proposer := Some (InSet (Address (?vs ! last is)))\<rparr>)"
    using ne k total norm l addr
    by (auto simp: IncrementProposerPriority_def IsNilOrEmpty_def)
  moreover have "in_regime (2 * ?t) (s'\<lparr>Proposer := Some (InSet (Address (?vs ! last is)))\<rparr>)"
    using run(3) by (simp add: in_regime_def cache_ok_def)
  ultimately show ?thesis using run(1,2) by fastforce
qed


lemma in_regime_wf:
  assumes "in_regime b s" and "ptr_ok s"
  shows "wf_set s"
proof -
  have b: "0 \<le> b" using assms(1) powers_okD(3) by (fastforce simp: in_regime_def)
  have "is_i64 (ProposerPriority v)" if v: "v \<in> set (Proposers s)" for v
    using above_abs [of b "Proposers s" v] assms(1) b v powers_okD(3) [of "Proposers s"]
    by (auto simp: in_regime_def centered_def is_i64_iff MaxInt64_def abs_le_iff)
  then show ?thesis using assms by (simp add: wf_set_def in_regime_def)
qed

text \<open>How far a validator's number of turns strays from its share.\<close>

lemma wrr_run_fair:
  assumes run: "wrr_run vs is ws" and j: "j < length vs"
    and lo: "- b \<le> ProposerPriority (vs ! j)" and hi: "ProposerPriority (vs ! j) \<le> b"
    and above: "above b ws" and cent: "prio_sum ws < int (length ws)" and b: "0 \<le> b"
  shows "power_sum vs * int (count_list is j) \<le> int (length is) * VotingPower (vs ! j) + 2 * b"
    and "int (length is) * VotingPower (vs ! j) \<le>
      power_sum vs * int (count_list is j) + int (length vs) * (b + 1)"
proof -
  have len: "length ws = length vs" using run by (rule wrr_run_fields)
  have mem: "ws ! j \<in> set ws" using j len by simp
  have acc: "ProposerPriority (ws ! j) = ProposerPriority (vs ! j)
      + int (length is) * VotingPower (vs ! j) - int (count_list is j) * power_sum vs"
    using run j by (rule wrr_run_account)
  have "- b \<le> ProposerPriority (ws ! j)" using above mem by (simp add: above_def)
  with acc hi show "power_sum vs * int (count_list is j) \<le>
      int (length is) * VotingPower (vs ! j) + 2 * b"
    by (simp add: mult.commute)
  have "ProposerPriority (ws ! j) \<le> int (length vs) - 1 + (int (length vs) - 1) * b"
    using above_upper [OF above mem] cent unfolding len by linarith
  with acc lo show "int (length is) * VotingPower (vs ! j) \<le>
      power_sum vs * int (count_list is j) + int (length vs) * (b + 1)"
    by (simp add: algebra_simps)
qed

section \<open>Properties\<close>

text \<open>C8: the rotation never panics nor clips in its regime, and its turns are those of the
  weighted round robin on the rescaled and centered priorities.\<close>

theorem rotation_refines:
  assumes "regime s" and "0 < k"
  shows "\<exists>s' is. IncrementProposerPriority k s = Return s' \<and>
    wrr_run (normalise (Proposers s)) is (Proposers s') \<and> length is = nat k \<and>
    Proposer s' = Some (InSet (Address (Proposers s ! last is))) \<and>
    centered (Proposers s') \<and> totalVotingPower s' \<in> {0, power_sum (Proposers s)}"
proof -
  from IncrementProposerPriority_refines [OF assms] obtain s' "is" where
    r: "IncrementProposerPriority k s = Return s'"
      "wrr_run (normalise (Proposers s)) is (Proposers s')" "length is = nat k"
      "Proposer s' = Some (InSet (Address (Proposers s ! last is)))"
      "in_regime (2 * power_sum (Proposers s)) s'" by blast
  have "map VotingPower (Proposers s') = map VotingPower (Proposers s)"
    using wrr_run_fields(2) [OF r(2)] by simp
  then show ?thesis using r by (auto simp: in_regime_def cache_ok_def)
qed

definition sample_set :: "bytes ProposerSet" where
  "sample_set =
     \<lparr>Proposers =
        [\<lparr>Address = [2], PubKey = Some [2], VotingPower = 3, ProposerPriority = 0\<rparr>,
         \<lparr>Address = [1], PubKey = Some [1], VotingPower = 1, ProposerPriority = 0\<rparr>],
      Proposer = None, totalVotingPower = 0\<rparr>"

lemma sample_set_regime: "regime sample_set"
  by (simp add: regime_def sample_set_def wf_set_def powers_ok_def cache_ok_def ptr_ok_def
      MaxTotalVotingPower_eq is_i64_iff prio_spread_def MaxInt64_def)

theorem rotation_refines_witness:
  "\<exists>s' is. IncrementProposerPriority 5 sample_set = Return s' \<and>
    wrr_run (normalise (Proposers sample_set)) is (Proposers s') \<and> length is = 5"
  using rotation_refines [OF sample_set_regime, of 5] by auto

text \<open>C9: fairness. In \<open>k\<close> turns a validator of power \<open>w\<close> out of \<open>t\<close> is chosen at most
  \<open>k * w / t + 4\<close> times and at least \<open>k * w / t\<close> less a bound that depends on the number of
  validators only.\<close>

theorem rotation_fair:
  assumes "regime s" and "0 < k" and "j < length (Proposers s)"
  shows "\<exists>s' is. IncrementProposerPriority k s = Return s' \<and>
    wrr_run (normalise (Proposers s)) is (Proposers s') \<and> length is = nat k \<and>
    power_sum (Proposers s) * int (count_list is j) \<le>
      k * VotingPower (Proposers s ! j) + 4 * power_sum (Proposers s) \<and>
    k * VotingPower (Proposers s ! j) \<le> power_sum (Proposers s) * int (count_list is j) +
      int (length (Proposers s)) * (2 * power_sum (Proposers s) + 1)"
proof -
  let ?vs = "Proposers s" and ?us = "normalise (Proposers s)" and ?t = "power_sum (Proposers s)"
  from IncrementProposerPriority_refines [OF assms(1,2)] obtain s' "is" where
    r: "IncrementProposerPriority k s = Return s'" "wrr_run ?us is (Proposers s')"
      "length is = nat k" "in_regime (2 * ?t) s'" by blast
  have t: "0 < ?t" "?vs \<noteq> []" using assms(1) by (simp_all add: regime_def)
  have j: "j < length ?us" using assms(3) by simp
  have pw: "VotingPower (?us ! j) = VotingPower (?vs ! j)"
    using assms(3) normalise_fields(2,4) [of ?vs] by (metis nth_map)
  have "\<bar>ProposerPriority (?us ! j)\<bar> \<le> 2 * ?t"
    using normalise_abs [OF t(2,1)] j by simp
  then have "- (2 * ?t) \<le> ProposerPriority (?us ! j)" "ProposerPriority (?us ! j) \<le> 2 * ?t"
    by linarith+
  from wrr_run_fair [OF r(2) j this] r(3,4) t(1) assms(2) pw show ?thesis
    by (intro exI [of _ s'] exI [of _ "is"]) (simp add: r in_regime_def centered_def)
qed

theorem rotation_fair_witness:
  "\<exists>s' is. IncrementProposerPriority 8 sample_set = Return s' \<and>
    wrr_run (normalise (Proposers sample_set)) is (Proposers s') \<and> length is = nat 8 \<and>
    4 * int (count_list is 0) \<le> 8 * 3 + 4 * 4 \<and>
    8 * 3 \<le> 4 * int (count_list is 0) + int 2 * (2 * 4 + 1)"
proof -
  have facts: "power_sum (Proposers sample_set) = 4" "length (Proposers sample_set) = 2"
    "VotingPower (Proposers sample_set ! 0) = 3" by (simp_all add: sample_set_def)
  show ?thesis
    using rotation_fair [OF sample_set_regime, of 8 0] unfolding facts by simp
qed

end
