(* ===== verification/Go_Sort.thy ===== *)
theory Go_Sort
  imports Prelude
begin

text \<open>
  Go's \<open>sort.Sort\<close> and \<open>sort.Slice\<close>. The code gives them a \<open>Less\<close>; the model is the
  insertion sort the library runs on short slices (a stable sort). The library promises no
  order among elements that \<open>Less\<close> does not tell apart; \<open>sorted_perm_unique\<close> shows that
  where \<open>Less\<close> separates all elements of the slice, every sorting algorithm gives the
  same slice, so the choice made here is not visible.
\<close>

fun insert_by :: "('a \<Rightarrow> 'a \<Rightarrow> bool) \<Rightarrow> 'a \<Rightarrow> 'a list \<Rightarrow> 'a list" where
  "insert_by Less x [] = [x]"
| "insert_by Less x (y # ys) = (if Less x y then x # y # ys else y # insert_by Less x ys)"

fun sort_onto :: "('a \<Rightarrow> 'a \<Rightarrow> bool) \<Rightarrow> 'a list \<Rightarrow> 'a list \<Rightarrow> 'a list" where
  "sort_onto Less acc [] = acc"
| "sort_onto Less acc (x # xs) = sort_onto Less (insert_by Less x acc) xs"

definition sort_Sort :: "('a \<Rightarrow> 'a \<Rightarrow> bool) \<Rightarrow> 'a list \<Rightarrow> 'a list" where
  "sort_Sort Less xs = sort_onto Less [] xs"

lemma mset_insert_by [simp]: "mset (insert_by Less x ys) = add_mset x (mset ys)"
  by (induction ys) auto

lemma mset_sort_onto: "mset (sort_onto Less acc xs) = mset acc + mset xs"
  by (induction xs arbitrary: acc) auto

lemma mset_sort_Sort [simp]: "mset (sort_Sort Less xs) = mset xs"
  by (simp add: sort_Sort_def mset_sort_onto)

lemma set_sort_Sort [simp]: "set (sort_Sort Less xs) = set xs"
  using mset_sort_Sort [of Less xs] by (metis set_mset_mset)

lemma length_sort_Sort [simp]: "length (sort_Sort Less xs) = length xs"
  using mset_sort_Sort [of Less xs] by (metis size_mset)

lemma sum_list_sort_Sort [simp]:
  fixes f :: "'a \<Rightarrow> int"
  shows "sum_list (map f (sort_Sort Less xs)) = sum_list (map f xs)"
  by (metis mset_map mset_sort_Sort sum_mset_sum_list)

lemma mset_map_sort_Sort: "mset (map f (sort_Sort Less xs)) = mset (map f xs)"
  by simp

lemma distinct_map_sort_Sort [simp]: "distinct (map f (sort_Sort Less xs)) = distinct (map f xs)"
  by (rule mset_eq_imp_distinct_iff) simp

lemma sort_Sort_Nil_iff [simp]: "sort_Sort Less xs = [] \<longleftrightarrow> xs = []"
  by (metis length_0_conv length_sort_Sort)

text \<open>The same sort with a \<open>Less\<close> that can panic, which ends the sort.\<close>

fun insert_checked :: "('a \<Rightarrow> 'a \<Rightarrow> bool outcome) \<Rightarrow> 'a \<Rightarrow> 'a list \<Rightarrow> 'a list outcome" where
  "insert_checked Less x [] = Return [x]"
| "insert_checked Less x (y # ys) = obind (Less x y) (\<lambda>b.
     if b then Return (x # y # ys)
     else obind (insert_checked Less x ys) (\<lambda>zs. Return (y # zs)))"

definition sort_checked :: "('a \<Rightarrow> 'a \<Rightarrow> bool outcome) \<Rightarrow> 'a list \<Rightarrow> 'a list outcome" where
  "sort_checked Less xs = ofold (insert_checked Less) xs []"

lemma insert_checked_Return:
  "(\<And>y. y \<in> set ys \<Longrightarrow> Less x y = Return (L x y)) \<Longrightarrow>
     insert_checked Less x ys = Return (insert_by L x ys)"
  by (induction ys) auto

lemma sort_checked_Return:
  assumes "\<And>x y. x \<in> set xs \<Longrightarrow> y \<in> set xs \<Longrightarrow> Less x y = Return (L x y)"
  shows "sort_checked Less xs = Return (sort_Sort L xs)"
proof -
  have "ofold (insert_checked Less) ys acc = Return (sort_onto L acc ys)"
    if "set ys \<subseteq> set xs" "set acc \<subseteq> set xs" for ys acc
    using that
  proof (induction ys arbitrary: acc)
    case (Cons y ys)
    have "insert_checked Less y acc = Return (insert_by L y acc)"
      using Cons.prems assms by (intro insert_checked_Return) auto
    moreover have "set (insert_by L y acc) \<subseteq> set xs"
      using Cons.prems by (metis insert_subset list.simps(15) mset_insert_by set_mset_add_mset_insert set_mset_mset)
    ultimately show ?case using Cons by simp
  qed simp
  then show ?thesis by (simp add: sort_checked_def sort_Sort_def)
qed

text \<open>Sorting by a key of the elements.\<close>

lemma sort_Sort_map: "sort_Sort L (map f xs) = map f (sort_Sort (\<lambda>x y. L (f x) (f y)) xs)"
proof -
  have ins: "insert_by L (f x) (map f ys) = map f (insert_by (\<lambda>x y. L (f x) (f y)) x ys)" for x ys
    by (induction ys) auto
  have "sort_onto L (map f acc) (map f xs) = map f (sort_onto (\<lambda>x y. L (f x) (f y)) acc xs)" for acc
    by (induction xs arbitrary: acc) (auto simp: ins)
  from this [of "[]"] show ?thesis by (simp add: sort_Sort_def)
qed

text \<open>
  The contract of \<open>sort.Interface\<close>: \<open>Less\<close> is a strict weak order. Under it the result
  is sorted: no element is less than one before it.
\<close>

locale go_less =
  fixes Less :: "'a \<Rightarrow> 'a \<Rightarrow> bool"
  assumes less_asym: "Less x y \<Longrightarrow> \<not> Less y x"
    and less_negtrans: "\<not> Less x y \<Longrightarrow> \<not> Less y z \<Longrightarrow> \<not> Less x z"
begin

definition sorted_by :: "'a list \<Rightarrow> bool" where
  "sorted_by xs \<longleftrightarrow> sorted_wrt (\<lambda>x y. \<not> Less y x) xs"

lemma less_trans: "Less x y \<Longrightarrow> Less y z \<Longrightarrow> Less x z"
  by (meson less_asym less_negtrans)

lemma sorted_insert_by: "sorted_by ys \<Longrightarrow> sorted_by (insert_by Less x ys)"
proof (induction ys)
  case (Cons y ys)
  have set: "set (insert_by Less x ys) = insert x (set ys)"
    by (metis mset_insert_by set_mset_add_mset_insert set_mset_mset)
  show ?case
  proof (cases "Less x y")
    case less: True
    have "\<not> Less z x" if "z \<in> set (y # ys)" for z
    proof (cases "z = y")
      case True
      then show ?thesis using \<open>Less x y\<close> by (simp add: less_asym)
    next
      case False
      then have "\<not> Less z y" using that Cons.prems by (simp add: sorted_by_def)
      then show ?thesis using \<open>Less x y\<close> less_trans [of z x y] by blast
    qed
    then show ?thesis
      using Cons.prems less by (simp add: sorted_by_def)
  next
    case False
    then show ?thesis
      using Cons by (auto simp: sorted_by_def set)
  qed
qed (simp add: sorted_by_def)

lemma sorted_sort_onto: "sorted_by acc \<Longrightarrow> sorted_by (sort_onto Less acc xs)"
  by (induction xs arbitrary: acc) (auto intro: sorted_insert_by)

lemma sorted_sort_Sort: "sorted_by (sort_Sort Less xs)"
  unfolding sort_Sort_def by (rule sorted_sort_onto) (simp add: sorted_by_def)

lemma sorted_perm_unique:
  assumes "sorted_by xs" and "sorted_by ys" and "mset xs = mset ys"
    and "\<And>x y. x \<in> set xs \<Longrightarrow> y \<in> set xs \<Longrightarrow> \<not> Less x y \<Longrightarrow> \<not> Less y x \<Longrightarrow> x = y"
  shows "xs = ys"
  using assms
proof (induction xs arbitrary: ys)
  case (Cons x xs)
  obtain y zs where ys: "ys = y # zs"
    using Cons.prems(3) by (cases ys) auto
  have sets: "set (x # xs) = set (y # zs)"
    using Cons.prems(3) ys by (metis set_mset_mset)
  have xy: "x = y"
  proof (rule ccontr)
    assume ne: "x \<noteq> y"
    then have "y \<in> set xs" "x \<in> set zs"
      using sets by auto
    then have "\<not> Less y x" "\<not> Less x y"
      using Cons.prems(1,2) ys by (auto simp: sorted_by_def)
    then show False
      using Cons.prems(4) [of x y] \<open>y \<in> set xs\<close> ne by auto
  qed
  have "xs = zs"
    using Cons.prems ys xy by (intro Cons.IH) (auto simp: sorted_by_def)
  then show ?case using ys xy by simp
qed simp

lemma sort_Sort_perm:
  assumes "mset xs = mset ys"
    and "\<And>x y. x \<in> set xs \<Longrightarrow> y \<in> set xs \<Longrightarrow> \<not> Less x y \<Longrightarrow> \<not> Less y x \<Longrightarrow> x = y"
  shows "sort_Sort Less xs = sort_Sort Less ys"
  using assms by (intro sorted_perm_unique sorted_sort_Sort) auto

lemma sort_Sort_sorted:
  assumes "sorted_by xs"
    and "\<And>x y. x \<in> set xs \<Longrightarrow> y \<in> set xs \<Longrightarrow> \<not> Less x y \<Longrightarrow> \<not> Less y x \<Longrightarrow> x = y"
  shows "sort_Sort Less xs = xs"
  using assms by (intro sorted_perm_unique sorted_sort_Sort) auto

end

text \<open>
  A \<open>Less\<close> that compares keys of a linear order. It keeps the contract, and the sort is then
  the library's \<open>sort_key\<close>.
\<close>

lemma filter_insert_by:
  fixes k :: "'a \<Rightarrow> 'b::linorder"
  assumes "sorted (map k ys)"
  shows "filter (\<lambda>y. c = k y) (insert_by (\<lambda>x y. k x < k y) x ys) =
    filter (\<lambda>y. c = k y) ys @ (if c = k x then [x] else [])"
  using assms
proof (induction ys)
  case (Cons y ys)
  show ?case
  proof (cases "k x < k y")
    case True
    then have "filter (\<lambda>y. k x = k y) (y # ys) = []" using Cons.prems by (auto simp: filter_empty_conv)
    then show ?thesis using True by auto
  qed (use Cons in auto)
qed simp

locale go_key = go_less Less for Less :: "'a \<Rightarrow> 'a \<Rightarrow> bool" +
  fixes k :: "'a \<Rightarrow> 'b::linorder"
  assumes less_key: "Less x y \<longleftrightarrow> k x < k y"
begin

lemma sorted_by_key: "sorted_by xs \<longleftrightarrow> sorted (map k xs)"
  by (simp add: sorted_by_def less_key sorted_wrt_map not_less)

lemma filter_sort_onto:
  "sorted_by acc \<Longrightarrow> filter (\<lambda>y. c = k y) (sort_onto Less acc xs) =
     filter (\<lambda>y. c = k y) acc @ filter (\<lambda>y. c = k y) xs"
proof (induction xs arbitrary: acc)
  case (Cons x xs)
  have "Less = (\<lambda>x y. k x < k y)" using less_key by blast
  then have "filter (\<lambda>y. c = k y) (insert_by Less x acc) =
      filter (\<lambda>y. c = k y) acc @ (if c = k x then [x] else [])"
    using filter_insert_by [of k acc c x] Cons.prems sorted_by_key by simp
  then show ?case using Cons.IH [OF sorted_insert_by [OF Cons.prems]] by simp
qed simp

lemma sort_Sort_key: "sort_Sort Less xs = sort_key k xs"
proof (rule properties_for_sort_key [symmetric])
  show "sorted (map k (sort_Sort Less xs))" using sorted_sort_Sort sorted_by_key by blast
  have "sorted_by []" by (simp add: sorted_by_def)
  from filter_sort_onto [OF this]
  show "filter (\<lambda>y. k c = k y) (sort_Sort Less xs) = filter (\<lambda>y. k c = k y) xs"
    if "c \<in> set (sort_Sort Less xs)" for c by (simp add: sort_Sort_def)
qed simp

end

lemma go_keyI: "(\<And>x y. Less x y \<longleftrightarrow> k x < (k y :: 'b::linorder)) \<Longrightarrow> go_key Less k"
  by unfold_locales auto

end
