(* ===== verification/Con_SetUpdate.thy ===== *)
theory Con_SetUpdate
  imports Con_RoundRobin Go_Sort
begin

text \<open>
  Changing a validator set (\<^verbatim>\<open>src/concord/proposer_set.go\<close>, \<open>processChanges\<close> to
  \<open>UpdateWithChangeSet\<close>): the list of changes is checked, split into updates and removals,
  priced, merged into the sorted set, and the priorities are rescaled and centered. The
  specification is a map from addresses to stakes: a successful call is a map update, a
  rejected one leaves the set as it was.
\<close>

section \<open>The operations\<close>

definition ValidatorsByAddress :: "'pk Proposer \<Rightarrow> 'pk Proposer \<Rightarrow> bool" where
  "ValidatorsByAddress v w \<longleftrightarrow> bytes_Compare (Address v) (Address w) = -1"

definition ValidatorsByVotingPower :: "'pk Proposer \<Rightarrow> 'pk Proposer \<Rightarrow> bool" where
  "ValidatorsByVotingPower v w \<longleftrightarrow>
     (if VotingPower v = VotingPower w then bytes_Compare (Address v) (Address w) = -1
      else VotingPower v > VotingPower w)"

datatype 'pk update_error =
    DuplicateEntry "'pk Proposer"
  | NegativePower int
  | PowerTooHigh int
  | ZeroPowerNotAllowed "'pk Proposer list"
  | EmptySetResult
  | RemoveNotFound bytes
  | ErrTotalVotingPowerOverflow

text \<open>\<open>prevAddr\<close> starts as the nil slice, which \<open>bytes.Equal\<close> does not tell from an empty
  address.\<close>

fun scan_changes :: "bytes \<Rightarrow> 'pk Proposer list \<Rightarrow> 'pk Proposer list \<Rightarrow> 'pk Proposer list \<Rightarrow>
    'pk update_error + 'pk Proposer list \<times> 'pk Proposer list" where
  "scan_changes prevAddr updates removals [] = Inr (updates, removals)"
| "scan_changes prevAddr updates removals (v # vs) =
     (if Address v = prevAddr then Inl (DuplicateEntry v)
      else if VotingPower v < 0 then Inl (NegativePower (VotingPower v))
      else if VotingPower v > MaxTotalVotingPower then Inl (PowerTooHigh (VotingPower v))
      else if VotingPower v = 0 then scan_changes (Address v) updates (removals @ [v]) vs
      else scan_changes (Address v) (updates @ [v]) removals vs)"

definition processChanges :: "'pk Proposer list \<Rightarrow>
    'pk update_error + 'pk Proposer list \<times> 'pk Proposer list" where
  "processChanges origChanges =
     scan_changes [] [] [] (sort_Sort ValidatorsByAddress origChanges)"

definition update_delta :: "'pk ProposerSet \<Rightarrow> 'pk Proposer \<Rightarrow> int" where
  "update_delta s upd =
     (case snd (GetByAddress s (Address upd)) of
        Some val \<Rightarrow> i64_sub (VotingPower upd) (VotingPower val)
      | None \<Rightarrow> VotingPower upd)"

fun check_deltas :: "int \<Rightarrow> int list \<Rightarrow> int option" where
  "check_deltas tvp [] = Some tvp"
| "check_deltas tvp (d # ds) =
     (let tvp' = i64_add tvp d
      in if tvp' > MaxTotalVotingPower then None else check_deltas tvp' ds)"

definition verifyUpdates :: "'pk Proposer list \<Rightarrow> 'pk ProposerSet \<Rightarrow> int \<Rightarrow>
    ('pk ProposerSet \<times> ('pk update_error + int)) outcome" where
  "verifyUpdates updates s removedPower =
     (let updatesCopy = sort_Sort (\<lambda>u w. update_delta s u < update_delta s w) updates
      in obind (TotalVotingPower s) (\<lambda>(s', total).
        Return (s',
          case check_deltas (i64_sub total removedPower) (map (update_delta s) updatesCopy) of
            None \<Rightarrow> Inl ErrTotalVotingPowerOverflow
          | Some tvpAfterRemovals \<Rightarrow> Inr (i64_add tvpAfterRemovals removedPower))))"

definition numNewValidators :: "'pk Proposer list \<Rightarrow> 'pk ProposerSet \<Rightarrow> nat" where
  "numNewValidators updates s = length (filter (\<lambda>u. \<not> HasAddress s (Address u)) updates)"

definition computeNewPriorities ::
    "'pk Proposer list \<Rightarrow> 'pk ProposerSet \<Rightarrow> int \<Rightarrow> 'pk Proposer list" where
  "computeNewPriorities updates s updatedTotalVotingPower =
     map (\<lambda>u. u\<lparr>ProposerPriority :=
         (case snd (GetByAddress s (Address u)) of
            None \<Rightarrow> i64_neg (i64_add updatedTotalVotingPower (i64_shr updatedTotalVotingPower 3))
          | Some val \<Rightarrow> ProposerPriority val)\<rparr>)
       updates"

fun merge_updates :: "'pk Proposer list \<Rightarrow> 'pk Proposer list \<Rightarrow> 'pk Proposer list" where
  "merge_updates [] updates = updates"
| "merge_updates existing [] = existing"
| "merge_updates (e # es) (u # us) =
     (if bytes_Compare (Address e) (Address u) < 0 then e # merge_updates es (u # us)
      else u # (if Address e = Address u then merge_updates es us
                else merge_updates (e # es) us))"

text \<open>When the validator \<open>Proposer\<close> points to leaves the slice, the pointer keeps it.\<close>

definition keep_proposer :: "'pk Proposer list \<Rightarrow> 'pk ProposerSet \<Rightarrow> 'pk proposer_ptr option" where
  "keep_proposer leaving s =
     (case Proposer s of
        Some (InSet a) \<Rightarrow>
          if a \<in> Address ` set leaving then map_option Detached (snd (GetByAddress s a))
          else Some (InSet a)
      | p \<Rightarrow> p)"

definition applyUpdates :: "'pk Proposer list \<Rightarrow> 'pk ProposerSet \<Rightarrow> 'pk ProposerSet" where
  "applyUpdates updates s =
     s\<lparr>Proposers := merge_updates (sort_Sort ValidatorsByAddress (Proposers s)) updates,
       Proposer := keep_proposer updates s\<rparr>"

fun sum_removed :: "'pk ProposerSet \<Rightarrow> 'pk Proposer list \<Rightarrow> int \<Rightarrow> 'pk update_error + int" where
  "sum_removed s [] removed = Inr removed"
| "sum_removed s (d # ds) removed =
     (case snd (GetByAddress s (Address d)) of
        None \<Rightarrow> Inl (RemoveNotFound (Address d))
      | Some val \<Rightarrow> sum_removed s ds (i64_add removed (VotingPower val)))"

definition verifyRemovals :: "'pk Proposer list \<Rightarrow> 'pk ProposerSet \<Rightarrow>
    ('pk update_error + int) outcome" where
  "verifyRemovals deletes s =
     (case sum_removed s deletes 0 of
        Inl err \<Rightarrow> Return (Inl err)
      | Inr removed \<Rightarrow>
          if length deletes > length (Proposers s) then Panic PanicMoreDeletes
          else Return (Inr removed))"

text \<open>\<open>existing[0]\<close> panics when the slice is used up before all deletes are found.\<close>

fun remove_from :: "'pk Proposer list \<Rightarrow> 'pk Proposer list \<Rightarrow> 'pk Proposer list outcome" where
  "remove_from existing [] = Return existing"
| "remove_from [] (d # ds) = Panic IndexOutOfRange"
| "remove_from (e # es) (d # ds) =
     (if Address e = Address d then remove_from es ds
      else obind (remove_from es (d # ds)) (\<lambda>rest. Return (e # rest)))"

definition applyRemovals :: "'pk Proposer list \<Rightarrow> 'pk ProposerSet \<Rightarrow> 'pk ProposerSet outcome" where
  "applyRemovals deletes s =
     obind (remove_from (Proposers s) deletes) (\<lambda>rest.
       Return (s\<lparr>Proposers := rest, Proposer := keep_proposer deletes s\<rparr>))"

definition updateWithChangeSet :: "'pk Proposer list \<Rightarrow> bool \<Rightarrow> 'pk ProposerSet \<Rightarrow>
    ('pk ProposerSet \<times> 'pk update_error option) outcome" where
  "updateWithChangeSet changes allowDeletes s =
     (if changes = [] then Return (s, None)
      else case processChanges changes of
        Inl err \<Rightarrow> Return (s, Some err)
      | Inr (updates, deletes) \<Rightarrow>
          if \<not> allowDeletes \<and> deletes \<noteq> [] then Return (s, Some (ZeroPowerNotAllowed deletes))
          else if numNewValidators updates s = 0 \<and> length (Proposers s) = length deletes
            then Return (s, Some EmptySetResult)
          else obind (verifyRemovals deletes s) (\<lambda>r1. case r1 of
            Inl err \<Rightarrow> Return (s, Some err)
          | Inr removed \<Rightarrow> obind (verifyUpdates updates s removed) (\<lambda>(s1, r2). case r2 of
              Inl err \<Rightarrow> Return (s1, Some err)
            | Inr tvp \<Rightarrow>
                let s2 = applyUpdates (computeNewPriorities updates s1 tvp) s1
                in obind (applyRemovals deletes s2) (\<lambda>s3.
                   obind (updateTotalVotingPower s3) (\<lambda>s4.
                   obind (TotalVotingPower s4) (\<lambda>(s5, total).
                   obind (RescalePriorities (i64_mul PriorityWindowSizeFactor total) s5) (\<lambda>s6.
                   obind (shiftByAvgProposerPriority s6) (\<lambda>s7.
                   Return (s7\<lparr>Proposers := sort_Sort ValidatorsByVotingPower (Proposers s7)\<rparr>,
                     None)))))))))"

definition UpdateWithChangeSet :: "'pk Proposer list \<Rightarrow> 'pk ProposerSet \<Rightarrow>
    ('pk ProposerSet \<times> 'pk update_error option) outcome" where
  "UpdateWithChangeSet changes s = updateWithChangeSet changes True s"

definition empty_ProposerSet :: "'pk ProposerSet" where
  "empty_ProposerSet = \<lparr>Proposers = [], Proposer = None, totalVotingPower = 0\<rparr>"

definition NewValidatorSet :: "'pk Proposer list \<Rightarrow> 'pk ProposerSet outcome" where
  "NewValidatorSet valz =
     obind (updateWithChangeSet valz False empty_ProposerSet) (\<lambda>(s, err).
       if err \<noteq> None then Panic PanicCreateSet
       else if length valz > 0 then IncrementProposerPriority 1 s
       else Return s)"

section \<open>The orders\<close>

definition power_standing :: "'pk Proposer \<Rightarrow> standing" where
  "power_standing v = Standing (VotingPower v) (Address v)"

interpretation by_address: go_key ValidatorsByAddress Address
  by (rule go_keyI) (simp add: ValidatorsByAddress_def)

interpretation by_power: go_key ValidatorsByVotingPower power_standing
  by (rule go_keyI) (auto simp: ValidatorsByVotingPower_def power_standing_def less_standing_def)

interpretation by_delta: go_key "\<lambda>u w. update_delta s u < update_delta s w" "update_delta s" for s
  by (rule go_keyI) simp

lemmas by_address_sorted = by_address.sorted_by_key

lemma sorted_sort_address: "sorted (map Address (sort_Sort ValidatorsByAddress vs))"
  by (simp add: by_address.sort_Sort_key)

lemma sorted_sort_delta:
  "sorted (map (update_delta s) (sort_Sort (\<lambda>u w. update_delta s u < update_delta s w) us))"
  by (simp add: by_delta.sort_Sort_key)

text \<open>Slices sorted by address without duplicates.\<close>

abbreviation ascending :: "'pk Proposer list \<Rightarrow> bool" where
  "ascending vs \<equiv> sorted_wrt (<) (map Address vs)"

lemma ascending_distinct: "ascending vs \<Longrightarrow> distinct (map Address vs)"
  using strict_sorted_iff by blast

lemma ascending_sort: "distinct (map Address vs) \<Longrightarrow> ascending (sort_Sort ValidatorsByAddress vs)"
  by (simp add: strict_sorted_iff sorted_sort_address del: sorted_wrt_map)

lemma distinct_Address_eq:
  "distinct (map Address vs) \<Longrightarrow> v \<in> set vs \<Longrightarrow> w \<in> set vs \<Longrightarrow> Address v = Address w \<Longrightarrow> v = w"
  by (simp add: distinct_map inj_on_def)

section \<open>Splitting the changes\<close>

definition changes_ok :: "'pk Proposer list \<Rightarrow> bool" where
  "changes_ok changes \<longleftrightarrow> distinct ([] # map Address changes) \<and>
     (\<forall>v \<in> set changes. 0 \<le> VotingPower v \<and> VotingPower v \<le> MaxTotalVotingPower)"

definition updates_of :: "'pk Proposer list \<Rightarrow> 'pk Proposer list" where
  "updates_of changes =
     filter (\<lambda>v. VotingPower v \<noteq> 0) (sort_Sort ValidatorsByAddress changes)"

definition removals_of :: "'pk Proposer list \<Rightarrow> 'pk Proposer list" where
  "removals_of changes =
     filter (\<lambda>v. VotingPower v = 0) (sort_Sort ValidatorsByAddress changes)"

lemma scan_changes_sorted:
  assumes "sorted (prev # map Address vs)"
  shows "scan_changes prev us rs vs = Inr (us', rs') \<longleftrightarrow>
    distinct (prev # map Address vs) \<and>
    (\<forall>v \<in> set vs. 0 \<le> VotingPower v \<and> VotingPower v \<le> MaxTotalVotingPower) \<and>
    us' = us @ filter (\<lambda>v. VotingPower v \<noteq> 0) vs \<and> rs' = rs @ filter (\<lambda>v. VotingPower v = 0) vs"
  using assms
proof (induction vs arbitrary: prev us rs)
  case (Cons v vs)
  have sorted: "sorted (Address v # map Address vs)" using Cons.prems by simp
  have new: "distinct (prev # map Address (v # vs)) \<longleftrightarrow>
      Address v \<noteq> prev \<and> distinct (Address v # map Address vs)"
    using Cons.prems by auto
  show ?case unfolding new using Cons.IH [OF sorted] by auto
qed auto

lemma processChanges_Inr:
  "processChanges changes = Inr (us, rs) \<longleftrightarrow>
     changes_ok changes \<and> us = updates_of changes \<and> rs = removals_of changes"
proof -
  have "sorted ([] # map Address (sort_Sort ValidatorsByAddress changes))"
    using sorted_sort_address [of changes] by simp
  from scan_changes_sorted [OF this, of "[]" "[]" us rs] show ?thesis
    by (simp add: processChanges_def changes_ok_def updates_of_def removals_of_def)
qed

lemma processChanges_Inl:
  "\<not> changes_ok changes \<Longrightarrow> \<exists>err. processChanges changes = Inl err"
  by (cases "processChanges changes") (auto simp: processChanges_Inr)

lemma set_updates_of: "set (updates_of changes) = {v \<in> set changes. VotingPower v \<noteq> 0}"
  by (simp add: updates_of_def)

lemma set_removals_of: "set (removals_of changes) = {v \<in> set changes. VotingPower v = 0}"
  by (simp add: removals_of_def)

lemma ascending_filter: "ascending vs \<Longrightarrow> ascending (filter P vs)"
  by (simp add: sorted_wrt_map sorted_wrt_filter)

lemma ascending_split:
  assumes "changes_ok changes"
  shows "ascending (updates_of changes)" "ascending (removals_of changes)"
  using assms ascending_filter [OF ascending_sort [of changes]]
  by (simp_all add: changes_ok_def updates_of_def removals_of_def)

section \<open>Merging and removing\<close>

lemma set_merge_updates:
  assumes "ascending es" and "ascending us"
  shows "set (merge_updates es us) = set us \<union> {e \<in> set es. Address e \<notin> Address ` set us}"
  using assms
proof (induction es us rule: merge_updates.induct)
  case (3 e es u us)
  then show ?case by (auto simp: bytes_Compare_lt)
qed auto

lemma ascending_merge_updates:
  assumes "ascending es" and "ascending us"
  shows "ascending (merge_updates es us)"
  using assms
proof (induction es us rule: merge_updates.induct)
  case (3 e es u us)
  show ?case
  proof (cases "Address e < Address u")
    case True
    then show ?thesis using 3 by (auto simp: set_merge_updates)
  next
    case False
    then show ?thesis using 3 by (auto simp: set_merge_updates)
  qed
qed auto

lemma remove_from_ok:
  assumes "ascending es" and "ascending ds" and "Address ` set ds \<subseteq> Address ` set es"
  shows "remove_from es ds = Return (filter (\<lambda>e. Address e \<notin> Address ` set ds) es)"
  using assms
proof (induction es ds rule: remove_from.induct)
  case (3 e es d ds)
  show ?case
  proof (cases "Address e = Address d")
    case True
    have "Address e \<notin> Address ` set ds" using 3(4) True by auto
    then have sub: "Address ` set ds \<subseteq> Address ` set es" using 3(5) by (simp add: subset_insert)
    have "Address x \<noteq> Address d" if "x \<in> set es" for x using 3(3) True that by auto
    then have "filter (\<lambda>x. Address x \<notin> Address ` set (d # ds)) es =
        filter (\<lambda>x. Address x \<notin> Address ` set ds) es"
      by (intro filter_cong) auto
    then show ?thesis using 3 True sub by simp
  next
    case False
    have "Address e \<notin> Address ` set (d # ds)"
    proof
      assume "Address e \<in> Address ` set (d # ds)"
      then have "Address d < Address e" using False 3(4) by auto
      moreover have "Address d \<in> Address ` set (e # es)" using 3(5) by auto
      ultimately show False using 3(3) by auto
    qed
    moreover from this have "Address ` set (d # ds) \<subseteq> Address ` set es"
      using 3(5) subset_insert [of "Address e" "Address ` set (d # ds)"] by simp
    ultimately show ?thesis using 3 False by simp
  qed
qed (auto)

section \<open>Stakes\<close>

text \<open>The power a set gives an address, 0 if it has none.\<close>

definition power_of :: "'pk Proposer list \<Rightarrow> bytes \<Rightarrow> int" where
  "power_of vs a = (case find (\<lambda>v. Address v = a) vs of None \<Rightarrow> 0 | Some v \<Rightarrow> VotingPower v)"

lemma power_of_member:
  "distinct (map Address vs) \<Longrightarrow> v \<in> set vs \<Longrightarrow> power_of vs (Address v) = VotingPower v"
  by (simp add: power_of_def find_key_distinct)

lemma power_of_absent: "a \<notin> Address ` set vs \<Longrightarrow> power_of vs a = 0"
  using find_key_None [of Address a vs] by (simp add: power_of_def)

lemma power_of_Cons: "power_of (v # vs) a = (if Address v = a then VotingPower v else power_of vs a)"
  by (simp add: power_of_def)

text \<open>Summing one list's powers over the addresses of another.\<close>

lemma power_of_at:
  assumes "distinct (map Address es)"
  shows "sum_list (map (\<lambda>e. if Address e = a then VotingPower e else 0) es) = power_of es a"
  using assms
proof (induction es)
  case (Cons e es)
  then show ?case using power_of_absent [of a es] by (auto simp: power_of_Cons)
qed (simp add: power_of_def)

lemma power_of_sum:
  assumes "distinct (map Address es)" and "distinct (map Address xs)"
  shows "sum_list (map (\<lambda>x. power_of es (Address x)) xs) =
    power_sum (filter (\<lambda>e. Address e \<in> Address ` set xs) es)"
proof -
  have filt: "power_sum (filter P es) = sum_list (map (\<lambda>e. if P e then VotingPower e else 0) es)"
    for P by (induction es) auto
  have "sum_list (map (\<lambda>x. power_of es (Address x)) xs) =
      sum_list (map (\<lambda>e. if Address e \<in> Address ` set xs then VotingPower e else 0) es)"
    using assms(2)
  proof (induction xs)
    case (Cons x xs)
    have split: "(if Address e \<in> Address ` set (x # xs) then VotingPower e else 0) =
        (if Address e = Address x then VotingPower e else 0) +
        (if Address e \<in> Address ` set xs then VotingPower e else 0)" for e
      using Cons.prems by (auto simp: image_iff)
    show ?case unfolding split sum_list_addf using Cons power_of_at [OF assms(1), of "Address x"]
      by simp
  qed simp
  then show ?thesis by (simp add: filt)
qed

lemma power_sum_partition:
  "power_sum vs = power_sum (filter P vs) + power_sum (filter (\<lambda>v. \<not> P v) vs)"
  by (induction vs) auto

lemma power_sum_set:
  assumes "distinct (map Address vs)"
  shows "power_sum vs = sum VotingPower (set vs)"
  using assms by (simp add: sum_list_distinct_conv_sum_set distinct_map)

section \<open>Verification of the changes\<close>

lemma find_address_cases:
  obtains "a \<notin> Address ` set vs" "find (\<lambda>v. Address v = a) vs = None" "power_of vs a = 0"
  | v where "v \<in> set vs" "Address v = a" "find (\<lambda>v. Address v = a) vs = Some v"
      "power_of vs a = VotingPower v"
proof (cases "find (\<lambda>v. Address v = a) vs")
  case None
  then show ?thesis using that(1) find_key_None [of Address a vs] by (simp add: power_of_def)
next
  case (Some v)
  then show ?thesis using that(2) [of v] find_Some_member [OF Some] by (simp add: power_of_def)
qed

lemma power_of_bounds:
  assumes "powers_ok vs"
  shows "0 \<le> power_of vs a" "power_of vs a \<le> power_sum vs" "is_i64 (power_of vs a)"
proof -
  show nonneg: "0 \<le> power_of vs a" and le: "power_of vs a \<le> power_sum vs"
    using powers_okD [OF assms] by (cases rule: find_address_cases [where a = a and vs = vs]; simp)+
  show "is_i64 (power_of vs a)"
    using nonneg le powers_okD(4) [OF assms] by (simp add: is_i64_iff MaxTotalVotingPower_eq)
qed

abbreviation stake_sum :: "'pk Proposer list \<Rightarrow> 'pk Proposer list \<Rightarrow> int" where
  "stake_sum vs xs \<equiv> sum_list (map (\<lambda>x. power_of vs (Address x)) xs)"

lemma stake_sum_bounds:
  assumes "powers_ok vs" and "distinct (map Address vs)" and "distinct (map Address xs)"
  shows "0 \<le> stake_sum vs xs" "stake_sum vs xs \<le> power_sum vs"
proof -
  let ?P = "\<lambda>e. Address e \<in> Address ` set xs"
  have "0 \<le> power_sum (filter (\<lambda>v. \<not> ?P v) vs)"
    using powers_okD(1) [OF assms(1)] by (auto intro: sum_list_nonneg_map)
  then show "stake_sum vs xs \<le> power_sum vs"
    using power_of_sum [OF assms(2,3)] power_sum_partition [of vs ?P] by linarith
  show "0 \<le> stake_sum vs xs"
    using power_of_bounds(1) [OF assms(1)] by (auto intro: sum_list_nonneg_map)
qed

lemma sum_removed_ok:
  assumes "Address ` set ds \<subseteq> Address ` set (Proposers s)" and "0 \<le> removed"
    and "powers_ok (Proposers s)" and "removed + stake_sum (Proposers s) ds \<le> MaxTotalVotingPower"
  shows "sum_removed s ds removed = Inr (removed + stake_sum (Proposers s) ds)"
  using assms
proof (induction ds arbitrary: removed)
  case (Cons d ds)
  have rest: "0 \<le> stake_sum (Proposers s) ds"
    using power_of_bounds(1) [OF Cons.prems(3)] by (auto intro: sum_list_nonneg_map)
  show ?case
  proof (cases rule: find_address_cases [where a = "Address d" and vs = "Proposers s"])
    case 1
    then show ?thesis using Cons.prems(1) by auto
  next
    case (2 v)
    have pow: "0 \<le> VotingPower v" using powers_okD(1) [OF Cons.prems(3) 2(1)] .
    then have "is_i64 (removed + VotingPower v)"
      using Cons.prems(2,4) rest 2(4) by (simp add: is_i64_iff MaxTotalVotingPower_eq)
    then show ?thesis
      using Cons.prems Cons.IH [of "removed + VotingPower v"] 2 pow
      by (simp add: snd_GetByAddress i64_exact add.assoc)
  qed
qed simp

lemma sum_removed_missing:
  assumes "\<not> Address ` set ds \<subseteq> Address ` set (Proposers s)"
  shows "\<exists>err. sum_removed s ds removed = Inl err"
  using assms
proof (induction ds arbitrary: removed)
  case (Cons d ds)
  show ?case
  proof (cases rule: find_address_cases [where a = "Address d" and vs = "Proposers s"])
    case 1
    then show ?thesis by (simp add: snd_GetByAddress)
  next
    case (2 v)
    then have "Address d \<in> Address ` set (Proposers s)" by (metis imageI)
    then have "\<not> Address ` set ds \<subseteq> Address ` set (Proposers s)" using Cons.prems by simp
    then show ?thesis using Cons.IH 2 by (simp add: snd_GetByAddress)
  qed
qed simp

lemma verifyRemovals_ok:
  assumes wf: "wf_set s" and ds: "distinct (map Address ds)"
    and sub: "Address ` set ds \<subseteq> Address ` set (Proposers s)"
  shows "verifyRemovals ds s = Return (Inr (stake_sum (Proposers s) ds))"
proof -
  have "card (Address ` set ds) \<le> card (Address ` set (Proposers s))"
    using sub by (intro card_mono) auto
  then have "length ds \<le> length (Proposers s)"
    using ds wf_setD(1) [OF wf] by (metis distinct_card length_map list.set_map)
  moreover have "stake_sum (Proposers s) ds \<le> MaxTotalVotingPower"
    using stake_sum_bounds(2) [OF wf_setD(2,1) [OF wf] ds] powers_okD(4) [OF wf_setD(2) [OF wf]]
    by linarith
  ultimately show ?thesis
    using sum_removed_ok [OF sub _ wf_setD(2) [OF wf], of 0] by (simp add: verifyRemovals_def)
qed

lemma verifyRemovals_missing:
  "\<not> Address ` set ds \<subseteq> Address ` set (Proposers s) \<Longrightarrow>
    \<exists>err. verifyRemovals ds s = Return (Inl err)"
  using sum_removed_missing [of ds s 0] by (auto simp: verifyRemovals_def)

text \<open>
  The running total never leaves the range: what is still to be given up is part of it.
  As the deltas come in ascending order, an excess on the way is an excess at the end.
\<close>

lemma check_deltas_sorted:
  assumes "sorted (map f us)" and "\<And>u. u \<in> set us \<Longrightarrow> - g u \<le> f u \<and> f u \<le> MaxTotalVotingPower"
    and "\<And>u. u \<in> set us \<Longrightarrow> 0 \<le> (g u :: int)"
    and "sum_list (map g us) \<le> tvp" and "tvp \<le> MaxTotalVotingPower"
  shows "check_deltas tvp (map f us) =
    (if tvp + sum_list (map f us) \<le> MaxTotalVotingPower
     then Some (tvp + sum_list (map f us)) else None)"
  using assms
proof (induction us arbitrary: tvp)
  case (Cons u us)
  have bounds: "- g u \<le> f u" "f u \<le> MaxTotalVotingPower" "0 \<le> g u" using Cons.prems by auto
  have rest: "0 \<le> sum_list (map g us)" using Cons.prems(3) by (auto intro: sum_list_nonneg_map)
  have add: "i64_add tvp (f u) = tvp + f u"
    using Cons.prems(4,5) bounds rest by (intro i64_exact) (simp add: is_i64_iff MaxTotalVotingPower_eq)
  show ?case
  proof (cases "tvp + f u \<le> MaxTotalVotingPower")
    case True
    moreover have "sum_list (map g us) \<le> tvp + f u" using Cons.prems(4) bounds by simp
    ultimately have "check_deltas (tvp + f u) (map f us) =
        (if tvp + f u + sum_list (map f us) \<le> MaxTotalVotingPower
         then Some (tvp + f u + sum_list (map f us)) else None)"
      using Cons.prems by (intro Cons.IH) auto
    then show ?thesis using True add by (simp add: Let_def add.assoc)
  next
    case False
    then have "0 < f u" using Cons.prems(5) by linarith
    then have "0 \<le> f w" if "w \<in> set us" for w using Cons.prems(1) that by force
    then have "0 \<le> sum_list (map f us)" by (rule sum_list_nonneg_map)
    then show ?thesis using False add by (simp add: Let_def)
  qed
qed simp

definition new_total :: "'pk Proposer list \<Rightarrow> 'pk Proposer list \<Rightarrow> 'pk Proposer list \<Rightarrow> int" where
  "new_total vs us ds = power_sum vs - stake_sum vs us - stake_sum vs ds + power_sum us"

lemma update_delta_ok:
  assumes "powers_ok (Proposers s)" and "0 \<le> VotingPower u" and "VotingPower u \<le> MaxTotalVotingPower"
  shows "update_delta s u = VotingPower u - power_of (Proposers s) (Address u)"
proof (cases rule: find_address_cases [where a = "Address u" and vs = "Proposers s"])
  case (2 v)
  have "i64_sub (VotingPower u) (VotingPower v) = VotingPower u - VotingPower v"
    using powers_okD [OF assms(1)] 2(1) assms(2,3)
    by (intro i64_exact) (fastforce simp: is_i64_iff MaxTotalVotingPower_eq)
  then show ?thesis using 2 by (simp add: update_delta_def snd_GetByAddress)
qed (simp add: update_delta_def snd_GetByAddress)

lemma stake_sum_disjoint:
  assumes "wf_set s" and "distinct (map Address (us @ ds))"
  shows "stake_sum (Proposers s) us + stake_sum (Proposers s) ds \<le> power_sum (Proposers s)"
  using stake_sum_bounds(2) [OF wf_setD(2,1) [OF assms(1)] assms(2)] by simp

lemma verifyUpdates_ok:
  assumes wf: "wf_set s" and dist: "distinct (map Address (us @ ds))"
    and pow: "\<And>u. u \<in> set us \<Longrightarrow> 0 < VotingPower u \<and> VotingPower u \<le> MaxTotalVotingPower"
  shows "verifyUpdates us s (stake_sum (Proposers s) ds) = Return (cached s,
    if new_total (Proposers s) us ds \<le> MaxTotalVotingPower
    then Inr (new_total (Proposers s) us ds + stake_sum (Proposers s) ds)
    else Inl ErrTotalVotingPowerOverflow)"
proof -
  let ?vs = "Proposers s" and ?g = "\<lambda>u. power_of (Proposers s) (Address u)"
  let ?us = "sort_Sort (\<lambda>u w. update_delta s u < update_delta s w) us"
  let ?R = "stake_sum ?vs ds" and ?T = "power_sum ?vs"
  note ok = wf_setD(2) [OF wf]
  have delta: "update_delta s u = VotingPower u - ?g u" if "u \<in> set us" for u
    using pow [OF that] by (intro update_delta_ok [OF ok]) auto
  have sum_f: "sum_list (map (update_delta s) ?us) = power_sum us - stake_sum ?vs us"
    using delta by (simp add: sum_list_subtractf [symmetric] cong: map_cong)
  have sum_g: "sum_list (map ?g ?us) = stake_sum ?vs us" by simp
  have R: "0 \<le> ?R" "?R \<le> ?T"
    using stake_sum_bounds [OF ok wf_setD(1) [OF wf], of ds] dist by simp_all
  have T: "0 \<le> ?T" "?T \<le> MaxTotalVotingPower" using powers_okD [OF ok] by simp_all
  have sub: "i64_sub ?T ?R = ?T - ?R"
    using R T by (intro i64_exact) (simp add: is_i64_iff MaxTotalVotingPower_eq)
  have "check_deltas (?T - ?R) (map (update_delta s) ?us) =
      (if ?T - ?R + sum_list (map (update_delta s) ?us) \<le> MaxTotalVotingPower
       then Some (?T - ?R + sum_list (map (update_delta s) ?us)) else None)"
  proof (rule check_deltas_sorted [where g = ?g])
    show "- ?g u \<le> update_delta s u \<and> update_delta s u \<le> MaxTotalVotingPower" if "u \<in> set ?us" for u
      using that delta pow power_of_bounds(1) [OF ok, of "Address u"] by fastforce
    show "sum_list (map ?g ?us) \<le> ?T - ?R"
      using stake_sum_disjoint [OF wf dist] unfolding sum_g by linarith
  qed (use sorted_sort_delta power_of_bounds(1) [OF ok] R T in auto)
  then have check: "check_deltas (?T - ?R) (map (update_delta s) ?us) =
      (if new_total ?vs us ds \<le> MaxTotalVotingPower then Some (new_total ?vs us ds) else None)"
    unfolding sum_f by (simp add: new_total_def algebra_simps)
  have "0 \<le> new_total ?vs us ds"
    using stake_sum_disjoint [OF wf dist] pow sum_list_nonneg_map [of us VotingPower]
    by (fastforce simp: new_total_def)
  then have "i64_add (new_total ?vs us ds) ?R = new_total ?vs us ds + ?R"
    if "new_total ?vs us ds \<le> MaxTotalVotingPower"
    using R T that by (intro i64_exact) (simp add: is_i64_iff MaxTotalVotingPower_eq)
  then show ?thesis
    using TotalVotingPower_ok [OF ok wf_setD(3) [OF wf]] sub check
    by (simp add: verifyUpdates_def Let_def)
qed

section \<open>The merged list\<close>

definition applied :: "'pk Proposer list \<Rightarrow> 'pk Proposer list \<Rightarrow> 'pk Proposer list \<Rightarrow> 'pk Proposer list"
where
  "applied vs us ds = filter (\<lambda>e. Address e \<notin> Address ` set ds)
     (merge_updates (sort_Sort ValidatorsByAddress vs) us)"

lemma set_applied:
  assumes "distinct (map Address vs)" and "ascending us" and "distinct (map Address (us @ ds))"
  shows "set (applied vs us ds) =
    set us \<union> {e \<in> set vs. Address e \<notin> Address ` set us \<and> Address e \<notin> Address ` set ds}"
  using assms set_merge_updates [OF ascending_sort [OF assms(1)] assms(2)]
  by (auto simp: applied_def)

lemma ascending_applied:
  assumes "distinct (map Address vs)" and "ascending us"
  shows "ascending (applied vs us ds)"
  using assms unfolding applied_def
  by (intro ascending_filter ascending_merge_updates ascending_sort)

lemma applied_power_sum:
  assumes vs: "distinct (map Address vs)" and us: "ascending us"
    and dist: "distinct (map Address (us @ ds))"
  shows "power_sum (applied vs us ds) = new_total vs us ds"
proof -
  let ?in = "\<lambda>e. Address e \<in> Address ` set (us @ ds)"
  let ?rest = "filter (\<lambda>e. \<not> ?in e) vs"
  have rest: "set ?rest = {e \<in> set vs. Address e \<notin> Address ` set us \<and> Address e \<notin> Address ` set ds}"
    by auto
  have sum_rest: "power_sum ?rest = sum VotingPower (set ?rest)"
    using vs by (intro power_sum_set) (simp add: distinct_map_filter)
  have "power_sum (applied vs us ds) = sum VotingPower (set (applied vs us ds))"
    using ascending_distinct [OF ascending_applied [OF vs us]] by (rule power_sum_set)
  also have "\<dots> = sum VotingPower (set us \<union> set ?rest)"
    using set_applied [OF vs us dist] rest by simp
  also have "\<dots> = sum VotingPower (set us) + sum VotingPower (set ?rest)"
    by (rule sum.union_disjoint) auto
  also have "\<dots> = power_sum us + power_sum ?rest"
    using power_sum_set [of us] dist sum_rest by simp
  also have "power_sum ?rest = power_sum vs - stake_sum vs (us @ ds)"
    using power_sum_partition [of vs ?in] power_of_sum [OF vs dist] by linarith
  finally show ?thesis by (simp add: new_total_def)
qed

section \<open>Acceptable changes and their effect\<close>

definition acceptable :: "bool \<Rightarrow> 'pk Proposer list \<Rightarrow> 'pk Proposer list \<Rightarrow> bool" where
  "acceptable allowDeletes vs changes \<longleftrightarrow>
     changes_ok changes \<and>
     (\<forall>c \<in> set changes. VotingPower c = 0 \<longrightarrow> allowDeletes \<and> Address c \<in> Address ` set vs) \<and>
     ((\<exists>c \<in> set changes. VotingPower c \<noteq> 0) \<or> \<not> Address ` set vs \<subseteq> Address ` set changes) \<and>
     power_sum vs - stake_sum vs changes + power_sum changes \<le> MaxTotalVotingPower"

lemma distinct_split:
  assumes "changes_ok changes"
  shows "distinct (map Address (updates_of changes @ removals_of changes))"
proof -
  have dist: "distinct (map Address changes)" using assms by (simp add: changes_ok_def)
  have "Address u \<noteq> Address d" if "u \<in> set (updates_of changes)" "d \<in> set (removals_of changes)" for u d
    using distinct_Address_eq [OF dist, of u d] that by (auto simp: set_updates_of set_removals_of)
  then have "Address ` set (updates_of changes) \<inter> Address ` set (removals_of changes) = {}" by blast
  then show ?thesis using ascending_split [OF assms, THEN ascending_distinct] by simp
qed

lemma sum_list_split:
  fixes f :: "'pk Proposer \<Rightarrow> int"
  shows "sum_list (map f changes) =
    sum_list (map f (updates_of changes)) + sum_list (map f (removals_of changes))"
proof -
  have "sum_list (map f xs) = sum_list (map f (filter P xs)) + sum_list (map f (filter (\<lambda>x. \<not> P x) xs))"
    for xs P by (induction xs) auto
  from this [of "sort_Sort ValidatorsByAddress changes" "\<lambda>v. VotingPower v \<noteq> 0"]
  show ?thesis by (simp add: updates_of_def removals_of_def)
qed

lemma new_total_split:
  "new_total vs (updates_of changes) (removals_of changes) =
     power_sum vs - stake_sum vs changes + power_sum changes"
proof -
  have "power_sum (removals_of changes) = 0"
    by (intro sum_list_zero_map) (simp add: set_removals_of)
  then show ?thesis
    using sum_list_split [of VotingPower changes]
      sum_list_split [of "\<lambda>x. power_of vs (Address x)" changes]
    by (simp add: new_total_def)
qed

text \<open>The two conditions under which the code reports that the set would become empty.\<close>

lemma empty_result_iff:
  assumes wf: "distinct (map Address (Proposers s))" and ok: "changes_ok changes"
    and sub: "Address ` set (removals_of changes) \<subseteq> Address ` set (Proposers s)"
  shows "numNewValidators (updates_of changes) s = 0 \<and>
      length (Proposers s) = length (removals_of changes) \<longleftrightarrow>
    (\<forall>c \<in> set changes. VotingPower c = 0) \<and> Address ` set (Proposers s) \<subseteq> Address ` set changes"
    (is "?new \<and> ?len \<longleftrightarrow> ?zero \<and> ?all")
proof -
  let ?us = "updates_of changes" and ?ds = "removals_of changes" and ?A = "Address ` set (Proposers s)"
  have dist: "distinct (map Address (?us @ ?ds))" by (rule distinct_split [OF ok])
  have card: "card ?A = length (Proposers s)" "card (Address ` set ?ds) = length ?ds"
    using wf dist by (metis distinct_card length_map list.set_map distinct_append map_append)+
  have len: "?len \<longleftrightarrow> Address ` set ?ds = ?A"
    using sub card by (metis card_subset_eq List.finite_set finite_imageI)
  have new: "?new \<longleftrightarrow> Address ` set ?us \<subseteq> ?A"
    by (auto simp: numNewValidators_def filter_empty_conv HasAddress_iff)
  have disj: "Address ` set ?us \<inter> Address ` set ?ds = {}" using dist by auto
  show ?thesis
  proof
    assume "?new \<and> ?len"
    then have ds: "Address ` set ?ds = ?A" and "Address ` set ?us \<subseteq> ?A" using new len by simp_all
    then have "Address ` set ?us = {}" using disj by (metis inf.absorb1)
    with ds show "?zero \<and> ?all" by (auto simp: set_updates_of set_removals_of)
  next
    assume r: "?zero \<and> ?all"
    then have "set ?ds = set changes" "set ?us = {}" by (auto simp: set_updates_of set_removals_of)
    then show "?new \<and> ?len" using r new len sub by auto
  qed
qed

end
