(* ===== verification/Con_SetChange.thy ===== *)
theory Con_SetChange
  imports Con_SetUpdate
begin

text \<open>
  What \<open>updateWithChangeSet\<close> achieves: exactly the acceptable changes are applied, the
  effect on stakes is a map update, rejected changes leave the set alone, and two invariants
  are kept: \<open>sound\<close>, under which no operation panics, and \<open>steady\<close>, under which none clips.
\<close>

section \<open>Steady sets\<close>

definition prio_limit :: int where "prio_limit = 3 * 2 ^ 60"

definition steady :: "'pk ProposerSet \<Rightarrow> bool" where
  "steady s \<longleftrightarrow> wf_set s \<and>
     (\<forall>v \<in> set (Proposers s). 0 < VotingPower v \<and> \<bar>ProposerPriority v\<bar> < prio_limit)"

lemma steady_wf: "steady s \<Longrightarrow> wf_set s"
  by (simp add: steady_def)

lemma steadyD:
  "steady s \<Longrightarrow> v \<in> set (Proposers s) \<Longrightarrow> 0 < VotingPower v"
  "steady s \<Longrightarrow> v \<in> set (Proposers s) \<Longrightarrow> \<bar>ProposerPriority v\<bar> < prio_limit"
  by (simp_all add: steady_def)

lemma steady_empty: "steady empty_ProposerSet"
  by (simp add: steady_def wf_set_def empty_ProposerSet_def powers_ok_def cache_ok_def ptr_ok_def
      MaxTotalVotingPower_eq)

text \<open>A sound set has positive powers; its priorities may be anything in \<open>int64\<close>.\<close>

definition sound :: "'pk ProposerSet \<Rightarrow> bool" where
  "sound s \<longleftrightarrow> wf_set s \<and> (\<forall>v \<in> set (Proposers s). 0 < VotingPower v)"

lemma soundD:
  "sound s \<Longrightarrow> wf_set s"
  "sound s \<Longrightarrow> v \<in> set (Proposers s) \<Longrightarrow> 0 < VotingPower v"
  by (simp_all add: sound_def)

lemma steady_sound: "steady s \<Longrightarrow> sound s"
  by (simp add: steady_def sound_def)

section \<open>Pricing the updates\<close>

lemma computeNewPriorities_fields [simp]:
  "map Address (computeNewPriorities us s t) = map Address us"
  "map VotingPower (computeNewPriorities us s t) = map VotingPower us"
  "map PubKey (computeNewPriorities us s t) = map PubKey us"
  by (simp_all add: computeNewPriorities_def comp_def)

lemma computeNewPriorities_sets [simp]:
  "Address ` set (computeNewPriorities us s t) = Address ` set us"
  "VotingPower ` set (computeNewPriorities us s t) = VotingPower ` set us"
  by (simp_all add: computeNewPriorities_def image_image)

lemma computeNewPriorities_cached [simp]:
  "computeNewPriorities us (cached s) t = computeNewPriorities us s t"
  by (simp add: computeNewPriorities_def GetByAddress_def)

lemma stake_sum_cong: "map Address xs = map Address ys \<Longrightarrow> stake_sum vs xs = stake_sum vs ys"
  by (metis (no_types, lifting) map_eq_conv map_map comp_def)

text \<open>The entry priority, and that it stays far from the ends of \<open>int64\<close>.\<close>

definition entry_priority :: "int \<Rightarrow> int" where
  "entry_priority t = - (t + t div 8)"

lemma entry_priority_exact:
  assumes "0 \<le> t" and "t \<le> 2 * MaxTotalVotingPower"
  shows "i64_neg (i64_add t (i64_shr t 3)) = entry_priority t"
    and "\<bar>entry_priority t\<bar> < prio_limit"
proof -
  have d: "0 \<le> t div 8" "t div 8 \<le> 2 ^ 58" using assms by (simp_all add: MaxTotalVotingPower_eq)
  then have "is_i64 (t + t div 8)" "is_i64 (- (t + t div 8))"
    using assms by (simp_all add: is_i64_iff MaxTotalVotingPower_eq)
  then show "i64_neg (i64_add t (i64_shr t 3)) = entry_priority t"
    by (simp add: entry_priority_def i64_shr_def i64_exact i64_neg_def)
  show "\<bar>entry_priority t\<bar> < prio_limit"
    using d assms by (simp add: entry_priority_def prio_limit_def MaxTotalVotingPower_eq)
qed

lemma computeNewPriorities_bound:
  assumes "steady s" and "0 \<le> t" and "t \<le> 2 * MaxTotalVotingPower"
    and "u \<in> set (computeNewPriorities us s t)"
  shows "\<bar>ProposerPriority u\<bar> < prio_limit"
proof -
  obtain w where w: "w \<in> set us" and u: "ProposerPriority u =
      (case snd (GetByAddress s (Address w)) of
         None \<Rightarrow> i64_neg (i64_add t (i64_shr t 3)) | Some val \<Rightarrow> ProposerPriority val)"
    using assms(4) by (auto simp: computeNewPriorities_def)
  show ?thesis
  proof (cases rule: find_address_cases [where a = "Address w" and vs = "Proposers s"])
    case 1
    then show ?thesis
      using u entry_priority_exact [OF assms(2,3)] by (simp add: snd_GetByAddress)
  next
    case (2 v)
    then show ?thesis using u steadyD(2) [OF assms(1)] by (simp add: snd_GetByAddress)
  qed
qed

section \<open>Rescaling and sorting the new set\<close>

text \<open>The last steps of \<open>updateWithChangeSet\<close>, from a list that fits.\<close>

lemma finish_update:
  assumes wf: "wf_set s" and ne: "Proposers s \<noteq> []"
    and pos: "\<And>v. v \<in> set (Proposers s) \<Longrightarrow> 0 < VotingPower v"
    and prio: "\<And>v. v \<in> set (Proposers s) \<Longrightarrow> \<bar>ProposerPriority v\<bar> < prio_limit"
  shows "obind (RescalePriorities (i64_mul PriorityWindowSizeFactor (power_sum (Proposers s))) s)
      shiftByAvgProposerPriority = Return (s\<lparr>Proposers := normalise (Proposers s)\<rparr>)"
    and "0 < power_sum (Proposers s)"
proof -
  obtain v where v: "v \<in> set (Proposers s)" using ne by (cases "Proposers s") auto
  show total: "0 < power_sum (Proposers s)"
    using pos [OF v] powers_okD(2) [OF wf_setD(2) [OF wf] v] by linarith
  have "prio_spread (Proposers s) \<le> 2 * prio_limit - 2"
  proof (rule prio_spread_le [OF ne])
    fix v w assume "v \<in> set (Proposers s)" "w \<in> set (Proposers s)"
    then show "ProposerPriority v - ProposerPriority w \<le> 2 * prio_limit - 2"
      using prio [of v] prio [of w] by linarith
  qed
  then have "prio_spread (Proposers s) + 2 * power_sum (Proposers s) \<le> MaxInt64"
    using powers_okD(4) [OF wf_setD(2) [OF wf]]
    by (simp add: prio_limit_def MaxTotalVotingPower_eq MaxInt64_def)
  from normalise_run [OF wf ne total this]
  show "obind (RescalePriorities (i64_mul PriorityWindowSizeFactor (power_sum (Proposers s))) s)
      shiftByAvgProposerPriority = Return (s\<lparr>Proposers := normalise (Proposers s)\<rparr>)" .
qed

lemma normalise_below_limit:
  assumes "vs \<noteq> []" and "0 < power_sum vs" and "power_sum vs \<le> MaxTotalVotingPower"
    and "v \<in> set (normalise vs)"
  shows "\<bar>ProposerPriority v\<bar> < prio_limit" "is_i64 (ProposerPriority v)"
  using normalise_abs [OF assms(1,2,4)] assms(3)
  by (auto simp: prio_limit_def MaxTotalVotingPower_eq is_i64_iff)

section \<open>The accepted case\<close>

text \<open>The set a successful call leaves, with the priced updates merged in.\<close>

definition priced :: "'pk Proposer list \<Rightarrow> 'pk ProposerSet \<Rightarrow> 'pk Proposer list" where
  "priced changes s = computeNewPriorities (updates_of changes) s
     (power_sum (Proposers s) - stake_sum (Proposers s) (updates_of changes) +
      power_sum (updates_of changes))"

definition changed :: "'pk Proposer list \<Rightarrow> 'pk ProposerSet \<Rightarrow> 'pk Proposer list" where
  "changed changes s = applied (Proposers s) (priced changes s) (removals_of changes)"

lemma keep_proposer_InSet:
  "keep_proposer ls s = Some (InSet a) \<longleftrightarrow> Proposer s = Some (InSet a) \<and> a \<notin> Address ` set ls"
  by (auto simp: keep_proposer_def split: option.splits proposer_ptr.splits)

lemma acceptableD:
  assumes "acceptable allow vs changes"
  shows "changes_ok changes" "removals_of changes \<noteq> [] \<Longrightarrow> allow"
    "Address ` set (removals_of changes) \<subseteq> Address ` set vs"
    "new_total vs (updates_of changes) (removals_of changes) \<le> MaxTotalVotingPower"
    "u \<in> set (updates_of changes) \<Longrightarrow> 0 < VotingPower u \<and> VotingPower u \<le> MaxTotalVotingPower"
proof -
  show "changes_ok changes" "new_total vs (updates_of changes) (removals_of changes) \<le> MaxTotalVotingPower"
    using assms by (simp_all add: acceptable_def new_total_split)
  show "Address ` set (removals_of changes) \<subseteq> Address ` set vs"
    using assms by (auto simp: acceptable_def set_removals_of)
  show "allow" if ne: "removals_of changes \<noteq> []"
  proof -
    obtain d where "d \<in> set (removals_of changes)" using ne by (metis hd_in_set)
    then show ?thesis using assms by (auto simp: acceptable_def set_removals_of)
  qed
  show "0 < VotingPower u \<and> VotingPower u \<le> MaxTotalVotingPower" if "u \<in> set (updates_of changes)"
    using that assms by (fastforce simp: acceptable_def set_updates_of changes_ok_def)
qed

lemma priced_fields:
  "map Address (priced changes s) = map Address (updates_of changes)"
  "map VotingPower (priced changes s) = map VotingPower (updates_of changes)"
  "map PubKey (priced changes s) = map PubKey (updates_of changes)"
  "Address ` set (priced changes s) = Address ` set (updates_of changes)"
  "VotingPower ` set (priced changes s) = VotingPower ` set (updates_of changes)"
  by (simp_all add: priced_def)

lemma set_changed:
  assumes "wf_set s" and "changes_ok changes"
  shows "set (changed changes s) = set (priced changes s) \<union>
    {e \<in> set (Proposers s). Address e \<notin> Address ` set changes}"
    and "ascending (changed changes s)"
    and "power_sum (changed changes s) =
      new_total (Proposers s) (updates_of changes) (removals_of changes)"
proof -
  have asc: "ascending (priced changes s)"
    using ascending_split(1) [OF assms(2)] by (simp only: priced_fields)
  have dist: "distinct (map Address (priced changes s @ removals_of changes))"
    using distinct_split [OF assms(2)] by (simp add: priced_fields)
  have "Address ` set changes = Address ` set (updates_of changes) \<union> Address ` set (removals_of changes)"
    by (auto simp: set_updates_of set_removals_of)
  then show "set (changed changes s) = set (priced changes s) \<union>
      {e \<in> set (Proposers s). Address e \<notin> Address ` set changes}"
    unfolding changed_def set_applied [OF wf_setD(1) [OF assms(1)] asc dist]
    by (auto simp: priced_fields)
  show "ascending (changed changes s)"
    unfolding changed_def using wf_setD(1) [OF assms(1)] asc by (rule ascending_applied)
  show "power_sum (changed changes s) =
      new_total (Proposers s) (updates_of changes) (removals_of changes)"
    unfolding changed_def applied_power_sum [OF wf_setD(1) [OF assms(1)] asc dist]
    using stake_sum_cong [of "priced changes s" "updates_of changes"]
    by (simp add: new_total_def priced_fields)
qed

lemma changed_nonempty:
  assumes "wf_set s" and "acceptable allow (Proposers s) changes"
  shows "changed changes s \<noteq> []"
proof -
  have sets: "set (changed changes s) = set (priced changes s) \<union>
      {e \<in> set (Proposers s). Address e \<notin> Address ` set changes}"
    using set_changed(1) [OF assms(1) acceptableD(1) [OF assms(2)]] .
  consider c where "c \<in> set changes" "VotingPower c \<noteq> 0"
    | "\<not> Address ` set (Proposers s) \<subseteq> Address ` set changes"
    using assms(2) by (auto simp: acceptable_def)
  then show ?thesis
  proof cases
    case 1
    then have "Address ` set (priced changes s) \<noteq> {}" by (auto simp: priced_fields set_updates_of)
    then show ?thesis using sets by auto
  next
    case 2
    then show ?thesis using sets by auto
  qed
qed

text \<open>The stakes the priced updates are computed from stay within twice the limit.\<close>

lemma priced_bound:
  assumes st: "steady s" and acc: "acceptable allow (Proposers s) changes"
    and u: "u \<in> set (priced changes s)"
  shows "\<bar>ProposerPriority u\<bar> < prio_limit"
proof -
  let ?vs = "Proposers s" and ?us = "updates_of changes" and ?ds = "removals_of changes"
  note wf = steady_wf [OF st] and ok = acceptableD(1) [OF acc]
  have "stake_sum ?vs ?us + stake_sum ?vs ?ds \<le> power_sum ?vs"
    using stake_sum_disjoint [OF wf distinct_split [OF ok]] .
  moreover have "0 \<le> stake_sum ?vs ?us" "0 \<le> stake_sum ?vs ?ds"
    using stake_sum_bounds(1) [OF wf_setD(2,1) [OF wf]] distinct_split [OF ok] by simp_all
  moreover have "0 \<le> power_sum ?us"
    using acceptableD(5) [OF acc] by (fastforce intro: sum_list_nonneg_map)
  moreover have "new_total ?vs ?us ?ds \<le> MaxTotalVotingPower" by (rule acceptableD(4) [OF acc])
  moreover have "power_sum ?vs \<le> MaxTotalVotingPower" by (rule powers_okD(4) [OF wf_setD(2) [OF wf]])
  ultimately have "0 \<le> power_sum ?vs - stake_sum ?vs ?us + power_sum ?us"
    "power_sum ?vs - stake_sum ?vs ?us + power_sum ?us \<le> 2 * MaxTotalVotingPower"
    unfolding new_total_def by linarith+
  from computeNewPriorities_bound [OF st this u [unfolded priced_def]] show ?thesis .
qed

lemma changed_sound:
  assumes so: "sound s" and acc: "acceptable allow (Proposers s) changes"
    and v: "v \<in> set (changed changes s)"
  shows "0 < VotingPower v \<and> is_i64 (ProposerPriority v)"
proof (cases "v \<in> set (priced changes s)")
  case True
  then have "VotingPower v \<in> VotingPower ` set (priced changes s)" by (rule imageI)
  then have "VotingPower v \<in> VotingPower ` set (updates_of changes)" by (simp only: priced_fields)
  moreover have "is_i64 (ProposerPriority v)"
    using True wf_setD(5) [OF soundD(1) [OF so]]
    by (auto simp: priced_def computeNewPriorities_def snd_GetByAddress find_Some_iff split: option.split)
  ultimately show ?thesis using acceptableD(5) [OF acc] by auto
next
  case False
  then have "v \<in> set (Proposers s)"
    using v set_changed(1) [OF soundD(1) [OF so] acceptableD(1) [OF acc]] by simp
  then show ?thesis using soundD [OF so] wf_setD(5) by blast
qed

lemma changed_members:
  assumes st: "steady s" and acc: "acceptable allow (Proposers s) changes"
    and v: "v \<in> set (changed changes s)"
  shows "0 < VotingPower v \<and> \<bar>ProposerPriority v\<bar> < prio_limit"
proof (cases "v \<in> set (priced changes s)")
  case True
  then show ?thesis using changed_sound [OF steady_sound [OF st] acc v] priced_bound [OF st acc True] by simp
next
  case False
  then have "v \<in> set (Proposers s)"
    using v set_changed(1) [OF steady_wf [OF st] acceptableD(1) [OF acc]] by simp
  then show ?thesis using steadyD [OF st] by blast
qed

lemma changed_powers_ok:
  assumes so: "sound s" and acc: "acceptable allow (Proposers s) changes"
  shows "powers_ok (changed changes s)"
  using changed_sound [OF so acc] set_changed(3) [OF soundD(1) [OF so] acceptableD(1) [OF acc]]
    acceptableD(4) [OF acc]
  by (fastforce simp: powers_ok_def)

text \<open>The state before rescaling.\<close>

definition merged_state :: "'pk Proposer list \<Rightarrow> 'pk ProposerSet \<Rightarrow> 'pk ProposerSet" where
  "merged_state changes s =
     \<lparr>Proposers = changed changes s,
      Proposer = keep_proposer (removals_of changes) (applyUpdates (priced changes s) (cached s)),
      totalVotingPower = power_sum (changed changes s)\<rparr>"

lemma merged_state_wf:
  assumes so: "sound s" and acc: "acceptable allow (Proposers s) changes"
  shows "wf_set (merged_state changes s)"
proof -
  let ?s = "merged_state changes s"
  note wf = soundD(1) [OF so] and ok = acceptableD(1) [OF acc]
  have "is_i64 (ProposerPriority v)" if "v \<in> set (changed changes s)" for v
    using changed_sound [OF so acc that] by blast
  moreover have "a \<in> Address ` set (changed changes s)" if "Proposer ?s = Some (InSet a)" for a
  proof -
    have kept: "Proposer s = Some (InSet a)" "a \<notin> Address ` set (updates_of changes)"
      "a \<notin> Address ` set (removals_of changes)"
      using that by (auto simp: merged_state_def keep_proposer_InSet applyUpdates_def priced_fields)
    then have "a \<in> Address ` set (Proposers s)" "a \<notin> Address ` set changes"
      using wf_setD(4) [OF wf] by (auto simp: ptr_ok_def set_updates_of set_removals_of)
    then show ?thesis using set_changed(1) [OF wf ok] by auto
  qed
  ultimately show ?thesis
    using ascending_distinct [OF set_changed(2) [OF wf ok]] changed_powers_ok [OF so acc]
    by (auto simp: wf_set_def merged_state_def cache_ok_def ptr_ok_def
        split: option.splits proposer_ptr.splits)
qed

definition updated :: "'pk Proposer list \<Rightarrow> 'pk ProposerSet \<Rightarrow> 'pk ProposerSet" where
  "updated changes s =
     (merged_state changes s)\<lparr>Proposers :=
        sort_Sort ValidatorsByVotingPower (normalise (changed changes s))\<rparr>"

lemma image_cover: "A \<subseteq> f ` V \<Longrightarrow> A \<subseteq> f ` (U \<union> {e \<in> V. f e \<notin> f ` U})"
proof
  fix a assume "A \<subseteq> f ` V" "a \<in> A"
  then obtain v where "v \<in> V" "a = f v" by auto
  then show "a \<in> f ` (U \<union> {e \<in> V. f e \<notin> f ` U})" by (cases "f v \<in> f ` U") auto
qed

lemma apply_changes_run:
  assumes so: "sound s" and acc: "acceptable allow (Proposers s) changes"
  shows "obind (applyRemovals (removals_of changes) (applyUpdates (priced changes s) (cached s)))
      updateTotalVotingPower = Return (merged_state changes s)"
proof -
  let ?us = "priced changes s" and ?ds = "removals_of changes"
  let ?es = "sort_Sort ValidatorsByAddress (Proposers s)"
  note wf = soundD(1) [OF so] and ok = acceptableD(1) [OF acc]
  have es: "ascending ?es" by (rule ascending_sort [OF wf_setD(1) [OF wf]])
  have us: "ascending ?us" using ascending_split(1) [OF ok] by (simp only: priced_fields)
  have ds: "ascending ?ds" by (rule ascending_split(2) [OF ok])
  have "Address ` set ?ds \<subseteq> Address ` set (merge_updates ?es ?us)"
    using acceptableD(3) [OF acc] unfolding set_merge_updates [OF es us] set_sort_Sort
    by (rule image_cover)
  from remove_from_ok [OF ascending_merge_updates [OF es us] ds this]
  have "remove_from (merge_updates ?es ?us) ?ds = Return (changed changes s)"
    by (simp add: changed_def applied_def)
  then have "applyRemovals ?ds (applyUpdates ?us (cached s)) =
      Return ((merged_state changes s)\<lparr>totalVotingPower := power_sum (Proposers s)\<rparr>)"
    by (simp add: applyRemovals_def applyUpdates_def merged_state_def)
  then show ?thesis
    using changed_powers_ok [OF so acc] by (simp add: updateTotalVotingPower_ok merged_state_def)
qed

text \<open>An acceptable change runs up to the rescaling, whatever the priorities are.\<close>

lemma updateWithChangeSet_run:
  assumes so: "sound s" and ne: "changes \<noteq> []" and acc: "acceptable allow (Proposers s) changes"
  shows "updateWithChangeSet changes allow s =
    obind (obind (RescalePriorities (i64_mul PriorityWindowSizeFactor (power_sum (changed changes s)))
        (merged_state changes s)) shiftByAvgProposerPriority)
      (\<lambda>s7. Return (s7\<lparr>Proposers := sort_Sort ValidatorsByVotingPower (Proposers s7)\<rparr>, None))"
proof -
  let ?vs = "Proposers s" and ?us = "updates_of changes" and ?ds = "removals_of changes"
  let ?m = "merged_state changes s"
  note wf = soundD(1) [OF so] and ok = acceptableD(1) [OF acc]
  have dist: "distinct (map Address (?us @ ?ds))" by (rule distinct_split [OF ok])
  have process: "processChanges changes = Inr (?us, ?ds)" using ok by (simp add: processChanges_Inr)
  have nonempty: "\<not> (numNewValidators ?us s = 0 \<and> length ?vs = length ?ds)"
    unfolding empty_result_iff [OF wf_setD(1) [OF wf] ok acceptableD(3) [OF acc]]
    using acc by (auto simp: acceptable_def)
  have removals: "verifyRemovals ?ds s = Return (Inr (stake_sum ?vs ?ds))"
    using dist by (intro verifyRemovals_ok [OF wf _ acceptableD(3) [OF acc]]) simp
  have verify: "verifyUpdates ?us s (stake_sum ?vs ?ds) =
      Return (cached s, Inr (power_sum ?vs - stake_sum ?vs ?us + power_sum ?us))"
    using verifyUpdates_ok [OF wf dist acceptableD(5) [OF acc]] acceptableD(4) [OF acc]
    by (simp add: new_total_def)
  have total: "TotalVotingPower ?m = Return (?m, power_sum (changed changes s))"
    using TotalVotingPower_ok [of ?m] merged_state_wf [OF so acc]
    by (simp add: wf_set_def merged_state_def)
  obtain s3 where applied: "applyRemovals ?ds (applyUpdates (priced changes s) (cached s)) = Return s3"
      "updateTotalVotingPower s3 = Return ?m"
    using apply_changes_run [OF so acc] by auto
  have early: "\<not> (\<not> allow \<and> ?ds \<noteq> [])" using acceptableD(2) [OF acc] by auto
  show ?thesis
    unfolding updateWithChangeSet_def process sum.case prod.case if_not_P [OF ne] if_not_P [OF early]
      if_not_P [OF nonempty]
    by (simp add: removals verify total applied Let_def priced_def [symmetric] obind_assoc)
qed

lemma updateWithChangeSet_accepts:
  assumes st: "steady s" and ne: "changes \<noteq> []" and acc: "acceptable allow (Proposers s) changes"
  shows "updateWithChangeSet changes allow s = Return (updated changes s, None)"
proof -
  let ?m = "merged_state changes s"
  note so = steady_sound [OF st]
  have m: "Proposers ?m = changed changes s" by (simp add: merged_state_def)
  have "obind (RescalePriorities (i64_mul PriorityWindowSizeFactor (power_sum (changed changes s))) ?m)
      shiftByAvgProposerPriority = Return (?m\<lparr>Proposers := normalise (changed changes s)\<rparr>)"
    using finish_update(1) [of ?m] merged_state_wf [OF so acc] changed_nonempty [OF soundD(1) [OF so] acc]
      changed_members [OF st acc] unfolding m by blast
  then show ?thesis by (simp only: updateWithChangeSet_run [OF so ne acc] obind.simps) (simp add: updated_def)
qed

lemma updateWithChangeSet_rejects:
  assumes wf: "wf_set s" and ne: "changes \<noteq> []" and rej: "\<not> acceptable allow (Proposers s) changes"
  shows "\<exists>s' err. updateWithChangeSet changes allow s = Return (s', Some err) \<and> s' \<in> {s, cached s}"
proof (cases "changes_ok changes")
  case False
  then show ?thesis using processChanges_Inl [OF False] ne by (auto simp: updateWithChangeSet_def)
next
  case ok: True
  let ?vs = "Proposers s" and ?us = "updates_of changes" and ?ds = "removals_of changes"
  have process: "processChanges changes = Inr (?us, ?ds)" using ok by (simp add: processChanges_Inr)
  have dist: "distinct (map Address (?us @ ?ds))" by (rule distinct_split [OF ok])
  show ?thesis
  proof (cases "(\<not> allow \<and> ?ds \<noteq> []) \<or> (numNewValidators ?us s = 0 \<and> length ?vs = length ?ds)")
    case True
    then show ?thesis using ne process by (auto simp: updateWithChangeSet_def)
  next
    case early: False
    show ?thesis
    proof (cases "Address ` set ?ds \<subseteq> Address ` set ?vs")
      case False
      from verifyRemovals_missing [OF this] early ne process show ?thesis
        by (auto simp: updateWithChangeSet_def)
    next
      case True
      have "\<not> ((\<forall>c \<in> set changes. VotingPower c = 0) \<and> Address ` set ?vs \<subseteq> Address ` set changes)"
        using empty_result_iff [OF wf_setD(1) [OF wf] ok True] early by blast
      moreover have "\<forall>c \<in> set changes. VotingPower c = 0 \<longrightarrow> allow \<and> Address c \<in> Address ` set ?vs"
      proof (intro ballI impI)
        fix c assume "c \<in> set changes" "VotingPower c = 0"
        then have c: "c \<in> set ?ds" by (simp add: set_removals_of)
        then have "?ds \<noteq> []" by auto
        then show "allow \<and> Address c \<in> Address ` set ?vs" using early True c by auto
      qed
      ultimately have over: "\<not> new_total ?vs ?us ?ds \<le> MaxTotalVotingPower"
        using rej ok unfolding acceptable_def new_total_split by blast
      have "0 < VotingPower u \<and> VotingPower u \<le> MaxTotalVotingPower" if "u \<in> set ?us" for u
        using that ok by (fastforce simp: set_updates_of changes_ok_def)
      then have "verifyUpdates ?us s (stake_sum ?vs ?ds) =
          Return (cached s, Inl ErrTotalVotingPowerOverflow)"
        using verifyUpdates_ok [OF wf dist] over by simp
      moreover have "verifyRemovals ?ds s = Return (Inr (stake_sum ?vs ?ds))"
        using dist True by (intro verifyRemovals_ok [OF wf]) simp_all
      ultimately show ?thesis using early ne process by (auto simp: updateWithChangeSet_def)
    qed
  qed
qed

end
