(* ===== verification/Con_SetSafety.thy ===== *)
theory Con_SetSafety
  imports Con_SetChange
begin

text \<open>
  No operation of a validator set panics, whatever its priorities are: the rotation and the
  changes of \<^verbatim>\<open>src/concord/proposer_set.go\<close> outside the regime in which they are exact. Sums that
  leave \<open>int64\<close> are clipped or wrap around, but addresses, keys and powers stay as they are.
\<close>

section \<open>Priorities apart\<close>

definition bare :: "'pk Proposer list \<Rightarrow> 'pk Proposer list" where
  "bare vs = map (\<lambda>v. v\<lparr>ProposerPriority := 0\<rparr>) vs"

lemma bare_map [simp]: "bare (map (with_prio f) vs) = bare vs"
  by (simp add: bare_def comp_def)

lemma bare_update: "i < length vs \<Longrightarrow> bare (vs[i := (vs ! i)\<lparr>ProposerPriority := p\<rparr>]) = bare vs"
  by (simp add: bare_def map_update list_update_same_conv)

lemma bare_fields:
  assumes "bare ws = bare vs"
  shows "map Address ws = map Address vs" "map VotingPower ws = map VotingPower vs"
    "map PubKey ws = map PubKey vs" "length ws = length vs"
proof -
  have "map Address (bare vs) = map Address vs" "map VotingPower (bare vs) = map VotingPower vs"
    "map PubKey (bare vs) = map PubKey vs" "length (bare vs) = length vs" for vs :: "'a Proposer list"
    by (simp_all add: bare_def comp_def)
  then show "map Address ws = map Address vs" "map VotingPower ws = map VotingPower vs"
    "map PubKey ws = map PubKey vs" "length ws = length vs" using assms by metis+
qed

lemma bare_ptr:
  assumes "bare (Proposers s') = bare (Proposers s)" and "Proposer s' = Proposer s" and "ptr_ok s"
  shows "ptr_ok s'"
proof -
  have "Address ` set (Proposers s') = Address ` set (Proposers s)"
    using bare_fields(1) [OF assms(1)] by (metis list.set_map)
  then show ?thesis using assms(2,3) by (auto simp: ptr_ok_def split: option.splits proposer_ptr.splits)
qed

lemma sound_bare:
  assumes so: "sound s" and bare: "bare (Proposers s') = bare (Proposers s)"
    and prio: "\<And>v. v \<in> set (Proposers s') \<Longrightarrow> is_i64 (ProposerPriority v)"
    and cache: "cache_ok s'" and ptr: "ptr_ok s'"
  shows "sound s'"
proof -
  note f = bare_fields [OF bare] and wf = soundD(1) [OF so]
  have "VotingPower ` set (Proposers s') = VotingPower ` set (Proposers s)" using f(2) by (metis list.set_map)
  then have "0 < VotingPower v" if "v \<in> set (Proposers s')" for v
    using soundD(2) [OF so] that by (metis (no_types, lifting) imageE imageI)
  moreover have "powers_ok (Proposers s')"
    using wf_setD(2) [OF wf] f(2) calculation by (force simp: powers_ok_def)
  ultimately show ?thesis using wf_setD(1) [OF wf] f(1) prio cache ptr by (simp add: sound_def wf_set_def)
qed

lemma sound_with_prio:
  assumes so: "sound s" and "\<And>v. v \<in> set (Proposers s) \<Longrightarrow> is_i64 (f v)"
  shows "sound (s\<lparr>Proposers := map (with_prio f) (Proposers s)\<rparr>)"
proof (rule sound_bare [OF so])
  let ?s = "s\<lparr>Proposers := map (with_prio f) (Proposers s)\<rparr>"
  have "power_sum (Proposers ?s) = power_sum (Proposers s)" by (simp add: comp_def)
  then show "cache_ok ?s" using wf_setD(3) [OF soundD(1) [OF so]] by (simp add: cache_ok_def)
  show "ptr_ok ?s" using wf_setD(4) [OF soundD(1) [OF so]] by (intro bare_ptr [of ?s s]) simp_all
qed (use assms(2) in auto)

lemma sound_cached: "sound s \<Longrightarrow> sound (cached s)"
  by (simp add: sound_def)

lemma sound_total: "sound s \<Longrightarrow> TotalVotingPower s = Return (cached s, power_sum (Proposers s))"
  using TotalVotingPower_ok [of s] by (simp add: sound_def wf_set_def)

lemma sound_power:
  assumes "sound s" and "Proposers s \<noteq> []"
  shows "0 < power_sum (Proposers s)" "power_sum (Proposers s) \<le> MaxTotalVotingPower"
proof -
  note p = wf_setD(2) [OF soundD(1) [OF assms(1)]]
  show "power_sum (Proposers s) \<le> MaxTotalVotingPower" by (rule powers_okD(4) [OF p])
  obtain v where "v \<in> set (Proposers s)" using assms(2) by (metis hd_in_set)
  then show "0 < power_sum (Proposers s)" using soundD(2) [OF assms(1)] powers_okD(2) [OF p] by fastforce
qed

section \<open>Rescaling and centering\<close>

lemma wrap64_sub: "wrap64 (wrap64 a - b) = wrap64 (a - b)"
proof -
  have "(wrap64 a - b + 2 ^ 63) = (a + 2 ^ 63) mod 2 ^ 64 - b" by (simp add: wrap64_def)
  then have "wrap64 (wrap64 a - b) = ((a + 2 ^ 63) mod 2 ^ 64 - b) mod 2 ^ 64 - 2 ^ 63"
    unfolding wrap64_def [of "wrap64 a - b"] by (simp only:)
  also have "\<dots> = (a + 2 ^ 63 - b) mod 2 ^ 64 - 2 ^ 63" by (simp only: mod_diff_left_eq)
  also have "\<dots> = wrap64 (a - b)" by (simp add: wrap64_def algebra_simps)
  finally show ?thesis .
qed

text \<open>The ratio may wrap around, but it is never zero.\<close>

lemma ratio_nonzero:
  assumes "is_i64 diff" and "0 < d" and "d \<le> 2 ^ 61" and "d < diff"
  shows "i64_quo (i64_sub (i64_add diff d) 1) d \<noteq> 0"
proof -
  let ?x = "i64_sub (i64_add diff d) 1"
  have x: "?x = wrap64 (diff + d - 1)" by (simp add: i64_defs wrap64_sub)
  have one: "1 \<le> y div d" if "d \<le> y" for y
    using zdiv_mono1 [OF that assms(2)] assms(2) by simp
  show ?thesis
  proof (cases "is_i64 (diff + d - 1)")
    case True
    then show ?thesis
      using x one [of "diff + d - 1"] assms(2,4) by (simp add: i64_quo_nonneg)
  next
    case False
    then have big: "2 ^ 63 \<le> diff + d - 1" using assms(2,4) by (auto simp: is_i64_iff)
    have "(diff + d - 1 + 2 ^ 63) mod 2 ^ 64 = diff + d - 1 + 2 ^ 63 - 2 ^ 64"
      using big assms(1,3) by (intro int_mod_pos_eq [of _ _ 1]) (simp_all add: is_i64_iff)
    then have "wrap64 (diff + d - 1) = diff + d - 1 - 2 ^ 64" by (simp add: wrap64_def)
    then have neg: "?x < 0" "d \<le> - ?x" "is_i64 ?x" using x big assms(1,3) by (simp_all add: is_i64_iff)
    have "?x sdiv d = - (- ?x div d)" using neg(1) by (simp add: sdiv_pos_cases [OF assms(2)])
    moreover have "is_i64 (?x sdiv d)" by (rule is_i64_sdiv [OF neg(3) assms(2)])
    ultimately show ?thesis using one [OF neg(2)] by (simp add: i64_quo_def)
  qed
qed

lemma computeMaxMinPriorityDiff_i64:
  "Proposers s \<noteq> [] \<Longrightarrow> \<exists>diff. computeMaxMinPriorityDiff s = Return diff \<and> is_i64 diff"
  by (simp add: computeMaxMinPriorityDiff_def IsNilOrEmpty_def Let_def split: prod.split)

lemma RescalePriorities_sound:
  assumes so: "sound s" and ne: "Proposers s \<noteq> []" and d: "0 < d" "d \<le> 2 ^ 61"
  obtains f where "RescalePriorities d s = Return (s\<lparr>Proposers := map (with_prio f) (Proposers s)\<rparr>)"
    "\<And>v. v \<in> set (Proposers s) \<Longrightarrow> is_i64 (f v)"
proof -
  obtain diff where diff: "computeMaxMinPriorityDiff s = Return diff" "is_i64 diff"
    using computeMaxMinPriorityDiff_i64 [OF ne] by blast
  have id: "map (with_prio ProposerPriority) vs = vs" for vs :: "'a Proposer list" by (simp add: map_idI)
  show thesis
  proof (cases "d < diff")
    case True
    then show thesis
      using that [of "\<lambda>v. i64_quo (ProposerPriority v) (i64_quo (i64_sub (i64_add diff d) 1) d)"] ne d diff
        ratio_nonzero [OF diff(2) d True]
      by (simp add: RescalePriorities_def IsNilOrEmpty_def Let_def)
  next
    case False
    then show thesis
      using that [of ProposerPriority] ne d diff wf_setD(5) [OF soundD(1) [OF so]]
      by (simp add: RescalePriorities_def IsNilOrEmpty_def Let_def id)
  qed
qed

lemma shiftByAvgProposerPriority_sound:
  assumes so: "sound s" and ne: "Proposers s \<noteq> []"
  obtains f where "shiftByAvgProposerPriority s = Return (s\<lparr>Proposers := map (with_prio f) (Proposers s)\<rparr>)"
    "\<And>v. v \<in> set (Proposers s) \<Longrightarrow> is_i64 (f v)"
proof -
  let ?vs = "Proposers s"
  let ?A = "ProposerPriority ` set ?vs"
  note prios = wf_setD(5) [OF soundD(1) [OF so]]
  have "Min ?A \<in> ?A" "Max ?A \<in> ?A" using ne by auto
  then have avg: "is_i64 (avg_prio ?vs)"
    using avg_prio_bounds [OF ne] prios by (fastforce simp: is_i64_def)
  then have "is_i64 (safeSubClip (ProposerPriority v) (avg_prio ?vs))" if "v \<in> set ?vs" for v
    using prios [OF that] by (simp add: safeSubClip_eq)
  moreover have "shiftByAvgProposerPriority s = Return (s\<lparr>Proposers :=
      map (with_prio (\<lambda>v. safeSubClip (ProposerPriority v) (avg_prio ?vs))) ?vs\<rparr>)"
    using ne avg by (simp add: shiftByAvgProposerPriority_def computeAvgProposerPriority_def
        IsNilOrEmpty_def Let_def avg_prio_def)
  ultimately show thesis by (intro that) simp_all
qed

lemma normalise_sound:
  assumes so: "sound s" and ne: "Proposers s \<noteq> []"
  obtains s' where "obind (RescalePriorities (i64_mul PriorityWindowSizeFactor (power_sum (Proposers s))) s)
      shiftByAvgProposerPriority = Return s'"
    "sound s'" "bare (Proposers s') = bare (Proposers s)" "Proposer s' = Proposer s"
    "totalVotingPower s' = totalVotingPower s"
proof -
  let ?t = "power_sum (Proposers s)"
  have d: "i64_mul PriorityWindowSizeFactor ?t = 2 * ?t"
    using powers_ok_i64(3) [OF wf_setD(2) [OF soundD(1) [OF so]]]
    by (simp add: PriorityWindowSizeFactor_def i64_exact)
  have t: "0 < 2 * ?t" "2 * ?t \<le> 2 ^ 61"
    using sound_power [OF so ne] by (simp_all add: MaxTotalVotingPower_eq)
  obtain f where f: "RescalePriorities (2 * ?t) s = Return (s\<lparr>Proposers := map (with_prio f) (Proposers s)\<rparr>)"
    "\<And>v. v \<in> set (Proposers s) \<Longrightarrow> is_i64 (f v)" using RescalePriorities_sound [OF so ne t] by blast
  let ?s1 = "s\<lparr>Proposers := map (with_prio f) (Proposers s)\<rparr>"
  have s1: "sound ?s1" "Proposers ?s1 \<noteq> []" using sound_with_prio [OF so f(2)] ne by simp_all
  obtain g where g: "shiftByAvgProposerPriority ?s1 = Return (?s1\<lparr>Proposers := map (with_prio g) (Proposers ?s1)\<rparr>)"
    "\<And>v. v \<in> set (Proposers ?s1) \<Longrightarrow> is_i64 (g v)" using shiftByAvgProposerPriority_sound [OF s1] by blast
  let ?s2 = "?s1\<lparr>Proposers := map (with_prio g) (Proposers ?s1)\<rparr>"
  have "bare (Proposers ?s2) = bare (Proposers s)" by (simp add: bare_def comp_def)
  then show thesis
    using that [of ?s2] f(1) g(1) sound_with_prio [OF s1(1) g(2)] by (simp add: d del: map_map)
qed

section \<open>Rotation\<close>

lemma incrementProposerPriority_sound:
  assumes so: "sound s" and ne: "Proposers s \<noteq> []"
  shows "\<exists>s' a. incrementProposerPriority s = Return (s', InSet a) \<and> sound s' \<and>
    bare (Proposers s') = bare (Proposers s) \<and> a \<in> Address ` set (Proposers s)"
proof -
  let ?vs = "Proposers s"
  let ?ws = "map (with_prio (\<lambda>v. safeAddClip (ProposerPriority v) (VotingPower v))) ?vs"
  let ?s1 = "s\<lparr>Proposers := ?ws\<rparr>"
  note wf = soundD(1) [OF so]
  have "is_i64 (safeAddClip (ProposerPriority v) (VotingPower v))" if "v \<in> set ?vs" for v
    using wf_setD(5) [OF wf that] powers_ok_i64(1) [OF wf_setD(2) [OF wf] that] by (simp add: safeAddClip_eq)
  then have s1: "sound ?s1" by (rule sound_with_prio [OF so])
  obtain i where i: "getValWithMostPriority ?s1 = Return (Some i)" "i < length ?vs"
    using getValWithMostPriority_ok [of ?s1] ne wf_setD(1) [OF soundD(1) [OF s1]] by (auto simp: top_at_def)
  have total: "TotalVotingPower ?s1 = Return (cached ?s1, power_sum ?ws)" using sound_total [OF s1] by simp
  let ?p = "safeSubClip (ProposerPriority (?ws ! i)) (power_sum ?ws)"
  let ?s2 = "(cached ?s1)\<lparr>Proposers := ?ws[i := (?ws ! i)\<lparr>ProposerPriority := ?p\<rparr>]\<rparr>"
  have bare: "bare (Proposers ?s2) = bare ?vs"
  proof -
    have "Proposers ?s2 = ?ws[i := (?ws ! i)\<lparr>ProposerPriority := ?p\<rparr>]" by simp
    then show ?thesis using bare_update [of i ?ws ?p] i(2) by (simp only: bare_map length_map)
  qed
  note f = bare_fields [OF bare]
  have "?ws ! i \<in> set ?ws" using i(2) by (intro nth_mem) simp
  then have "is_i64 ?p"
    using wf_setD(5) [OF soundD(1) [OF s1], of "?ws ! i"] powers_ok_i64(2) [OF wf_setD(2) [OF soundD(1) [OF s1]]]
    by (simp add: safeSubClip_eq)
  moreover have "is_i64 (ProposerPriority v)" if "v \<in> set ?ws" for v
    using wf_setD(5) [OF soundD(1) [OF s1]] that by simp
  ultimately have prio: "is_i64 (ProposerPriority v)" if "v \<in> set (Proposers ?s2)" for v
    using that set_update_subset_insert by fastforce
  have "sound ?s2"
  proof (rule sound_bare [OF so bare prio])
    have "totalVotingPower ?s2 = power_sum ?ws" "power_sum ?ws = power_sum ?vs" by (simp, simp add: comp_def)
    then show "cache_ok ?s2" unfolding cache_ok_def f(2) by (simp only: simp_thms)
    show "ptr_ok ?s2" by (rule bare_ptr [OF bare _ wf_setD(4) [OF wf]]) simp
  qed
  moreover have "incrementProposerPriority s = Return (?s2, InSet (Address (?vs ! i)))"
    using i total by (simp add: incrementProposerPriority_def Let_def)
  ultimately show ?thesis using bare i(2) by (intro exI conjI) (assumption | simp)+
qed

lemma bare_nonempty: "bare ws = bare vs \<Longrightarrow> ws \<noteq> [] \<longleftrightarrow> vs \<noteq> []"
  by (metis bare_fields(4) length_0_conv)

lemma bare_addresses: "bare ws = bare vs \<Longrightarrow> Address ` set ws = Address ` set vs"
  by (metis bare_fields(1) list.set_map)

lemma increment_loop_sound:
  assumes "sound s" and "Proposers s \<noteq> []"
  shows "\<exists>s' p'. increment_loop k s p = Return (s', p') \<and> sound s' \<and> bare (Proposers s') = bare (Proposers s) \<and>
    (k \<noteq> 0 \<longrightarrow> (\<exists>a \<in> Address ` set (Proposers s). p' = Some (InSet a)))"
  using assms
proof (induction k arbitrary: s p)
  case (Suc k)
  from incrementProposerPriority_sound [OF Suc.prems] obtain s1 a where
    s1: "incrementProposerPriority s = Return (s1, InSet a)" "sound s1" "bare (Proposers s1) = bare (Proposers s)"
      "a \<in> Address ` set (Proposers s)" by blast
  from Suc.IH [OF s1(2), of "Some (InSet a)"] obtain s' p' where
    s': "increment_loop k s1 (Some (InSet a)) = Return (s', p')" "sound s'"
      "bare (Proposers s') = bare (Proposers s1)"
      "k \<noteq> 0 \<longrightarrow> (\<exists>a \<in> Address ` set (Proposers s1). p' = Some (InSet a))"
    using bare_nonempty [OF s1(3)] Suc.prems(2) by blast
  have "\<exists>a \<in> Address ` set (Proposers s). p' = Some (InSet a)"
    using s'(1,4) s1(4) bare_addresses [OF s1(3)] by (cases k) auto
  then show ?case using s1(1,3) s'(1-3) by (intro exI [of _ s'] exI [of _ p']) simp
qed simp

lemma IncrementProposerPriority_sound:
  assumes so: "sound s" and ne: "Proposers s \<noteq> []" and k: "0 < k"
  shows "\<exists>s'. IncrementProposerPriority k s = Return s' \<and> sound s' \<and> bare (Proposers s') = bare (Proposers s)"
proof -
  have "Proposers (cached s) \<noteq> []" using ne by simp
  then obtain s3 where
    "obind (RescalePriorities (i64_mul PriorityWindowSizeFactor (power_sum (Proposers (cached s)))) (cached s))
       shiftByAvgProposerPriority = Return s3"
    and s3': "sound s3" "bare (Proposers s3) = bare (Proposers (cached s))"
    by (rule normalise_sound [OF sound_cached [OF so]])
  then obtain s2 where norm: "RescalePriorities (i64_mul PriorityWindowSizeFactor (power_sum (Proposers s))) (cached s) = Return s2"
    "shiftByAvgProposerPriority s2 = Return s3" by auto
  have s3: "sound s3" "bare (Proposers s3) = bare (Proposers s)" using s3' by simp_all
  from increment_loop_sound [OF s3(1), of "nat k" None] obtain s4 a where
    s4: "increment_loop (nat k) s3 None = Return (s4, Some (InSet a))" "sound s4"
      "bare (Proposers s4) = bare (Proposers s3)" "a \<in> Address ` set (Proposers s3)"
    using bare_nonempty [OF s3(2)] ne k by auto
  let ?s = "s4\<lparr>Proposer := Some (InSet a)\<rparr>"
  have "sound ?s"
  proof (rule sound_bare [OF s4(2)])
    note wf = soundD(1) [OF s4(2)]
    show "is_i64 (ProposerPriority v)" if "v \<in> set (Proposers ?s)" for v using wf_setD(5) [OF wf] that by simp
    show "cache_ok ?s" using wf_setD(3) [OF wf] by (simp add: cache_ok_def)
    show "ptr_ok ?s" using s4(4) bare_addresses [OF s4(3)] by (simp add: ptr_ok_def)
  qed simp
  moreover have "IncrementProposerPriority k s = Return ?s"
    using ne k norm s4(1) sound_total [OF so] by (simp add: IncrementProposerPriority_def IsNilOrEmpty_def)
  ultimately show ?thesis using s3(2) s4(3) by simp
qed

section \<open>Changes\<close>

lemma updateWithChangeSet_sound:
  assumes so: "sound s"
  shows "\<exists>s' err. updateWithChangeSet changes allow s = Return (s', err) \<and> sound s' \<and>
    (if changes \<noteq> [] \<and> acceptable allow (Proposers s) changes
     then err = None \<and> mset (bare (Proposers s')) = mset (bare (changed changes s)) \<and>
       by_power.sorted_by (Proposers s')
     else s' \<in> {s, cached s} \<and> (changes \<noteq> [] \<longrightarrow> err \<noteq> None))"
proof (cases "changes \<noteq> [] \<and> acceptable allow (Proposers s) changes")
  case True
  then have ne: "changes \<noteq> []" and acc: "acceptable allow (Proposers s) changes" by simp_all
  let ?m = "merged_state changes s"
  have m: "Proposers ?m = changed changes s" by (simp add: merged_state_def)
  have "sound ?m" using merged_state_wf [OF so acc] changed_sound [OF so acc] by (simp add: sound_def m)
  moreover have "Proposers ?m \<noteq> []" using changed_nonempty [OF soundD(1) [OF so] acc] by (simp add: m)
  ultimately obtain s7 where s7: "obind (RescalePriorities (i64_mul PriorityWindowSizeFactor
        (power_sum (changed changes s))) ?m) shiftByAvgProposerPriority = Return s7"
      "sound s7" "bare (Proposers s7) = bare (changed changes s)"
    using normalise_sound [of ?m] unfolding m by blast
  let ?s = "s7\<lparr>Proposers := sort_Sort ValidatorsByVotingPower (Proposers s7)\<rparr>"
  have "updateWithChangeSet changes allow s = Return (?s, None)"
    by (simp only: updateWithChangeSet_run [OF so ne acc] s7(1) obind.simps)
  moreover have "mset (bare (Proposers ?s)) = mset (bare (Proposers s7))" by (simp add: bare_def)
  moreover have "sound ?s"
    using s7(2) by (auto simp: sound_def wf_set_def powers_ok_def cache_ok_def ptr_ok_def
        split: option.splits proposer_ptr.splits)
  moreover have "by_power.sorted_by (Proposers ?s)" by (simp add: by_power.sorted_sort_Sort)
  ultimately show ?thesis using True s7(3) by (intro exI [of _ ?s] exI [of _ None]) simp
next
  case False
  show ?thesis
  proof (cases "changes = []")
    case True
    then show ?thesis using so by (simp add: updateWithChangeSet_def)
  next
    case ne: False
    with False have rej: "\<not> acceptable allow (Proposers s) changes" by blast
    from updateWithChangeSet_rejects [OF soundD(1) [OF so] ne rej] show ?thesis
      using False so sound_cached [OF so] by auto
  qed
qed

end
