(* ===== verification/Con_SetHistory.thy ===== *)
theory Con_SetHistory
  imports Con_SetSafety
begin

text \<open>
  The contract of the validator set over its whole life: created by
  \<open>NewValidatorSet\<close>, rotated by \<open>IncrementProposerPriority\<close>, changed by
  \<open>UpdateWithChangeSet\<close>, copied by \<open>Copy\<close>. Stakes are specified as a map from
  addresses; \<open>set_history\<close> collects the sets a program can hold, of any powers.
\<close>

section \<open>Stakes as a map\<close>

definition stakes :: "'pk Proposer list \<Rightarrow> bytes \<rightharpoonup> 'pk option \<times> int" where
  "stakes vs = map_of (map (\<lambda>v. (Address v, PubKey v, VotingPower v)) vs)"

text \<open>A change with power 0 removes, any other sets key and power.\<close>

definition stakes_change :: "(bytes \<rightharpoonup> 'pk option \<times> int) \<Rightarrow> 'pk Proposer list \<Rightarrow>
    bytes \<rightharpoonup> 'pk option \<times> int" where
  "stakes_change m changes a =
     (case stakes changes a of
        None \<Rightarrow> m a
      | Some (pk, p) \<Rightarrow> if p = 0 then None else Some (pk, p))"

lemma stakes_Some:
  assumes "distinct (map Address vs)"
  shows "stakes vs a = Some (pk, p) \<longleftrightarrow>
    (\<exists>v \<in> set vs. Address v = a \<and> PubKey v = pk \<and> VotingPower v = p)"
  using assms by (auto simp: stakes_def comp_def)

lemma stakes_None: "stakes vs a = None \<longleftrightarrow> a \<notin> Address ` set vs"
  by (force simp: stakes_def map_of_eq_None_iff)

lemma stakes_cong:
  assumes "map Address vs = map Address ws" "map PubKey vs = map PubKey ws"
    "map VotingPower vs = map VotingPower ws"
  shows "stakes vs = stakes ws"
proof -
  have "map (\<lambda>v. (Address v, PubKey v, VotingPower v)) xs =
      zip (map Address xs) (zip (map PubKey xs) (map VotingPower xs))" for xs :: "'a Proposer list"
    by (induction xs) auto
  then show ?thesis by (simp add: stakes_def assms)
qed

lemma stakes_eqI:
  assumes "distinct (map Address vs)" and "distinct (map Address ws)"
    and "\<And>v. Address v = a \<Longrightarrow> v \<in> set vs \<longleftrightarrow> v \<in> set ws"
  shows "stakes vs a = stakes ws a"
proof -
  have "stakes vs a = Some y \<longleftrightarrow> stakes ws a = Some y" for y
    using assms(3) by (cases y) (simp only: stakes_Some [OF assms(1)] stakes_Some [OF assms(2)], blast)
  then show ?thesis by (metis option.exhaust)
qed

lemma stakes_mset:
  assumes "mset vs = mset ws" and "distinct (map Address vs)"
  shows "stakes vs = stakes ws"
proof
  fix a
  have set: "set vs = set ws" using assms(1) by (rule mset_eq_setD)
  have "distinct (map Address ws)"
    using assms mset_eq_imp_distinct_iff [of "map Address vs" "map Address ws"] by simp
  then show "stakes vs a = stakes ws a" using assms(2) set by (intro stakes_eqI) simp_all
qed

lemma stakes_set:
  assumes "distinct (map Address vs)" and "v \<in> set vs"
  shows "stakes vs (Address v) = Some (PubKey v, VotingPower v)"
  using stakes_Some [OF assms(1)] assms(2) by blast

lemma stakes_changed:
  assumes wf: "wf_set s" and ok: "changes_ok changes"
  shows "stakes (changed changes s) = stakes_change (stakes (Proposers s)) changes"
proof
  fix a
  let ?c = "changed changes s" and ?us = "updates_of changes"
  note sets = set_changed(1) [OF wf ok]
  have dc: "distinct (map Address ?c)" by (rule ascending_distinct [OF set_changed(2) [OF wf ok]])
  have dch: "distinct (map Address changes)" using ok by (simp add: changes_ok_def)
  have dus: "distinct (map Address ?us)" using ascending_split(1) [OF ok] by (rule ascending_distinct)
  have priced: "stakes (priced changes s) = stakes ?us"
    by (rule stakes_cong) (simp_all only: priced_fields)
  have dpr: "distinct (map Address (priced changes s))" using dus by (simp only: priced_fields)
  consider c where "c \<in> set changes" "Address c = a" "VotingPower c \<noteq> 0"
    | c where "c \<in> set changes" "Address c = a" "VotingPower c = 0"
    | "a \<notin> Address ` set changes" by blast
  then show "stakes ?c a = stakes_change (stakes (Proposers s)) changes a"
  proof cases
    case 1
    then have "stakes ?us a = Some (PubKey c, VotingPower c)"
      using stakes_set [OF dus, of c] by (simp add: set_updates_of)
    then obtain u where "u \<in> set (priced changes s)" "Address u = a" "PubKey u = PubKey c"
        "VotingPower u = VotingPower c"
      unfolding priced [symmetric] stakes_Some [OF dpr] by blast
    then have "stakes ?c a = Some (PubKey c, VotingPower c)"
      using stakes_set [OF dc, of u] sets by auto
    then show ?thesis using 1 stakes_set [OF dch, of c] by (simp add: stakes_change_def)
  next
    case 2
    have "Address u \<noteq> a" if "u \<in> set ?us" for u
      using that 2 distinct_Address_eq [OF dch, of u c] by (auto simp: set_updates_of)
    then have "a \<notin> Address ` set ?us" by blast
    then have "a \<notin> Address ` set (priced changes s)" by (simp only: priced_fields not_False_eq_True)
    moreover have "a \<in> Address ` set changes" using 2 by blast
    ultimately have "a \<notin> Address ` set ?c" unfolding sets by blast
    then have "stakes ?c a = None" by (simp add: stakes_None)
    then show ?thesis using 2 stakes_set [OF dch, of c] by (simp add: stakes_change_def)
  next
    case 3
    then have no: "stakes changes a = None" by (simp add: stakes_None)
    have "Address ` set ?us \<subseteq> Address ` set changes" by (auto simp: set_updates_of)
    then have "a \<notin> Address ` set (priced changes s)" using 3 by (simp only: priced_fields) blast
    then have "stakes ?c a = stakes (Proposers s) a"
    proof (intro stakes_eqI dc wf_setD(1) [OF wf])
      fix v :: "'a Proposer" assume "Address v = a"
      then have "v \<notin> set (priced changes s)" "Address v \<notin> Address ` set changes"
        using \<open>a \<notin> Address ` set (priced changes s)\<close> 3 by (metis imageI, simp)
      then show "v \<in> set ?c \<longleftrightarrow> v \<in> set (Proposers s)" unfolding sets by simp
    qed
    then show ?thesis using no by (simp add: stakes_change_def)
  qed
qed

section \<open>The invariant\<close>

lemma updated_members:
  assumes "wf_set s" and "acceptable allow (Proposers s) changes"
  shows "stakes (Proposers (updated changes s)) = stakes_change (stakes (Proposers s)) changes"
    and "map Address (normalise (changed changes s)) = map Address (changed changes s)"
proof -
  let ?n = "normalise (changed changes s)"
  note ok = acceptableD(1) [OF assms(2)]
  have "distinct (map Address ?n)"
    using ascending_distinct [OF set_changed(2) [OF assms(1) ok]] by simp
  then have "stakes (sort_Sort ValidatorsByVotingPower ?n) = stakes ?n"
    by (intro stakes_mset) simp_all
  moreover have "stakes ?n = stakes (changed changes s)" by (rule stakes_cong) simp_all
  ultimately show "stakes (Proposers (updated changes s)) =
      stakes_change (stakes (Proposers s)) changes"
    using stakes_changed [OF assms(1) ok] by (simp add: updated_def)
qed simp

lemma updated_steady:
  assumes st: "steady s" and acc: "acceptable allow (Proposers s) changes"
  shows "steady (updated changes s)" and "centered (Proposers (updated changes s))"
    and "Proposers (updated changes s) \<noteq> []"
    and "power_sum (Proposers (updated changes s)) = power_sum (changed changes s)"
    and "by_power.sorted_by (Proposers (updated changes s))"
proof -
  let ?c = "changed changes s" and ?n = "normalise (changed changes s)"
  let ?u = "updated changes s" and ?m = "merged_state changes s"
  note wf = steady_wf [OF st] and ok = acceptableD(1) [OF acc] and mwf = merged_state_wf [OF steady_sound [OF st] acc]
  have m: "Proposers ?m = ?c" "totalVotingPower ?m = power_sum ?c" by (simp_all add: merged_state_def)
  have u: "Proposers ?u = sort_Sort ValidatorsByVotingPower ?n"
    "totalVotingPower ?u = power_sum ?c" "Proposer ?u = Proposer ?m"
    by (simp_all add: updated_def merged_state_def)
  have ne: "?c \<noteq> []" by (rule changed_nonempty [OF wf acc])
  then show "Proposers ?u \<noteq> []"
    unfolding u sort_Sort_Nil_iff using normalise_fields(4) [of ?c] by (metis length_0_conv)
  have pos: "0 < power_sum ?c"
    using finish_update(2) [OF mwf] changed_members [OF st acc] ne unfolding m by blast
  have pw: "power_sum ?n = power_sum ?c" by simp
  show total: "power_sum (Proposers ?u) = power_sum ?c" unfolding u by simp
  have cok: "powers_ok ?c" by (rule changed_powers_ok [OF steady_sound [OF st] acc])
  have nok: "powers_ok ?n" using cok powers_ok_cong [OF normalise_fields(2)] by blast
  have small: "\<bar>ProposerPriority v\<bar> < prio_limit" "is_i64 (ProposerPriority v)" if "v \<in> set ?n" for v
    using normalise_below_limit [OF ne pos powers_okD(4) [OF cok] that] by auto
  have "VotingPower ` set ?n = VotingPower ` set ?c"
    using normalise_fields(2) by (metis list.set_map)
  then have "0 < VotingPower v" if "v \<in> set ?n" for v
    using changed_members [OF st acc] that by (metis (no_types, lifting) imageE imageI)
  moreover have "Address ` set ?n = Address ` set ?c" using normalise_fields(1) by (metis list.set_map)
  then have "ptr_ok ?u" using wf_setD(4) [OF mwf]
    by (auto simp: ptr_ok_def u m split: option.splits proposer_ptr.splits)
  moreover have "distinct (map Address ?n)" using wf_setD(1) [OF mwf] by (simp add: m)
  moreover have "powers_ok (Proposers ?u)"
    using nok by (simp add: powers_ok_def u)
  ultimately show "steady ?u"
    using small total by (simp add: steady_def wf_set_def cache_ok_def u)
  have "prio_sum (Proposers ?u) = prio_sum ?n" "length (Proposers ?u) = length ?n" unfolding u by simp_all
  then show "centered (Proposers ?u)" using normalise_centered [OF ne] by (simp add: centered_def)
  show "by_power.sorted_by (Proposers ?u)" unfolding u by (rule by_power.sorted_sort_Sort)
qed

lemma steady_cached: "steady s \<Longrightarrow> steady (cached s)"
  by (simp add: steady_def)

text \<open>Room for the rotation: the priorities of \<open>n\<close> validators of total power \<open>t\<close> fit.\<close>

definition roomy :: "'pk ProposerSet \<Rightarrow> bool" where
  "roomy s \<longleftrightarrow>
     (2 * int (length (Proposers s)) + 2) * (power_sum (Proposers s) + 1) < prio_limit"

lemma steady_regime:
  assumes st: "steady s" and ne: "Proposers s \<noteq> []" and room: "roomy s"
  shows "regime s"
proof -
  note wf = steady_wf [OF st]
  have pos: "0 < power_sum (Proposers s)"
    using finish_update(2) [OF wf ne] steadyD [OF st] by blast
  have "prio_spread (Proposers s) \<le> 2 * prio_limit - 2"
  proof (rule prio_spread_le [OF ne])
    fix v w assume "v \<in> set (Proposers s)" "w \<in> set (Proposers s)"
    then show "ProposerPriority v - ProposerPriority w \<le> 2 * prio_limit - 2"
      using steadyD(2) [OF st, of v] steadyD(2) [OF st, of w] by linarith
  qed
  then have "prio_spread (Proposers s) + 2 * power_sum (Proposers s) \<le> MaxInt64"
    using powers_okD(4) [OF wf_setD(2) [OF wf]]
    by (simp add: prio_limit_def MaxTotalVotingPower_eq MaxInt64_def)
  then show ?thesis
    using wf ne pos room by (simp add: regime_def roomy_def prio_limit_def MaxInt64_def)
qed

lemma rotation_steady:
  assumes st: "steady s" and ne: "Proposers s \<noteq> []" and room: "roomy s" and k: "0 < k"
  shows "\<exists>s'. IncrementProposerPriority k s = Return s' \<and> steady s' \<and> roomy s' \<and>
    Proposers s' \<noteq> [] \<and> stakes (Proposers s') = stakes (Proposers s) \<and>
    (\<exists>a. Proposer s' = Some (InSet a) \<and> a \<in> Address ` set (Proposers s'))"
proof -
  let ?vs = "Proposers s" and ?t = "power_sum (Proposers s)"
  note reg = steady_regime [OF st ne room]
  from IncrementProposerPriority_refines [OF reg k] obtain s' "is" where
    r: "IncrementProposerPriority k s = Return s'" "wrr_run (normalise ?vs) is (Proposers s')"
      "length is = nat k" "Proposer s' = Some (InSet (Address (?vs ! last is)))"
      "in_regime (2 * ?t) s'" by blast
  let ?ws = "Proposers s'"
  have f: "map Address ?ws = map Address ?vs" "map VotingPower ?ws = map VotingPower ?vs"
    "map PubKey ?ws = map PubKey ?vs" "length ?ws = length ?vs"
    using wrr_run_fields [OF r(2)] by (simp_all only: normalise_fields)
  have sets: "Address ` set ?ws = Address ` set ?vs" "VotingPower ` set ?ws = VotingPower ` set ?vs"
    using f by (metis list.set_map)+
  have "is \<noteq> []" using r(3) k by auto
  then have "last is < length ?vs" using wrr_run_positions [OF r(2)] by auto
  then have ptr: "Address (?vs ! last is) \<in> Address ` set ?ws" unfolding sets by simp
  have t: "0 < ?t" using reg by (simp add: regime_def)
  have prio: "\<bar>ProposerPriority v\<bar> < prio_limit" if v: "v \<in> set ?ws" for v
  proof -
    have "- (2 * ?t) \<le> ProposerPriority v"
      using r(5) v by (auto simp: in_regime_def above_def)
    moreover have "ProposerPriority v \<le> int (length ?vs) - 1 + (int (length ?vs) - 1) * (2 * ?t)"
      using above_upper [of "2 * ?t" ?ws v] r(5) v unfolding f(4) [symmetric]
      by (auto simp: in_regime_def centered_def)
    moreover have "(2 * int (length ?vs) + 2) * (?t + 1) < prio_limit" using room by (simp add: roomy_def)
    moreover have "0 \<le> int (length ?vs) * ?t" using t by simp
    ultimately show ?thesis using t by (simp add: algebra_simps abs_less_iff)
  qed
  have "0 < VotingPower v" if "v \<in> set ?ws" for v
    using sets(2) steadyD(1) [OF st] that by (metis (no_types, lifting) imageE imageI)
  moreover have "wf_set s'"
    using r(4) ptr by (intro in_regime_wf [OF r(5)]) (simp add: ptr_ok_def)
  ultimately have "steady s'" using prio by (simp add: steady_def)
  moreover have "roomy s'" using room f(2,4) by (simp add: roomy_def)
  moreover have "?ws \<noteq> []" using ne f(4) by (metis length_0_conv)
  moreover have "stakes ?ws = stakes ?vs" using f by (intro stakes_cong)
  ultimately show ?thesis using r(1,4) ptr by blast
qed

section \<open>Histories\<close>

lemma update_steady:
  assumes st: "steady s" and run: "UpdateWithChangeSet changes s = Return (s', err)"
  shows "steady s'"
proof -
  consider "changes = []" | "changes \<noteq> []" "acceptable True (Proposers s) changes"
    | "changes \<noteq> []" "\<not> acceptable True (Proposers s) changes" by blast
  then show ?thesis
  proof cases
    case 1
    then show ?thesis using assms by (simp add: UpdateWithChangeSet_def updateWithChangeSet_def)
  next
    case 2
    then have "s' = updated changes s"
      using updateWithChangeSet_accepts [OF st 2] run by (simp add: UpdateWithChangeSet_def)
    then show ?thesis using updated_steady(1) [OF st 2(2)] by simp
  next
    case 3
    then have "s' \<in> {s, cached s}"
      using updateWithChangeSet_rejects [OF steady_wf [OF st] 3] run by (auto simp: UpdateWithChangeSet_def)
    then show ?thesis using st steady_cached [OF st] by auto
  qed
qed

lemma GetProposer_ok:
  assumes wf: "wf_set s" and ne: "Proposers s \<noteq> []"
  shows "\<exists>s' v. GetProposer s = Return (s', Some v)"
proof (cases "Proposer s")
  case None
  from findProposer_ok [OF ne wf_setD(1) [OF wf]] obtain v where
    v: "findProposer s = Return (Some v)" "v \<in> set (Proposers s)" by blast
  have "deref (s\<lparr>Proposer := Some (InSet (Address v))\<rparr>) (InSet (Address v)) = Return v"
    using find_key_distinct [OF wf_setD(1) [OF wf] v(2)] by (simp add: deref_InSet)
  then show ?thesis using None ne v by (simp add: GetProposer_def)
next
  case (Some p)
  then show ?thesis using ne ptr_ok_deref [OF wf_setD(4) [OF wf] Some] by (auto simp: GetProposer_def)
qed

lemma steady_Copy:
  assumes "steady s"
  shows "steady (Copy s)" and "Proposers (Copy s) = Proposers s"
proof -
  show p: "Proposers (Copy s) = Proposers s" by (simp add: Copy_def)
  have "ptr_ok (Copy s)"
    by (auto simp: ptr_ok_def Copy_def split: option.splits proposer_ptr.splits)
  then show "steady (Copy s)" using assms by (simp add: steady_def wf_set_def cache_ok_def p) (simp add: Copy_def)
qed

text \<open>The set of a list without earlier members.\<close>

lemma changed_fresh:
  assumes acc: "acceptable False [] valz" and s: "Proposers s = []"
  shows "changed valz s = priced valz s" "length (changed valz s) = length valz"
    "power_sum (changed valz s) = power_sum valz"
    "\<exists>c. \<forall>v \<in> set (changed valz s). ProposerPriority v = c"
proof -
  have rem: "removals_of valz = []" using acceptableD(2) [OF acc] by blast
  show ch: "changed valz s = priced valz s"
    using s rem by (simp add: changed_def applied_def sort_Sort_def)
  have "length (updates_of valz) = length valz"
    using rem sum_length_filter_compl [of "\<lambda>v. VotingPower v = 0" "sort_Sort ValidatorsByAddress valz"]
    by (simp add: updates_of_def removals_of_def)
  then show "length (changed valz s) = length valz" using ch by (metis length_map priced_fields(1))
  show "power_sum (changed valz s) = power_sum valz"
    using ch rem sum_list_split [of VotingPower valz] by (simp add: priced_fields)
  show "\<exists>c. \<forall>v \<in> set (changed valz s). ProposerPriority v = c"
    unfolding ch priced_def using s
    by (intro exI) (auto simp: computeNewPriorities_def snd_GetByAddress)
qed

lemma normalise_const:
  assumes ne: "vs \<noteq> []" and const: "\<forall>v \<in> set vs. ProposerPriority v = c"
  shows "\<forall>v \<in> set (normalise vs). ProposerPriority v = 0"
proof -
  have "\<exists>c'. \<forall>v \<in> set (rescaled vs). ProposerPriority v = c'"
    using const by (intro exI) (auto simp: rescaled_def)
  then obtain c' where c': "\<forall>v \<in> set (rescaled vs). ProposerPriority v = c'" by blast
  have "prio_sum (rescaled vs) = int (length (rescaled vs)) * c'"
    using c' sum_list_triv [of c' "rescaled vs"] by (simp cong: map_cong)
  then have "avg_prio (rescaled vs) = c'"
    using ne rescaled_fields(4) [of vs] by (simp add: avg_prio_def)
  then show ?thesis using c' by (auto simp: normalise_def recentered_def)
qed

text \<open>A new set makes its first turn: the validator with the most power proposes.\<close>

lemma fresh_top:
  assumes sorted: "by_power.sorted_by vs" and dist: "distinct (map Address vs)" and ne: "vs \<noteq> []"
    and zero: "\<forall>v \<in> set vs. ProposerPriority v = 0"
  shows "top_at (credit vs) 0"
proof -
  have "outranks (credit vs ! 0) (credit vs ! j)" if j: "j < length vs" "j \<noteq> 0" for j
  proof -
    have "\<not> ValidatorsByVotingPower (vs ! j) (vs ! 0)"
      using sorted j by (auto simp: by_power.sorted_by_def sorted_wrt_iff_nth_less)
    moreover have "Address (vs ! 0) \<noteq> Address (vs ! j)"
      using dist j ne nth_eq_iff_index_eq [OF dist, of 0 j] by simp
    moreover have "vs ! 0 \<in> set vs" "vs ! j \<in> set vs"
      using j ne by (auto intro: nth_mem)
    then have "ProposerPriority (vs ! 0) = 0" "ProposerPriority (vs ! j) = 0" using zero by simp_all
    moreover have "0 < length vs" using ne by simp
    ultimately show ?thesis
      using j by (auto simp: outranks_def credit_def ValidatorsByVotingPower_def split: if_splits)
  qed
  then show ?thesis using ne by (simp add: top_at_def)
qed

abbreviation roomy_list :: "'pk Proposer list \<Rightarrow> bool" where
  "roomy_list vs \<equiv> (2 * int (length vs) + 2) * (power_sum vs + 1) < prio_limit"

lemma by_power_cong:
  assumes "map Address vs = map Address ws" and "map VotingPower vs = map VotingPower ws"
  shows "by_power.sorted_by vs \<longleftrightarrow> by_power.sorted_by ws"
proof -
  have "length vs = length ws" using assms(1) by (rule map_eq_imp_length_eq)
  moreover have "Address (vs ! i) = Address (ws ! i)" "VotingPower (vs ! i) = VotingPower (ws ! i)"
    if "i < length vs" for i
    using that assms calculation by (metis nth_map)+
  ultimately show ?thesis
    by (auto simp: by_power.sorted_by_def sorted_wrt_iff_nth_less ValidatorsByVotingPower_def)
qed

lemma NewValidatorSet_ok:
  assumes acc: "acceptable False [] valz" and ne: "valz \<noteq> []" and room: "roomy_list valz"
  shows "\<exists>s. NewValidatorSet valz = Return s \<and> steady s \<and> roomy s \<and> Proposers s \<noteq> [] \<and>
    stakes (Proposers s) = stakes_change Map.empty valz \<and>
    by_power.sorted_by (Proposers s) \<and> Proposer s = Some (InSet (Address (Proposers s ! 0)))"
proof -
  let ?e = "empty_ProposerSet :: 'a ProposerSet"
  let ?u = "updated valz ?e"
  have e: "Proposers ?e = []" by (simp add: empty_ProposerSet_def)
  have acc': "acceptable False (Proposers ?e) valz" using acc e by simp
  note fresh = changed_fresh [OF acc e] and up = updated_steady [OF steady_empty acc']
  have run: "updateWithChangeSet valz False ?e = Return (?u, None)"
    by (rule updateWithChangeSet_accepts [OF steady_empty ne acc'])
  have len: "length (Proposers ?u) = length valz" using fresh(2) by (simp add: updated_def)
  have room': "roomy ?u" using room up(4) fresh(3) len by (simp add: roomy_def)
  have reg: "regime ?u" by (rule steady_regime [OF up(1,3) room'])
  obtain s a where rot: "IncrementProposerPriority 1 ?u = Return s" "steady s" "roomy s"
      "Proposers s \<noteq> []" "stakes (Proposers s) = stakes (Proposers ?u)" "Proposer s = Some (InSet a)"
    using rotation_steady [OF up(1,3) room', of 1] by auto
  from IncrementProposerPriority_refines [OF reg, of 1] rot(1) obtain "is" where
    turn: "wrr_run (normalise (Proposers ?u)) is (Proposers s)" "length is = 1"
      "Proposer s = Some (InSet (Address (Proposers ?u ! last is)))" by auto
  have f: "map Address (Proposers s) = map Address (Proposers ?u)"
    "map VotingPower (Proposers s) = map VotingPower (Proposers ?u)"
    using wrr_run_fields [OF turn(1)] by simp_all
  let ?n = "normalise (Proposers ?u)"
  obtain i where i: "is = [i]" using turn(2) by (metis One_nat_def length_0_conv length_Suc_conv)
  have const: "\<forall>v \<in> set (Proposers ?u). ProposerPriority v = 0"
    using normalise_const [OF changed_nonempty [OF steady_wf [OF steady_empty] acc']] fresh(4)
    by (auto simp: updated_def)
  have "top_at (credit ?n) 0"
  proof (rule fresh_top)
    show "by_power.sorted_by ?n" using by_power_cong [of ?n "Proposers ?u"] up(5) by simp
    show "distinct (map Address ?n)" using wf_setD(1) [OF steady_wf [OF up(1)]] by simp
    show "?n \<noteq> []" using up(3) normalise_fields(4) [of "Proposers ?u"] by (metis length_0_conv)
    show "\<forall>v \<in> set ?n. ProposerPriority v = 0" by (rule normalise_const [OF up(3) const])
  qed
  moreover have "top_at (credit ?n) i" using turn(1) unfolding i by (auto elim: wrr_turnE)
  ultimately have "i = 0" by (metis top_at_unique)
  moreover have "Address (Proposers ?u ! 0) = Address (Proposers s ! 0)"
    using f(1) up(3) rot(4) by (metis length_greater_0_conv map_eq_imp_length_eq nth_map)
  moreover have "by_power.sorted_by (Proposers s)" using by_power_cong [OF f] up(5) by simp
  moreover have "stakes (Proposers s) = stakes_change Map.empty valz"
    using rot(5) updated_members(1) [OF steady_wf [OF steady_empty] acc'] e by (simp add: stakes_def)
  ultimately show ?thesis using run ne rot turn(3) i by (simp add: NewValidatorSet_def)
qed

lemma NewValidatorSet_acceptable:
  assumes "NewValidatorSet valz = Return s" and "valz \<noteq> []"
  shows "acceptable False [] valz"
proof (rule ccontr)
  assume "\<not> ?thesis"
  then have "\<not> acceptable False (Proposers empty_ProposerSet) valz"
    by (simp add: empty_ProposerSet_def)
  from updateWithChangeSet_rejects [OF steady_wf [OF steady_empty] assms(2) this] assms(1) show False
    by (auto simp: NewValidatorSet_def)
qed

text \<open>The set of any acceptable list, however large its powers.\<close>

lemma mset_bare_fields:
  assumes "mset (bare vs) = mset (bare ws)" and "distinct (map Address vs)"
  shows "stakes vs = stakes ws" "length vs = length ws" "power_sum vs = power_sum ws"
proof -
  have st: "stakes (bare vs) = stakes vs" for vs :: "'a Proposer list"
    by (rule stakes_cong) (simp_all add: bare_def comp_def)
  have "distinct (map Address (bare vs))" using assms(2) by (simp add: bare_def comp_def)
  then show "stakes vs = stakes ws" using stakes_mset [OF assms(1)] by (simp add: st)
  show "length vs = length ws" using assms(1) mset_eq_length by (fastforce simp: bare_def)
  have "mset (map VotingPower (bare vs)) = mset (map VotingPower (bare ws))" using assms(1) by simp
  then have "sum_mset (mset (map VotingPower (bare vs))) = sum_mset (mset (map VotingPower (bare ws)))" by simp
  then show "power_sum vs = power_sum ws" unfolding sum_mset_sum_list by (simp add: bare_def comp_def)
qed

lemma NewValidatorSet_returns:
  assumes acc: "acceptable False [] valz" and ne: "valz \<noteq> []"
  shows "\<exists>s. NewValidatorSet valz = Return s \<and> sound s \<and> Proposers s \<noteq> [] \<and>
    stakes (Proposers s) = stakes_change Map.empty valz \<and> by_power.sorted_by (Proposers s) \<and>
    length (Proposers s) = length valz \<and> power_sum (Proposers s) = power_sum valz"
proof -
  let ?e = "empty_ProposerSet :: 'a ProposerSet"
  have e: "Proposers ?e = []" by (simp add: empty_ProposerSet_def)
  have so: "sound ?e" by (rule steady_sound [OF steady_empty])
  have acc': "acceptable False (Proposers ?e) valz" using acc e by simp
  note fresh = changed_fresh [OF acc e]
  from updateWithChangeSet_sound [OF so, of valz False] ne acc' obtain u where
    u: "updateWithChangeSet valz False ?e = Return (u, None)" "sound u"
      "mset (bare (Proposers u)) = mset (bare (changed valz ?e))" "by_power.sorted_by (Proposers u)" by auto
  note f = mset_bare_fields [OF u(3) wf_setD(1) [OF soundD(1) [OF u(2)]]]
  have une: "Proposers u \<noteq> []" using f(2) fresh(2) ne by (metis length_0_conv)
  obtain s where s: "IncrementProposerPriority 1 u = Return s" "sound s" "bare (Proposers s) = bare (Proposers u)"
    using IncrementProposerPriority_sound [OF u(2) une, of 1] by auto
  note g = bare_fields [OF s(3)]
  have "stakes (Proposers s) = stakes (Proposers u)" using g by (intro stakes_cong)
  then have "stakes (Proposers s) = stakes_change Map.empty valz"
    using f(1) stakes_changed [OF soundD(1) [OF so] acceptableD(1) [OF acc']] e by (simp add: stakes_def)
  moreover have "by_power.sorted_by (Proposers s)" using by_power_cong [OF g(1,2)] u(4) by simp
  moreover have "power_sum (Proposers s) = power_sum valz" using g(2) f(3) fresh(3) by simp
  moreover have "Proposers s \<noteq> []" using bare_nonempty [OF s(3)] une by simp
  ultimately show ?thesis using s u(1) ne g(4) f(2) fresh(2) by (intro exI [of _ s]) (simp add: NewValidatorSet_def)
qed

text \<open>
  The sets a program can hold: created, rotated, changed, copied, and read, which fills their
  caches. \<open>P\<close> restricts them, for what holds of some sets only; \<open>set_history (\<lambda>_. True)\<close> are all.
\<close>

inductive set_history :: "('pk ProposerSet \<Rightarrow> bool) \<Rightarrow> 'pk ProposerSet \<Rightarrow> bool" for P where
  created: "NewValidatorSet valz = Return s \<Longrightarrow> P s \<Longrightarrow> set_history P s"
| rotated: "set_history P s \<Longrightarrow> IncrementProposerPriority k s = Return s' \<Longrightarrow> P s' \<Longrightarrow> set_history P s'"
| set_changed: "set_history P s \<Longrightarrow> UpdateWithChangeSet changes s = Return (s', err) \<Longrightarrow> P s' \<Longrightarrow> set_history P s'"
| copied: "set_history P s \<Longrightarrow> P (Copy s) \<Longrightarrow> set_history P (Copy s)"
| asked: "set_history P s \<Longrightarrow> GetProposer s = Return (s', v) \<Longrightarrow> P s' \<Longrightarrow> set_history P s'"
| summed: "set_history P s \<Longrightarrow> TotalVotingPower s = Return (s', t) \<Longrightarrow> P s' \<Longrightarrow> set_history P s'"

inductive_cases set_historyE: "set_history P s"

lemma set_history_restricted: "set_history P s \<Longrightarrow> P s"
  by (erule set_historyE) simp_all

lemma rotation_guards:
  "IncrementProposerPriority k s = Return s' \<Longrightarrow> Proposers s \<noteq> [] \<and> 0 < k"
  by (auto simp: IncrementProposerPriority_def IsNilOrEmpty_def split: if_splits)

lemma GetProposer_keeps:
  assumes wf: "wf_set s" and run: "GetProposer s = Return (s', p)"
  shows "wf_set s' \<and> Proposers s' = Proposers s"
proof (cases "Proposer s = None \<and> Proposers s \<noteq> []")
  case True
  from findProposer_ok [OF conjunct2 [OF True] wf_setD(1) [OF wf]] obtain v where
    "findProposer s = Return (Some v)" "v \<in> set (Proposers s)" by blast
  then show ?thesis
    using True run wf by (auto simp: GetProposer_def wf_set_def cache_ok_def ptr_ok_def)
next
  case False
  then show ?thesis using run wf by (auto simp: GetProposer_def split: if_splits option.splits)
qed

lemma sound_Copy: "sound s \<Longrightarrow> sound (Copy s)"
  by (auto simp: sound_def wf_set_def Copy_def cache_ok_def ptr_ok_def split: option.splits proposer_ptr.splits)

lemma set_history_sound:
  "set_history P s \<Longrightarrow> sound s"
proof (induction rule: set_history.induct)
  case (created valz s)
  show ?case
  proof (cases "valz = []")
    case True
    then show ?thesis
      using created steady_sound [OF steady_empty] by (simp add: NewValidatorSet_def updateWithChangeSet_def)
  next
    case False
    then show ?thesis
      using NewValidatorSet_returns [OF NewValidatorSet_acceptable [OF created.hyps(1) False] False] created by auto
  qed
next
  case (rotated s k s')
  then show ?case using IncrementProposerPriority_sound [of s k] rotation_guards by fastforce
next
  case (set_changed s changes s' err)
  then show ?case using updateWithChangeSet_sound [of s changes True] by (auto simp: UpdateWithChangeSet_def)
next
  case (asked s s' v)
  then show ?case using GetProposer_keeps [of s s' v] by (auto simp: sound_def)
next
  case (summed s s' t)
  then show ?case using sound_total [of s] sound_cached by auto
qed (rule sound_Copy)

text \<open>With room for the rotation all along, the priorities stay far from the ends of \<open>int64\<close>.\<close>

lemma roomy_history_steady:
  "set_history roomy s \<Longrightarrow> steady s"
proof (induction rule: set_history.induct)
  case (created valz s)
  show ?case
  proof (cases "valz = []")
    case True
    then show ?thesis
      using created steady_empty by (simp add: NewValidatorSet_def updateWithChangeSet_def)
  next
    case False
    note acc = NewValidatorSet_acceptable [OF created.hyps(1) False]
    have "roomy_list valz"
      using NewValidatorSet_returns [OF acc False] created by (auto simp: roomy_def)
    then show ?thesis using NewValidatorSet_ok [OF acc False] created by auto
  qed
next
  case (rotated s k s')
  then show ?case
    using rotation_steady [of s k] rotation_guards set_history_restricted by fastforce
next
  case (set_changed s changes s' err)
  then show ?case using update_steady by blast
next
  case (copied s)
  then show ?case using steady_Copy by blast
next
  case (asked s s' v)
  then show ?case using GetProposer_keeps [of s s' v] by (auto simp: steady_def)
next
  case (summed s s' t)
  then show ?case using sound_total [OF steady_sound, of s] steady_cached by auto
qed

section \<open>Properties\<close>

text \<open>C10: over its whole life a validator set stays well formed: the addresses differ, the powers
  are positive and sum to at most \<open>MaxTotalVotingPower\<close>, the cached total is right, and the
  proposer is one of the set. That holds for all powers, also when priorities are clipped or
  wrap around, and so reading the total, changing the set with any changes, rotating it any
  positive number of times and asking for its proposer (both unless it is empty) never panic. If
  moreover its size and total always leave room for the rotation, every priority stays below \<open>3 * 2 ^ 60\<close>.\<close>

theorem set_history_safe:
  assumes "set_history P s"
  shows "wf_set s \<and> (\<forall>v \<in> set (Proposers s). 0 < VotingPower v) \<and>
    (\<exists>s'. TotalVotingPower s = Return (s', power_sum (Proposers s))) \<and>
    (\<exists>s' err. UpdateWithChangeSet changes s = Return (s', err)) \<and>
    (Proposers s \<noteq> [] \<longrightarrow> (0 < k \<longrightarrow> (\<exists>s'. IncrementProposerPriority k s = Return s')) \<and>
       (\<exists>s' v. GetProposer s = Return (s', Some v))) \<and>
    (P = roomy \<longrightarrow> (\<forall>v \<in> set (Proposers s). \<bar>ProposerPriority v\<bar> < prio_limit))"
proof -
  have so: "sound s" by (rule set_history_sound [OF assms])
  have "\<exists>s' err. UpdateWithChangeSet changes s = Return (s', err)"
    using updateWithChangeSet_sound [OF so, of changes True] by (auto simp: UpdateWithChangeSet_def)
  moreover have "\<exists>s'. IncrementProposerPriority k s = Return s'" if "Proposers s \<noteq> []" "0 < k"
    using IncrementProposerPriority_sound [OF so that] by blast
  ultimately show ?thesis
    using soundD [OF so] sound_total [OF so] GetProposer_ok [of s] roomy_history_steady [of s] steadyD(2) assms
    by blast
qed

definition sample_valz :: "bytes Proposer list" where
  "sample_valz =
     [\<lparr>Address = [2], PubKey = Some [2], VotingPower = 3, ProposerPriority = 7\<rparr>,
      \<lparr>Address = [1], PubKey = Some [1], VotingPower = 1, ProposerPriority = 0\<rparr>]"

lemma sample_valz_ok: "acceptable False [] sample_valz" "sample_valz \<noteq> []" "roomy_list sample_valz"
  by (simp_all add: sample_valz_def acceptable_def changes_ok_def MaxTotalVotingPower_eq
      power_of_def prio_limit_def)

text \<open>A set of two validators with nearly all the power there can be, for which there is no room.\<close>

definition heavy_valz :: "bytes Proposer list" where
  "heavy_valz =
     [\<lparr>Address = [2], PubKey = Some [2], VotingPower = 2 ^ 59, ProposerPriority = 7\<rparr>,
      \<lparr>Address = [1], PubKey = Some [1], VotingPower = 2 ^ 59 - 1, ProposerPriority = 0\<rparr>]"

lemma heavy_valz_ok: "acceptable False [] heavy_valz" "heavy_valz \<noteq> []"
  by (simp_all add: heavy_valz_def acceptable_def changes_ok_def MaxTotalVotingPower_eq power_of_def)

theorem set_history_safe_witness:
  "\<exists>s s' s''. NewValidatorSet heavy_valz = Return s \<and> \<not> roomy s \<and> IncrementProposerPriority 5 s = Return s' \<and>
    UpdateWithChangeSet sample_valz s = Return s''"
proof -
  obtain s where s: "NewValidatorSet heavy_valz = Return s" "Proposers s \<noteq> []"
    "length (Proposers s) = 2" "power_sum (Proposers s) = 2 ^ 60 - 1"
    using NewValidatorSet_returns [OF heavy_valz_ok] by (auto simp: heavy_valz_def)
  have "set_history (\<lambda>_. True) s" using set_history.created [OF s(1)] by simp
  from set_history_safe [OF this, of sample_valz 5] s show ?thesis by (auto simp: roomy_def prio_limit_def)
qed

text \<open>C11: exactly the acceptable changes are applied. Then every address has the stake the
  changes give it or the one it had, the slice is sorted by power, the priorities are centered
  and the cached total is exact; otherwise the call returns an error and the set is
  unchanged, but for its cached total, which may have been computed.\<close>

theorem UpdateWithChangeSet_refines:
  assumes "steady s" and "changes \<noteq> []"
  shows "if acceptable True (Proposers s) changes
    then \<exists>s'. UpdateWithChangeSet changes s = Return (s', None) \<and>
      stakes (Proposers s') = stakes_change (stakes (Proposers s)) changes \<and> steady s' \<and>
      by_power.sorted_by (Proposers s') \<and> centered (Proposers s') \<and>
      totalVotingPower s' = power_sum (Proposers s')
    else \<exists>s' err. UpdateWithChangeSet changes s = Return (s', Some err) \<and> s' \<in> {s, cached s}"
proof (cases "acceptable True (Proposers s) changes")
  case True
  have "totalVotingPower (updated changes s) = power_sum (changed changes s)"
    by (simp add: updated_def merged_state_def)
  then show ?thesis
    using True updateWithChangeSet_accepts [OF assms True] updated_steady [OF assms(1) True]
      updated_members(1) [OF steady_wf [OF assms(1)] True]
    by (simp add: UpdateWithChangeSet_def)
next
  case False
  then show ?thesis
    using updateWithChangeSet_rejects [OF steady_wf [OF assms(1)] assms(2) False] by (simp add: UpdateWithChangeSet_def)
qed

definition sample_changes :: "bytes Proposer list" where
  "sample_changes =
     [\<lparr>Address = [3], PubKey = Some [3], VotingPower = 5, ProposerPriority = 0\<rparr>,
      \<lparr>Address = [1], PubKey = Some [1], VotingPower = 0, ProposerPriority = 0\<rparr>]"

lemma sample_set_steady: "steady sample_set"
  by (simp add: steady_def sample_set_def wf_set_def powers_ok_def cache_ok_def ptr_ok_def
      MaxTotalVotingPower_eq is_i64_iff prio_limit_def)

lemma sample_changes_ok: "changes_ok sample_changes" "sample_changes \<noteq> []"
  by (simp_all add: sample_changes_def changes_ok_def MaxTotalVotingPower_eq)

lemma sample_changes_acceptable: "acceptable True (Proposers sample_set) sample_changes"
  using sample_changes_ok
  by (simp add: acceptable_def) (simp add: sample_changes_def sample_set_def power_of_def MaxTotalVotingPower_eq)

theorem UpdateWithChangeSet_refines_witness:
  "\<exists>s'. UpdateWithChangeSet sample_changes sample_set = Return (s', None) \<and>
    stakes (Proposers s') [1] = None \<and> stakes (Proposers s') [2] = Some (Some [2], 3) \<and>
    stakes (Proposers s') [3] = Some (Some [3], 5) \<and> steady s'"
  using UpdateWithChangeSet_refines [OF sample_set_steady sample_changes_ok(2)]
    sample_changes_acceptable
  by (auto simp: stakes_change_def stakes_def sample_changes_def sample_set_def)

text \<open>C12: the order in which the changes are listed does not matter.\<close>

theorem UpdateWithChangeSet_order:
  assumes "mset changes = mset changes'" and "changes_ok changes"
  shows "UpdateWithChangeSet changes s = UpdateWithChangeSet changes' s"
proof -
  have dist: "distinct (map Address changes)" using assms(2) by (simp add: changes_ok_def)
  have "sort_Sort ValidatorsByAddress changes = sort_Sort ValidatorsByAddress changes'"
    using assms(1) distinct_Address_eq [OF dist]
    by (intro by_address.sort_Sort_perm) (auto simp: ValidatorsByAddress_def)
  moreover have "changes = [] \<longleftrightarrow> changes' = []"
    using assms(1) by (metis mset_zero_iff)
  ultimately show ?thesis
    by (simp add: UpdateWithChangeSet_def updateWithChangeSet_def processChanges_def)
qed

theorem UpdateWithChangeSet_order_witness:
  "UpdateWithChangeSet sample_changes sample_set = UpdateWithChangeSet (rev sample_changes) sample_set"
  using UpdateWithChangeSet_order [of sample_changes "rev sample_changes"] sample_changes_ok(1) by simp

text \<open>C13: \<open>NewValidatorSet\<close> on acceptable validators returns the set with their stakes,
  sorted by power, and the validator with the most power, the one with the lowest address
  among equals, is the first proposer.\<close>

theorem NewValidatorSet_spec:
  assumes "acceptable False [] valz" and "valz \<noteq> []" and "roomy_list valz"
  shows "\<exists>s. NewValidatorSet valz = Return s \<and> steady s \<and>
    stakes (Proposers s) = stakes valz \<and> by_power.sorted_by (Proposers s) \<and>
    Proposer s = Some (InSet (Address (Proposers s ! 0)))"
proof -
  have dist: "distinct (map Address valz)" using assms(1) by (simp add: acceptable_def changes_ok_def)
  have "stakes_change Map.empty valz a = stakes valz a" for a
  proof (cases "stakes valz a")
    case (Some y)
    then obtain v where v: "v \<in> set valz" "Address v = a" "y = (PubKey v, VotingPower v)"
      using stakes_Some [OF dist, of a "fst y" "snd y"] by auto
    then have "VotingPower v \<noteq> 0" using assms(1) by (auto simp: acceptable_def)
    then show ?thesis using Some v by (simp add: stakes_change_def)
  qed (simp add: stakes_change_def)
  then show ?thesis using NewValidatorSet_ok [OF assms] by (metis ext)
qed

theorem NewValidatorSet_spec_witness:
  "\<exists>s. NewValidatorSet sample_valz = Return s \<and> stakes (Proposers s) [2] = Some (Some [2], 3)"
  using NewValidatorSet_spec [OF sample_valz_ok] by (auto simp: stakes_def sample_valz_def)

end
