(* ===== verification/Go_Wire.thy ===== *)
theory Go_Wire
  imports Prelude
begin

text \<open>
  The contract of a pair \<open>ToProto\<close> / \<open>FromProto\<close>. Decoding an encoded valid value gives
  it back, and a decoded value is valid and encodes to the message it came from, up to what
  the decoder ignores (\<open>norm\<close>). The lemmas are proved once here; every message type of
  the program is an interpretation.
\<close>

text \<open>Decoding a repeated field stops at the first error.\<close>

fun decode_all :: "('p \<Rightarrow> 'e + 'a) \<Rightarrow> 'p list \<Rightarrow> 'e + 'a list" where
  "decode_all dec [] = Inr []"
| "decode_all dec (p # ps) =
     (case dec p of
        Inl err \<Rightarrow> Inl err
      | Inr x \<Rightarrow> (case decode_all dec ps of Inl err \<Rightarrow> Inl err | Inr xs \<Rightarrow> Inr (x # xs)))"

lemma decode_all_Inr:
  "decode_all dec ps = Inr xs \<longleftrightarrow> list_all2 (\<lambda>p x. dec p = Inr x) ps xs"
proof (induction ps arbitrary: xs)
  case (Cons p ps)
  show ?case
  proof (cases "decode_all dec ps")
    case (Inl e)
    then have "\<not> list_all2 (\<lambda>p x. dec p = Inr x) ps ys" for ys using Cons.IH [of ys] by simp
    then show ?thesis using Inl by (auto simp: list_all2_Cons1 split: sum.splits)
  next
    case (Inr ys)
    then have "list_all2 (\<lambda>p x. dec p = Inr x) ps zs \<longleftrightarrow> zs = ys" for zs using Cons.IH [of zs] by auto
    then show ?thesis using Inr by (auto simp: list_all2_Cons1 split: sum.splits)
  qed
qed auto

locale wire =
  fixes encode :: "'a \<Rightarrow> 'p"
    and decode :: "'p \<Rightarrow> 'e + 'a"
    and valid :: "'a \<Rightarrow> bool"
    and norm :: "'p \<Rightarrow> 'p"
  assumes decode_encode: "valid x \<Longrightarrow> decode (encode x) = Inr x"
    and decode_valid: "decode p = Inr x \<Longrightarrow> valid x"
    and encode_decode: "decode p = Inr x \<Longrightarrow> encode x = norm p"
begin

lemma encode_inj:
  assumes "valid x" and "valid y" and eq: "encode x = encode y"
  shows "x = y"
proof -
  have "Inr x = decode (encode x)" using assms(1) by (rule decode_encode [symmetric])
  also have "\<dots> = Inr y" unfolding eq using assms(2) by (rule decode_encode)
  finally show ?thesis by simp
qed

lemma decode_iff_valid: "decode (encode x) = Inr x \<longleftrightarrow> valid x"
  by (auto dest: decode_valid intro: decode_encode)

lemma decode_norm:
  assumes "decode p = Inr x"
  shows "decode (norm p) = Inr x"
  unfolding encode_decode [OF assms, symmetric] using decode_valid [OF assms] by (rule decode_encode)

lemma norm_norm:
  assumes "decode p = Inr x"
  shows "norm (norm p) = norm p"
  using encode_decode [OF decode_norm [OF assms]] unfolding encode_decode [OF assms] by (rule sym)

lemma decode_encode_all: "list_all valid xs \<Longrightarrow> decode_all decode (map encode xs) = Inr xs"
  by (induction xs) (auto simp: decode_encode)

lemma decode_all_valid: "decode_all decode ps = Inr xs \<Longrightarrow> list_all valid xs"
  unfolding decode_all_Inr by (induction rule: list_all2_induct) (auto dest: decode_valid)

lemma encode_decode_all: "decode_all decode ps = Inr xs \<Longrightarrow> map encode xs = map norm ps"
  unfolding decode_all_Inr by (induction rule: list_all2_induct) (auto dest: encode_decode)

end

end
