(* ===== verification/Con_SetProto.thy ===== *)
theory Con_SetProto
  imports Con_SetHistory Go_Wire
begin

text \<open>
  Validator sets on the wire and from a list (\<^verbatim>\<open>src/concord/proposer_set.go\<close>, \<open>ToProto\<close>,
  \<open>ValidatorSetFromProto\<close> and \<open>ValidatorSetFromExistingValidators\<close>). The message type of
  \<^verbatim>\<open>pb/validator.pb.go\<close> holds pointers, which may be nil. The key conversions \<open>toP\<close> and
  \<open>fromP\<close> are third-party code.
\<close>

record 'kp pb_ValidatorSet =
  vsValidators :: "'kp pb_Validator option list"
  vsProposer :: "'kp pb_Validator option"
  vsTotalVotingPower :: int

datatype set_proto_error =
    NilValidatorSet
  | BadValidator proposer_error
  | BadProposer proposer_error
  | InvalidSet set_error

definition Set_ToProto :: "('pk option \<Rightarrow> 'kp option) \<Rightarrow> 'pk ProposerSet option \<Rightarrow>
    (set_proto_error + 'kp pb_ValidatorSet) outcome" where
  "Set_ToProto toP vals =
     (if IsNilOrEmpty vals
      then Return (Inr \<lparr>vsValidators = [], vsProposer = None, vsTotalVotingPower = 0\<rparr>)
      else let s = the vals in
        case decode_all (\<lambda>v. Proposer_ToProto toP (Some v)) (Proposers s) of
          Inl err \<Rightarrow> Return (Inl (BadValidator err))
        | Inr valsProto \<Rightarrow>
            obind
              (case Proposer s of
                 None \<Rightarrow> Return None
               | Some p \<Rightarrow> obind (deref s p) (\<lambda>v. Return (Some v)))
              (\<lambda>p. Return
                (case Proposer_ToProto toP p of
                   Inl err \<Rightarrow> Inl (BadProposer err)
                 | Inr valProposer \<Rightarrow>
                     Inr \<lparr>vsValidators = map Some valsProto, vsProposer = Some valProposer,
                          vsTotalVotingPower = 0\<rparr>)))"

definition ValidatorSetFromProto :: "'pk tm \<Rightarrow> ('kp \<Rightarrow> 'pk option) \<Rightarrow> 'kp pb_ValidatorSet option \<Rightarrow>
    (set_proto_error + 'pk ProposerSet) outcome" where
  "ValidatorSetFromProto T fromP vp =
     (case vp of
        None \<Rightarrow> Return (Inl NilValidatorSet)
      | Some vp \<Rightarrow>
          (case decode_all (ValidatorFromProto fromP) (vsValidators vp) of
             Inl err \<Rightarrow> Return (Inl (BadValidator err))
           | Inr valsProto \<Rightarrow>
               (case ValidatorFromProto fromP (vsProposer vp) of
                  Inl err \<Rightarrow> Return (Inl (BadProposer err))
                | Inr p \<Rightarrow>
                    obind (TotalVotingPower
                        \<lparr>Proposers = valsProto, Proposer = Some (Detached p), totalVotingPower = 0\<rparr>)
                      (\<lambda>(vals, _).
                    obind (Set_ValidateBasic T (Some vals)) (\<lambda>err.
                      case err of
                        Some e \<Rightarrow> Return (Inl (InvalidSet e))
                      | None \<Rightarrow> Return (Inr vals))))))"

section \<open>From existing validators\<close>

datatype existing_error = EmptyValidators | CannotCreate proposer_error

fun validate_each :: "'pk tm \<Rightarrow> 'pk Proposer list \<Rightarrow> proposer_error option" where
  "validate_each T [] = None"
| "validate_each T (v # vs) =
     (case Proposer_ValidateBasic T (Some v) of Some err \<Rightarrow> Some err | None \<Rightarrow> validate_each T vs)"

definition ValidatorSetFromExistingValidators :: "'pk tm \<Rightarrow> 'pk Proposer list \<Rightarrow>
    (existing_error + 'pk ProposerSet) outcome" where
  "ValidatorSetFromExistingValidators T valz =
     (if length valz = 0 then Return (Inl EmptyValidators)
      else case validate_each T valz of
        Some err \<Rightarrow> Return (Inl (CannotCreate err))
      | None \<Rightarrow>
          let vals = \<lparr>Proposers = valz, Proposer = None, totalVotingPower = 0\<rparr>
          in obind (findPreviousProposer vals) (\<lambda>p.
             obind (updateTotalVotingPower
                 (vals\<lparr>Proposer := map_option (\<lambda>v. InSet (Address v)) p\<rparr>)) (\<lambda>vals.
               Return (Inr (vals\<lparr>Proposers := sort_Sort ValidatorsByVotingPower (Proposers vals)\<rparr>)))))"

section \<open>Facts\<close>

text \<open>What the key conversions promise: encoding and decoding are inverse.\<close>

definition key_codec :: "('pk option \<Rightarrow> 'kp option) \<Rightarrow> ('kp \<Rightarrow> 'pk option) \<Rightarrow> bool" where
  "key_codec toP fromP \<longleftrightarrow> (\<forall>k p. toP (Some k) = Some p \<longleftrightarrow> fromP p = Some k)"

lemma Proposer_ToProto_Inr:
  "Proposer_ToProto toP (Some v) = Inr p \<longleftrightarrow> toP (PubKey v) = Some (vaPubKey p) \<and>
     vaAddress p = Address v \<and> vaVotingPower p = VotingPower v \<and> vaProposerPriority p = ProposerPriority v"
  by (cases p) (auto simp: Proposer_ToProto_def split: option.splits)

lemma ValidatorFromProto_Inr:
  "ValidatorFromProto fromP (Some p) = Inr v \<longleftrightarrow> (\<exists>k. PubKey v = Some k \<and> fromP (vaPubKey p) = Some k) \<and>
     vaAddress p = Address v \<and> vaVotingPower p = VotingPower v \<and> vaProposerPriority p = ProposerPriority v"
  by (cases v) (auto simp: ValidatorFromProto_def split: option.splits)

lemma validator_codec:
  assumes "key_codec toP fromP" and "PubKey v \<noteq> None"
  shows "Proposer_ToProto toP (Some v) = Inr p \<longleftrightarrow> ValidatorFromProto fromP (Some p) = Inr v"
  using assms unfolding Proposer_ToProto_Inr ValidatorFromProto_Inr key_codec_def by auto

lemma ValidatorFromProto_key: "ValidatorFromProto fromP p = Inr v \<Longrightarrow> p \<noteq> None \<and> PubKey v \<noteq> None"
  by (auto simp: ValidatorFromProto_def split: option.splits)

lemma validators_codec:
  assumes codec: "key_codec toP fromP" and keys: "\<forall>v \<in> set vs. PubKey v \<noteq> None"
  shows "decode_all (\<lambda>v. Proposer_ToProto toP (Some v)) vs = Inr ps \<longleftrightarrow>
    decode_all (ValidatorFromProto fromP) (map Some ps) = Inr vs"
proof -
  have "list_all2 (\<lambda>v p. Proposer_ToProto toP (Some v) = Inr p) vs ps \<longleftrightarrow>
      list_all2 (\<lambda>v p. ValidatorFromProto fromP (Some p) = Inr v) vs ps"
    using keys validator_codec [OF codec] by (intro list.rel_cong_simp) (auto simp: simp_implies_def)
  then show ?thesis
    unfolding decode_all_Inr list_all2_map1 list.rel_flip [of "\<lambda>v p. ValidatorFromProto fromP (Some p) = Inr v", symmetric]
    by (simp add: conversep_iff [abs_def])
qed

lemma decoded_shape:
  assumes "decode_all (ValidatorFromProto fromP) ps = Inr vs"
  shows "(\<exists>qs. ps = map Some qs) \<and> (\<forall>v \<in> set vs. PubKey v \<noteq> None)"
  using assms unfolding decode_all_Inr
proof (induction rule: list_all2_induct)
  case (Cons p ps v vs)
  then obtain qs where "ps = map Some qs" by blast
  moreover obtain q where "p = Some q" "PubKey v \<noteq> None"
    using ValidatorFromProto_key [OF Cons.hyps(1)] by auto
  ultimately show ?case using Cons.IH by (auto intro!: exI [of _ "q # qs"])
qed simp

lemma validate_all_None:
  "validate_all T i vs = None \<longleftrightarrow> (\<forall>v \<in> set vs. Proposer_ValidateBasic T (Some v) = None)"
  by (induction vs arbitrary: i) (auto split: option.splits)

lemma validate_each_None:
  "validate_each T vs = None \<longleftrightarrow> (\<forall>v \<in> set vs. Proposer_ValidateBasic T (Some v) = None)"
  by (induction vs) (auto split: option.splits)

text \<open>A set with its proposer spelled out passes \<open>ValidateBasic\<close>.\<close>

definition valid_set :: "'pk tm \<Rightarrow> 'pk Proposer list \<Rightarrow> 'pk Proposer \<Rightarrow> bool" where
  "valid_set T vs p \<longleftrightarrow> vs \<noteq> [] \<and> (\<forall>v \<in> set (p # vs). Proposer_ValidateBasic T (Some v) = None)"

lemma Set_ValidateBasic_Detached:
  "Set_ValidateBasic T (Some \<lparr>Proposers = vs, Proposer = Some (Detached p), totalVotingPower = t\<rparr>) =
     Return None \<longleftrightarrow> valid_set T vs p"
  using validate_all_None [of T 0 vs]
  by (cases "validate_all T 0 vs")
    (auto simp: Set_ValidateBasic_def IsNilOrEmpty_def Let_def deref_def valid_set_def)

lemma valid_set_keys:
  "valid_set T vs p \<Longrightarrow> PubKey p \<noteq> None \<and> (\<forall>v \<in> set vs. PubKey v \<noteq> None \<and> 0 \<le> VotingPower v)"
  by (auto simp: valid_set_def Proposer_ValidateBasic_ok)

lemma FromProto_Inr:
  assumes pw: "powers_ok vs"
    and vs: "decode_all (ValidatorFromProto fromP) (vsValidators vp) = Inr vs"
    and p: "ValidatorFromProto fromP (vsProposer vp) = Inr p"
  shows "ValidatorSetFromProto T fromP (Some vp) = Return (Inr s) \<longleftrightarrow>
    valid_set T vs p \<and>
    s = \<lparr>Proposers = vs, Proposer = Some (Detached p), totalVotingPower = power_sum vs\<rparr>"
proof -
  let ?s = "\<lparr>Proposers = vs, Proposer = Some (Detached p), totalVotingPower = 0\<rparr>"
  have total: "TotalVotingPower ?s = Return (cached ?s, power_sum vs)"
    using TotalVotingPower_ok [of ?s] pw by (simp add: cache_ok_def)
  have ret: "Set_ValidateBasic T (Some (cached ?s)) \<noteq> Panic q" for q
    by (simp add: Set_ValidateBasic_def IsNilOrEmpty_def Let_def deref_def split: option.splits)
  then obtain e where e: "Set_ValidateBasic T (Some (cached ?s)) = Return e"
    by (cases "Set_ValidateBasic T (Some (cached ?s))") auto
  have "e = None \<longleftrightarrow> valid_set T vs p"
    using Set_ValidateBasic_Detached [of T vs p "power_sum vs"] e by simp
  then show ?thesis using total e by (auto simp: ValidatorSetFromProto_def vs p split: option.splits)
qed

section \<open>Properties\<close>

text \<open>C31: validator sets on the wire. A set whose validators and proposer are valid, and whose
  total power is in range, decodes from its encoding as the same validators with the same
  proposer and the exact total; a set that decodes is valid and encodes to the message it
  came from, but for the total, which the code does not trust.\<close>

theorem ValidatorSet_roundtrip:
  assumes "key_codec toP fromP"
  shows "(\<forall>s p v vp. Proposer s = Some p \<longrightarrow> deref s p = Return v \<longrightarrow> valid_set T (Proposers s) v \<longrightarrow>
      powers_ok (Proposers s) \<longrightarrow> Set_ToProto toP (Some s) = Return (Inr vp) \<longrightarrow>
      ValidatorSetFromProto T fromP (Some vp) = Return (Inr
        \<lparr>Proposers = Proposers s, Proposer = Some (Detached v),
         totalVotingPower = power_sum (Proposers s)\<rparr>)) \<and>
    (\<forall>vp s. ValidatorSetFromProto T fromP (Some vp) = Return (Inr s) \<longrightarrow> powers_ok (Proposers s) \<longrightarrow>
      Set_ValidateBasic T (Some s) = Return None \<and>
      Set_ToProto toP (Some s) = Return (Inr (vp\<lparr>vsTotalVotingPower := 0\<rparr>)))"
proof (intro conjI allI impI)
  fix s :: "'a ProposerSet" and p v vp
  assume s: "Proposer s = Some p" "deref s p = Return v" "valid_set T (Proposers s) v"
    "powers_ok (Proposers s)" "Set_ToProto toP (Some s) = Return (Inr vp)"
  then obtain ps q where enc: "decode_all (\<lambda>v. Proposer_ToProto toP (Some v)) (Proposers s) = Inr ps"
    "Proposer_ToProto toP (Some v) = Inr q"
    "vp = \<lparr>vsValidators = map Some ps, vsProposer = Some q, vsTotalVotingPower = 0\<rparr>"
    by (auto simp: Set_ToProto_def IsNilOrEmpty_def Let_def valid_set_def split: sum.splits)
  have dec: "decode_all (ValidatorFromProto fromP) (vsValidators vp) = Inr (Proposers s)"
    "ValidatorFromProto fromP (vsProposer vp) = Inr v"
    using enc validators_codec [OF assms, of "Proposers s" ps] validator_codec [OF assms, of v q]
      valid_set_keys [OF s(3)] by auto
  show "ValidatorSetFromProto T fromP (Some vp) = Return (Inr
      \<lparr>Proposers = Proposers s, Proposer = Some (Detached v), totalVotingPower = power_sum (Proposers s)\<rparr>)"
    unfolding FromProto_Inr [OF s(4) dec] using s(3) by simp
next
  fix vp and s :: "'a ProposerSet"
  assume run: "ValidatorSetFromProto T fromP (Some vp) = Return (Inr s)" and pw: "powers_ok (Proposers s)"
  obtain vs v where dec: "decode_all (ValidatorFromProto fromP) (vsValidators vp) = Inr vs"
    "ValidatorFromProto fromP (vsProposer vp) = Inr v"
    using run by (auto simp: ValidatorSetFromProto_def split: sum.splits)
  have "Proposers s = vs"
    using run by (auto simp: ValidatorSetFromProto_def dec TotalVotingPower_def updateTotalVotingPower_def
      split: option.splits outcome.splits)
  with FromProto_Inr [OF _ dec] pw run have
    ok: "valid_set T vs v" "s = \<lparr>Proposers = vs, Proposer = Some (Detached v), totalVotingPower = power_sum vs\<rparr>"
    by auto
  show "Set_ValidateBasic T (Some s) = Return None"
    unfolding ok(2) Set_ValidateBasic_Detached by (rule ok(1))
  obtain ps where ps: "vsValidators vp = map Some ps" using decoded_shape [OF dec(1)] by blast
  obtain q where q: "vsProposer vp = Some q" using ValidatorFromProto_key [OF dec(2)] by blast
  have "decode_all (\<lambda>v. Proposer_ToProto toP (Some v)) vs = Inr ps" "Proposer_ToProto toP (Some v) = Inr q"
    using dec ps q validators_codec [OF assms, of vs ps] validator_codec [OF assms, of v q]
      valid_set_keys [OF ok(1)] by auto
  moreover have "vs \<noteq> []" using ok(1) by (simp add: valid_set_def)
  ultimately show "Set_ToProto toP (Some s) = Return (Inr (vp\<lparr>vsTotalVotingPower := 0\<rparr>))"
    using ok(2) ps q by (cases vp) (simp add: Set_ToProto_def IsNilOrEmpty_def deref_def)
qed

lemma sample_codec: "key_codec (\<lambda>k :: bytes option. k) Some"
  by (auto simp: key_codec_def)

definition sample_wire :: "bytes pb_ValidatorSet" where
  "sample_wire =
     (let v = \<lparr>vaAddress = [2], vaPubKey = [2], vaVotingPower = 3, vaProposerPriority = 0\<rparr>;
          w = \<lparr>vaAddress = [1], vaPubKey = [1], vaVotingPower = 1, vaProposerPriority = 0\<rparr>
      in \<lparr>vsValidators = [Some v, Some w], vsProposer = Some v, vsTotalVotingPower = 0\<rparr>)"

theorem ValidatorSet_roundtrip_witness:
  "ValidatorSetFromProto sample_tm Some (Some sample_wire) = Return (Inr
     \<lparr>Proposers = Proposers sample_set, Proposer = Some (Detached (hd (Proposers sample_set))),
      totalVotingPower = 4\<rparr>)"
proof -
  let ?s = "sample_set\<lparr>Proposer := Some (InSet [2])\<rparr>" and ?v = "hd (Proposers sample_set)"
  have "Proposer ?s = Some (InSet [2])" by simp
  moreover have "deref ?s (InSet [2]) = Return ?v"
    by (simp add: deref_def GetByAddress_def sample_set_def)
  moreover have "valid_set sample_tm (Proposers ?s) ?v"
    by (simp add: valid_set_def Proposer_ValidateBasic_ok sample_set_def sample_tm_def)
  moreover have "powers_ok (Proposers ?s)"
    by (simp add: powers_ok_def sample_set_def MaxTotalVotingPower_eq)
  moreover have "Set_ToProto (\<lambda>k. k) (Some ?s) = Return (Inr sample_wire)" by code_simp
  ultimately have "ValidatorSetFromProto sample_tm Some (Some sample_wire) = Return (Inr
      \<lparr>Proposers = Proposers ?s, Proposer = Some (Detached ?v), totalVotingPower = power_sum (Proposers ?s)\<rparr>)"
    by (rule ValidatorSet_roundtrip [OF sample_codec, THEN conjunct1, rule_format])
  then show ?thesis by (simp add: sample_set_def)
qed

text \<open>A validator set from the wire whose powers, each of them fine, exceed the maximum in
  total is not refused with an error: decoding it panics.\<close>

theorem ValidatorSetFromProto_panics:
  assumes "decode_all (ValidatorFromProto fromP) (vsValidators vp) = Inr vs"
    and "ValidatorFromProto fromP (vsProposer vp) = Inr p"
    and "\<forall>v \<in> set vs. 0 \<le> VotingPower v \<and> VotingPower v < 2 ^ 63"
    and "MaxTotalVotingPower < power_sum vs"
  shows "ValidatorSetFromProto T fromP (Some vp) = Panic PanicTotalPower"
proof -
  have "sum_power vs 0 = Panic PanicTotalPower"
    using assms(3,4) sum_power_spec [of vs 0] by (force simp: is_i64_iff MaxTotalVotingPower_eq)
  then show ?thesis
    by (simp add: ValidatorSetFromProto_def assms(1,2) TotalVotingPower_def updateTotalVotingPower_def)
qed

theorem ValidatorSetFromProto_panics_witness:
  "\<exists>vp. vsTotalVotingPower vp = 0 \<and>
    ValidatorSetFromProto sample_tm Some (Some vp) = Panic PanicTotalPower"
proof -
  let ?v = "\<lparr>vaAddress = [2], vaPubKey = [2], vaVotingPower = 2 ^ 60, vaProposerPriority = 0\<rparr> :: bytes pb_Validator"
  let ?w = "\<lparr>Address = [2], PubKey = Some [2], VotingPower = 2 ^ 60, ProposerPriority = 0\<rparr> :: bytes Proposer"
  let ?vp = "\<lparr>vsValidators = [Some ?v], vsProposer = Some ?v, vsTotalVotingPower = 0\<rparr>"
  have "decode_all (ValidatorFromProto Some) (vsValidators ?vp) = Inr [?w]"
    "ValidatorFromProto Some (vsProposer ?vp) = Inr ?w"
    by (simp_all add: ValidatorFromProto_def)
  moreover have "\<forall>v \<in> set [?w]. 0 \<le> VotingPower v \<and> VotingPower v < 2 ^ 63"
    "MaxTotalVotingPower < power_sum [?w]" by (simp_all add: MaxTotalVotingPower_eq)
  ultimately have "ValidatorSetFromProto sample_tm Some (Some ?vp) = Panic PanicTotalPower"
    by (rule ValidatorSetFromProto_panics)
  then show ?thesis by (intro exI [of _ ?vp]) simp
qed

text \<open>Rebuilding a set from a list of validators. An invalid validator is an error;
  otherwise the set has exactly these validators sorted by power, their total, and as
  proposer the one with the lowest priority, which made the last turn; a list that is sorted
  already is kept as it is.\<close>

theorem FromExisting_spec:
  assumes "valz \<noteq> []" and "distinct (map Address valz)" and "powers_ok valz"
  shows "if \<exists>v \<in> set valz. Proposer_ValidateBasic T (Some v) \<noteq> None
    then \<exists>e. ValidatorSetFromExistingValidators T valz = Return (Inl (CannotCreate e))
    else \<exists>s v. ValidatorSetFromExistingValidators T valz = Return (Inr s) \<and>
      mset (Proposers s) = mset valz \<and> by_power.sorted_by (Proposers s) \<and>
      (by_power.sorted_by valz \<longrightarrow> Proposers s = valz) \<and>
      totalVotingPower s = power_sum valz \<and> v \<in> set valz \<and> Proposer s = Some (InSet (Address v)) \<and>
      (\<forall>w \<in> set valz. w \<noteq> v \<longrightarrow> outranks w v)"
proof (cases "validate_each T valz")
  case (Some e)
  then have "\<not> (\<forall>v \<in> set valz. Proposer_ValidateBasic T (Some v) = None)"
    using validate_each_None [of T valz] by simp
  then show ?thesis using Some assms(1) by (auto simp: ValidatorSetFromExistingValidators_def)
next
  case None
  let ?s = "\<lparr>Proposers = valz, Proposer = None, totalVotingPower = 0\<rparr>"
  obtain v where v: "findPreviousProposer ?s = Return (Some v)" "v \<in> set valz"
    "\<forall>w \<in> set valz. w \<noteq> v \<longrightarrow> outranks w v"
    using findPreviousProposer_ok [of ?s] assms(1,2) by auto
  have run: "ValidatorSetFromExistingValidators T valz = Return (Inr
      \<lparr>Proposers = sort_Sort ValidatorsByVotingPower valz, Proposer = Some (InSet (Address v)),
       totalVotingPower = power_sum valz\<rparr>)"
    using None v(1) assms(1,3)
      updateTotalVotingPower_ok [of "?s\<lparr>Proposer := Some (InSet (Address v))\<rparr>"]
    by (simp add: ValidatorSetFromExistingValidators_def Let_def)
  have "x = y" if "x \<in> set valz" "y \<in> set valz" "\<not> ValidatorsByVotingPower x y" "\<not> ValidatorsByVotingPower y x"
    for x y
  proof -
    have "Address x = Address y"
      using that(3,4) by (auto simp: ValidatorsByVotingPower_def split: if_splits)
    then show ?thesis using assms(2) that(1,2) by (auto simp: distinct_map dest: inj_onD)
  qed
  then have "by_power.sorted_by valz \<longrightarrow> sort_Sort ValidatorsByVotingPower valz = valz"
    using by_power.sort_Sort_sorted [of valz] by blast
  then show ?thesis
    using run None v(2,3) validate_each_None [of T valz] by_power.sorted_sort_Sort [of valz] by auto
qed

theorem FromExisting_spec_witness:
  "\<exists>s. ValidatorSetFromExistingValidators sample_tm sample_valz = Return (Inr s) \<and>
    Proposers s = sample_valz \<and> totalVotingPower s = 4 \<and> Proposer s = Some (InSet [1])"
proof -
  have facts: "sample_valz \<noteq> []" "distinct (map Address sample_valz)" "powers_ok sample_valz"
    "\<forall>v \<in> set sample_valz. Proposer_ValidateBasic sample_tm (Some v) = None"
    "by_power.sorted_by sample_valz" "power_sum sample_valz = 4"
    by (simp_all add: sample_valz_def powers_ok_def MaxTotalVotingPower_eq Proposer_ValidateBasic_ok
        sample_tm_def by_power.sorted_by_def ValidatorsByVotingPower_def)
  obtain s v where s: "ValidatorSetFromExistingValidators sample_tm sample_valz = Return (Inr s)"
    "Proposers s = sample_valz" "totalVotingPower s = 4" "Proposer s = Some (InSet (Address v))"
    "v \<in> set sample_valz" "\<forall>w \<in> set sample_valz. w \<noteq> v \<longrightarrow> outranks w v"
    using FromExisting_spec [OF facts(1-3), of sample_tm] facts(4-6) by auto
  have "Address v = [1]"
    using s(5,6) by (auto simp: sample_valz_def outranks_def)
  then show ?thesis using s(1-4) by (intro exI [of _ s]) simp
qed

end
