(* ===== verification/Con_DataHash.thy ===== *)
theory Con_DataHash
  imports Pb_Types Go_Wire
begin

text \<open>
  \<^verbatim>\<open>src/concord/data_hash.go\<close>, \<^verbatim>\<open>validation.go\<close> and \<^verbatim>\<open>canonical.go\<close>: the hash a vote is
  for, its validation and protobuf form, and the canonical messages that are signed.
\<close>

record DataHash =
  Hash :: bytes

definition DataHash_zero :: DataHash where
  "DataHash_zero = \<lparr>Hash = []\<rparr>"

definition DataHash_Equals :: "DataHash \<Rightarrow> DataHash \<Rightarrow> bool" where
  "DataHash_Equals dataHash other \<longleftrightarrow> Hash dataHash = Hash other"

definition Key :: "DataHash \<Rightarrow> bytes" where
  "Key dataHash = Hash dataHash"

lemma DataHash_Equals_iff [simp]: "DataHash_Equals a b \<longleftrightarrow> a = b"
  by (cases a; cases b) (simp add: DataHash_Equals_def)

lemma Key_inject [simp]: "Key a = Key b \<longleftrightarrow> a = b"
  by (cases a; cases b) (simp add: Key_def)

section \<open>Validation\<close>

definition ValidateTime :: "time \<Rightarrow> time \<Rightarrow> bool" where
  "ValidateTime now t \<longleftrightarrow>
     (let oneYear = 8766 * (3600 * 1000000000)
      in \<not> (t < now - oneYear \<or> t > now + oneYear))"

datatype hash_error = WrongHash | NilDataHash

text \<open>\<open>True\<close> when the error is nil.\<close>

definition ValidateHash :: "'pk tm \<Rightarrow> bytes \<Rightarrow> bool" where
  "ValidateHash T h \<longleftrightarrow> \<not> (length h > 0 \<and> length h \<noteq> tmhash_Size T)"

definition DataHash_ValidateBasic :: "'pk tm \<Rightarrow> DataHash \<Rightarrow> hash_error option" where
  "DataHash_ValidateBasic T dataHash =
     (if \<not> ValidateHash T (Hash dataHash) then Some WrongHash else None)"

definition IsZero :: "DataHash \<Rightarrow> bool" where
  "IsZero dataHash \<longleftrightarrow> length (Hash dataHash) = 0"

definition IsComplete :: "'pk tm \<Rightarrow> DataHash \<Rightarrow> bool" where
  "IsComplete T dataHash \<longleftrightarrow> length (Hash dataHash) = tmhash_Size T"

lemma IsZero_iff: "IsZero h \<longleftrightarrow> h = DataHash_zero"
  by (cases h) (simp add: IsZero_def DataHash_zero_def)

lemma DataHash_ValidateBasic_ok:
  "DataHash_ValidateBasic T h = None \<longleftrightarrow> IsZero h \<or> IsComplete T h"
  by (auto simp: DataHash_ValidateBasic_def ValidateHash_def IsZero_def IsComplete_def)

abbreviation hash_ok :: "'pk tm \<Rightarrow> DataHash \<Rightarrow> bool" where
  "hash_ok T h \<equiv> IsZero h \<or> IsComplete T h"

section \<open>Protobuf form\<close>

text \<open>The Go function returns the hash beside the error; all callers drop it then.\<close>

definition DataHashFromProto :: "'pk tm \<Rightarrow> pb_DataHash option \<Rightarrow> hash_error + DataHash" where
  "DataHashFromProto T bID =
     (case bID of
        None \<Rightarrow> Inl NilDataHash
      | Some b \<Rightarrow>
          let blockID = \<lparr>Hash = pbHash b\<rparr>
          in case DataHash_ValidateBasic T blockID of
               Some err \<Rightarrow> Inl err
             | None \<Rightarrow> Inr blockID)"

definition DataHash_ToProto :: "DataHash option \<Rightarrow> pb_DataHash" where
  "DataHash_ToProto dataHash =
     (case dataHash of None \<Rightarrow> pb_DataHash_zero | Some h \<Rightarrow> \<lparr>pbHash = Hash h\<rparr>)"

abbreviation hash_pb :: "DataHash \<Rightarrow> pb_DataHash" where
  "hash_pb h \<equiv> DataHash_ToProto (Some h)"

lemma DataHash_eta [simp]: "\<lparr>Hash = Hash h\<rparr> = h"
  by (cases h) simp

lemma DataHashFromProto_Some:
  "DataHashFromProto T (Some b) =
     (if hash_ok T \<lparr>Hash = pbHash b\<rparr> then Inr \<lparr>Hash = pbHash b\<rparr> else Inl WrongHash)"
  using DataHash_ValidateBasic_ok [of T "\<lparr>Hash = pbHash b\<rparr>"]
  by (simp add: DataHashFromProto_def DataHash_ValidateBasic_def Let_def split: if_splits)

interpretation hash_wire: wire hash_pb "\<lambda>b. DataHashFromProto T (Some b)" "hash_ok T" "\<lambda>b. b" for T
  by unfold_locales (auto simp: DataHashFromProto_Some DataHash_ToProto_def split: if_splits)

section \<open>Canonical messages\<close>

definition CanonicalizeDataHash ::
    "'pk tm \<Rightarrow> pb_DataHash option \<Rightarrow> CanonicalDataHash option outcome" where
  "CanonicalizeDataHash T bid =
     (case DataHashFromProto T bid of
        Inl err \<Rightarrow> Panic PanicDataHash
      | Inr rbid \<Rightarrow>
          if IsZero rbid then Return None
          else (case bid of
                  None \<Rightarrow> Panic NilDereference
                | Some b \<Rightarrow> Return (Some \<lparr>cHash = pbHash b\<rparr>)))"

definition CanonicalizeProposal :: "'pk tm \<Rightarrow> bytes \<Rightarrow> pb_Proposal \<Rightarrow> CanonicalProposal outcome" where
  "CanonicalizeProposal T chainID proposal =
     obind (CanonicalizeDataHash T (Some \<lparr>pbHash = ppData proposal\<rparr>)) (\<lambda>h.
       Return \<lparr>cpType = ProposalType, cpHeight = 0, cpRound = 0, cpPOLRound = 0, cpDataHash = h,
               cpTimestamp = ppTimestamp proposal, cpChainID = chainID\<rparr>)"

definition CanonicalizeVote :: "'pk tm \<Rightarrow> bytes \<Rightarrow> pb_Vote \<Rightarrow> CanonicalVote outcome" where
  "CanonicalizeVote T chainID vote =
     obind (CanonicalizeDataHash T (Some (pvDataHash vote))) (\<lambda>h.
       Return \<lparr>cvType = pvType vote, cvHeight = pvHeight vote, cvRound = pvRound vote,
               cvDataHash = h, cvTimestamp = pvTimestamp vote, cvChainID = chainID\<rparr>)"

definition canonical_hash :: "DataHash \<Rightarrow> CanonicalDataHash option" where
  "canonical_hash h = (if IsZero h then None else Some \<lparr>cHash = Hash h\<rparr>)"

lemma canonical_hash_inj: "canonical_hash h = canonical_hash h' \<longleftrightarrow> h = h'"
  by (cases h; cases h') (auto simp: canonical_hash_def IsZero_def)

lemma CanonicalizeDataHash_eq:
  "CanonicalizeDataHash T (Some b) =
     (if hash_ok T \<lparr>Hash = pbHash b\<rparr> then Return (canonical_hash \<lparr>Hash = pbHash b\<rparr>)
      else Panic PanicDataHash)"
  by (simp add: CanonicalizeDataHash_def DataHashFromProto_Some canonical_hash_def)

end
