(* ===== verification/Con_Vote.thy ===== *)
theory Con_Vote
  imports Con_DataHash
begin

text \<open>
  \<^verbatim>\<open>src/concord/vote.go\<close> and the \<open>CommitSig\<close> of \<^verbatim>\<open>src/concord/commit.go\<close>: votes, their
  validation, the bytes a validator signs, verification, and the form a vote takes in a
  commit. A \<open>DataHashFlag\<close> is a byte.
\<close>

record Vote =
  vType :: SignedMsgType
  vDataHash :: DataHash
  vTimestamp :: time
  vValidatorAddress :: bytes
  vValidatorIndex :: int
  vSignature :: bytes

datatype vote_error =
    ErrVoteUnexpectedStep
  | ErrVoteInvalidValidatorIndex
  | ErrVoteInvalidValidatorAddress
  | ErrVoteInvalidSignature
  | ErrVoteInvalidDataHash
  | ErrVoteNonDeterministicSignature
  | ErrVoteNil
  | ErrVoteInvalidType
  | ErrVoteConflictingVotes Vote Vote

definition NewConflictingVoteError :: "Vote \<Rightarrow> Vote \<Rightarrow> vote_error" where
  "NewConflictingVoteError vote1 vote2 = ErrVoteConflictingVotes vote1 vote2"

text \<open>The timestamp is the clock's.\<close>

definition NewVote :: "time \<Rightarrow> SignedMsgType \<Rightarrow> int \<Rightarrow> int \<Rightarrow> bytes \<Rightarrow> DataHash option \<Rightarrow> Vote outcome"
where
  "NewVote now t round index address dataHash =
     (case dataHash of
        None \<Rightarrow> Panic NilDereference
      | Some h \<Rightarrow> Return \<lparr>vType = t, vDataHash = h, vTimestamp = now, vValidatorAddress = address,
                    vValidatorIndex = index, vSignature = []\<rparr>)"

definition Vote_Copy :: "Vote \<Rightarrow> Vote" where
  "Vote_Copy vote = vote"

definition IsVoteTypeValid :: "SignedMsgType \<Rightarrow> bool" where
  "IsVoteTypeValid t \<longleftrightarrow> t = PrevoteType \<or> t = PrecommitType"

section \<open>Commit signatures\<close>

definition DataHashFlagAbsent :: "8 word" where "DataHashFlagAbsent = 1"
definition DataHashFlagCommit :: "8 word" where "DataHashFlagCommit = 2"
definition DataHashFlagNil :: "8 word" where "DataHashFlagNil = 3"

lemmas flag_defs = DataHashFlagAbsent_def DataHashFlagCommit_def DataHashFlagNil_def

record CommitSig =
  csDataHashFlag :: "8 word"
  csValidatorAddress :: bytes
  csTimestamp :: time
  csSignature :: bytes

definition NewCommitSigForBlock :: "bytes \<Rightarrow> bytes \<Rightarrow> time \<Rightarrow> CommitSig" where
  "NewCommitSigForBlock signature valAddr ts =
     \<lparr>csDataHashFlag = DataHashFlagCommit, csValidatorAddress = valAddr, csTimestamp = ts,
      csSignature = signature\<rparr>"

definition NewCommitSigAbsent :: CommitSig where
  "NewCommitSigAbsent =
     \<lparr>csDataHashFlag = DataHashFlagAbsent, csValidatorAddress = [], csTimestamp = 0,
      csSignature = []\<rparr>"

definition ForBlock :: "CommitSig \<Rightarrow> bool" where
  "ForBlock cs \<longleftrightarrow> csDataHashFlag cs = DataHashFlagCommit"

definition Absent :: "CommitSig \<Rightarrow> bool" where
  "Absent cs \<longleftrightarrow> csDataHashFlag cs = DataHashFlagAbsent"

definition CommitSig_DataHash :: "CommitSig \<Rightarrow> DataHash \<Rightarrow> DataHash outcome" where
  "CommitSig_DataHash cs commitDataHash =
     (if csDataHashFlag cs = DataHashFlagAbsent then Return DataHash_zero
      else if csDataHashFlag cs = DataHashFlagCommit then Return commitDataHash
      else if csDataHashFlag cs = DataHashFlagNil then Return DataHash_zero
      else Panic PanicUnknownFlag)"

datatype sig_error =
    UnknownDataHashFlag "8 word" | AddressPresent | TimePresent | SignaturePresent
  | WrongSigAddressSize nat | CommitSignatureMissing | CommitSignatureTooBig

definition CommitSig_ValidateBasic :: "'pk tm \<Rightarrow> CommitSig \<Rightarrow> sig_error option" where
  "CommitSig_ValidateBasic T cs =
     (if csDataHashFlag cs \<notin> {DataHashFlagAbsent, DataHashFlagCommit, DataHashFlagNil}
      then Some (UnknownDataHashFlag (csDataHashFlag cs))
      else if csDataHashFlag cs = DataHashFlagAbsent then
        (if length (csValidatorAddress cs) \<noteq> 0 then Some AddressPresent
         else if \<not> time_IsZero (csTimestamp cs) then Some TimePresent
         else if length (csSignature cs) \<noteq> 0 then Some SignaturePresent
         else None)
      else
        (if length (csValidatorAddress cs) \<noteq> crypto_AddressSize T
         then Some (WrongSigAddressSize (length (csValidatorAddress cs)))
         else if length (csSignature cs) = 0 then Some CommitSignatureMissing
         else if length (csSignature cs) > MaxSignatureSize T then Some CommitSignatureTooBig
         else None))"

definition CommitSig_ToProto :: "CommitSig \<Rightarrow> pb_CommitSig" where
  "CommitSig_ToProto cs =
     \<lparr>pcsDataHashFlag = uint (csDataHashFlag cs), pcsValidatorAddress = csValidatorAddress cs,
      pcsTimestamp = csTimestamp cs, pcsSignature = csSignature cs\<rparr>"

text \<open>The conversion of the \<open>int32\<close> enumeration to a byte keeps its low eight bits.\<close>

definition CommitSig_FromProto :: "'pk tm \<Rightarrow> pb_CommitSig \<Rightarrow> sig_error + CommitSig" where
  "CommitSig_FromProto T csp =
     (let cs = \<lparr>csDataHashFlag = word_of_int (pcsDataHashFlag csp),
                csValidatorAddress = pcsValidatorAddress csp, csTimestamp = pcsTimestamp csp,
                csSignature = pcsSignature csp\<rparr>
      in case CommitSig_ValidateBasic T cs of Some err \<Rightarrow> Inl err | None \<Rightarrow> Inr cs)"

text \<open>\<open>CommitSig\<close> of a vote that may be nil.\<close>

definition Vote_CommitSig :: "'pk tm \<Rightarrow> Vote option \<Rightarrow> CommitSig outcome" where
  "Vote_CommitSig T vote =
     (case vote of
        None \<Rightarrow> Return NewCommitSigAbsent
      | Some v \<Rightarrow>
          obind
            (if IsComplete T (vDataHash v) then Return DataHashFlagCommit
             else if IsZero (vDataHash v) then Return DataHashFlagNil
             else Panic PanicInvalidVote)
            (\<lambda>flag. Return
              \<lparr>csDataHashFlag = flag, csValidatorAddress = vValidatorAddress v,
               csTimestamp = vTimestamp v, csSignature = vSignature v\<rparr>))"

section \<open>Votes on the wire\<close>

datatype vote_basic_error =
    InvalidVoteType | WrongVoteDataHash hash_error | IncompleteDataHash | WrongVoteAddressSize nat
  | NegativeValidatorIndex | VoteSignatureMissing | VoteSignatureTooBig | NilVote

definition Vote_ValidateBasic :: "'pk tm \<Rightarrow> Vote \<Rightarrow> vote_basic_error option" where
  "Vote_ValidateBasic T vote =
     (if \<not> IsVoteTypeValid (vType vote) then Some InvalidVoteType
      else case DataHash_ValidateBasic T (vDataHash vote) of
        Some err \<Rightarrow> Some (WrongVoteDataHash err)
      | None \<Rightarrow>
          if \<not> IsZero (vDataHash vote) \<and> \<not> IsComplete T (vDataHash vote) then Some IncompleteDataHash
          else if length (vValidatorAddress vote) \<noteq> crypto_AddressSize T
          then Some (WrongVoteAddressSize (length (vValidatorAddress vote)))
          else if vValidatorIndex vote < 0 then Some NegativeValidatorIndex
          else if length (vSignature vote) = 0 then Some VoteSignatureMissing
          else if length (vSignature vote) > MaxSignatureSize T then Some VoteSignatureTooBig
          else None)"

text \<open>\<open>Height\<close> and \<open>Round\<close> of the message keep their zero values.\<close>

definition Vote_ToProto :: "Vote option \<Rightarrow> pb_Vote option" where
  "Vote_ToProto vote =
     (case vote of
        None \<Rightarrow> None
      | Some v \<Rightarrow> Some
          \<lparr>pvType = vType v, pvHeight = 0, pvRound = 0,
           pvDataHash = DataHash_ToProto (Some (vDataHash v)), pvTimestamp = vTimestamp v,
           pvValidatorAddress = vValidatorAddress v, pvValidatorIndex = vValidatorIndex v,
           pvSignature = vSignature v\<rparr>)"

definition VoteFromProto :: "'pk tm \<Rightarrow> pb_Vote option \<Rightarrow> vote_basic_error + Vote" where
  "VoteFromProto T pv =
     (case pv of
        None \<Rightarrow> Inl NilVote
      | Some p \<Rightarrow>
          (case DataHashFromProto T (Some (pvDataHash p)) of
             Inl err \<Rightarrow> Inl (WrongVoteDataHash err)
           | Inr h \<Rightarrow>
               let vote = \<lparr>vType = pvType p, vDataHash = h, vTimestamp = pvTimestamp p,
                           vValidatorAddress = pvValidatorAddress p,
                           vValidatorIndex = pvValidatorIndex p, vSignature = pvSignature p\<rparr>
               in case Vote_ValidateBasic T vote of Some err \<Rightarrow> Inl err | None \<Rightarrow> Inr vote))"

section \<open>Signing and verification\<close>

definition VoteSignBytes :: "'pk tm \<Rightarrow> bytes \<Rightarrow> pb_Vote \<Rightarrow> bytes outcome" where
  "VoteSignBytes T chainID vote =
     obind (CanonicalizeVote T chainID vote) (\<lambda>cv.
       case MarshalDelimitedVote T cv of None \<Rightarrow> Panic PanicMarshal | Some bz \<Rightarrow> Return bz)"

definition Vote_Verify :: "'pk tm \<Rightarrow> Vote \<Rightarrow> bytes \<Rightarrow> 'pk option \<Rightarrow> vote_error option outcome" where
  "Vote_Verify T vote chainID pubKey =
     (case pubKey of
        None \<Rightarrow> Panic NilDereference
      | Some k \<Rightarrow>
          if PubKey_Address T k \<noteq> vValidatorAddress vote
          then Return (Some ErrVoteInvalidValidatorAddress)
          else (case Vote_ToProto (Some vote) of
              None \<Rightarrow> Panic NilDereference
            | Some v \<Rightarrow> obind (VoteSignBytes T chainID v) (\<lambda>bz.
                if \<not> VerifySignature T k bz (vSignature vote) then Return (Some ErrVoteInvalidSignature)
                else Return None)))"

section \<open>Validity\<close>

abbreviation vote_pb :: "Vote \<Rightarrow> pb_Vote" where
  "vote_pb v \<equiv> the (Vote_ToProto (Some v))"

lemma Vote_ValidateBasic_ok:
  "Vote_ValidateBasic T v = None \<longleftrightarrow>
     IsVoteTypeValid (vType v) \<and> hash_ok T (vDataHash v) \<and>
     length (vValidatorAddress v) = crypto_AddressSize T \<and> 0 \<le> vValidatorIndex v \<and>
     vSignature v \<noteq> [] \<and> length (vSignature v) \<le> MaxSignatureSize T"
  by (auto simp: Vote_ValidateBasic_def DataHash_ValidateBasic_ok not_less
      dest: DataHash_ValidateBasic_ok [THEN iffD1] split: option.splits)
    (metis DataHash_ValidateBasic_ok option.distinct(1))+

lemma CommitSig_ValidateBasic_ok:
  "CommitSig_ValidateBasic T cs = None \<longleftrightarrow>
     cs = NewCommitSigAbsent \<or>
     csDataHashFlag cs \<in> {DataHashFlagCommit, DataHashFlagNil} \<and>
     length (csValidatorAddress cs) = crypto_AddressSize T \<and>
     csSignature cs \<noteq> [] \<and> length (csSignature cs) \<le> MaxSignatureSize T"
  by (cases cs) (auto simp: CommitSig_ValidateBasic_def NewCommitSigAbsent_def time_IsZero_def flag_defs)

lemma VoteFromProto_Inr:
  "VoteFromProto T (Some p) = Inr v \<longleftrightarrow>
     v = \<lparr>vType = pvType p, vDataHash = \<lparr>Hash = pbHash (pvDataHash p)\<rparr>, vTimestamp = pvTimestamp p,
          vValidatorAddress = pvValidatorAddress p, vValidatorIndex = pvValidatorIndex p,
          vSignature = pvSignature p\<rparr> \<and>
     Vote_ValidateBasic T v = None"
    (is "_ \<longleftrightarrow> v = ?w \<and> _")
proof -
  have "VoteFromProto T (Some p) =
      (if hash_ok T (vDataHash ?w) then (case Vote_ValidateBasic T ?w of Some err \<Rightarrow> Inl err | None \<Rightarrow> Inr ?w)
       else Inl (WrongVoteDataHash WrongHash))"
    by (simp add: VoteFromProto_def DataHashFromProto_Some Let_def)
  then show ?thesis using Vote_ValidateBasic_ok [of T ?w] by (auto split: option.splits)
qed

interpretation vote_wire: wire vote_pb "\<lambda>p. VoteFromProto T (Some p)"
  "\<lambda>v. Vote_ValidateBasic T v = None" "\<lambda>p. p\<lparr>pvHeight := 0, pvRound := 0\<rparr>" for T
  by unfold_locales (auto simp: VoteFromProto_Inr Vote_ToProto_def DataHash_ToProto_def)

lemma CommitSig_eta [simp]:
  "\<lparr>csDataHashFlag = csDataHashFlag cs, csValidatorAddress = csValidatorAddress cs,
    csTimestamp = csTimestamp cs, csSignature = csSignature cs\<rparr> = cs"
  by (cases cs) simp

interpretation sig_wire: wire CommitSig_ToProto "CommitSig_FromProto T"
  "\<lambda>cs. CommitSig_ValidateBasic T cs = None"
  "\<lambda>p. p\<lparr>pcsDataHashFlag := pcsDataHashFlag p mod 256\<rparr>" for T
  by unfold_locales
    (auto simp: CommitSig_FromProto_def CommitSig_ToProto_def Let_def uint_word_of_int
      split: option.splits)

section \<open>What is signed\<close>

definition canonical_vote :: "bytes \<Rightarrow> Vote \<Rightarrow> CanonicalVote" where
  "canonical_vote chainID v =
     \<lparr>cvType = vType v, cvHeight = 0, cvRound = 0, cvDataHash = canonical_hash (vDataHash v),
      cvTimestamp = vTimestamp v, cvChainID = chainID\<rparr>"

text \<open>The marshaller accepts the message (it refuses timestamps outside its range).\<close>

definition marshals :: "'pk tm \<Rightarrow> bytes \<Rightarrow> Vote \<Rightarrow> bool" where
  "marshals T chainID v \<longleftrightarrow> MarshalDelimitedVote T (canonical_vote chainID v) \<noteq> None"

definition sign_bytes :: "'pk tm \<Rightarrow> bytes \<Rightarrow> Vote \<Rightarrow> bytes" where
  "sign_bytes T chainID v = the (MarshalDelimitedVote T (canonical_vote chainID v))"

definition signed_by :: "'pk tm \<Rightarrow> bytes \<Rightarrow> 'pk \<Rightarrow> Vote \<Rightarrow> bool" where
  "signed_by T chainID k v \<longleftrightarrow> VerifySignature T k (sign_bytes T chainID v) (vSignature v)"

lemma CanonicalizeVote_pb:
  "CanonicalizeVote T chainID (vote_pb v) =
     (if hash_ok T (vDataHash v) then Return (canonical_vote chainID v) else Panic PanicDataHash)"
  by (simp add: CanonicalizeVote_def Vote_ToProto_def DataHash_ToProto_def CanonicalizeDataHash_eq
      canonical_vote_def)

lemma VoteSignBytes_pb:
  "VoteSignBytes T chainID (vote_pb v) =
     (if \<not> hash_ok T (vDataHash v) then Panic PanicDataHash
      else if marshals T chainID v then Return (sign_bytes T chainID v) else Panic PanicMarshal)"
  by (auto simp: VoteSignBytes_def CanonicalizeVote_pb marshals_def sign_bytes_def)

lemma Vote_Verify_eq:
  assumes "hash_ok T (vDataHash v)" and "marshals T chainID v"
  shows "Vote_Verify T v chainID (Some k) = Return
    (if PubKey_Address T k \<noteq> vValidatorAddress v then Some ErrVoteInvalidValidatorAddress
     else if signed_by T chainID k v then None else Some ErrVoteInvalidSignature)"
proof -
  obtain p where p: "Vote_ToProto (Some v) = Some p" by (simp add: Vote_ToProto_def)
  have "VoteSignBytes T chainID p = Return (sign_bytes T chainID v)"
    using VoteSignBytes_pb [of T chainID v] assms p by auto
  then show ?thesis using p by (simp add: Vote_Verify_def signed_by_def)
qed

lemma Vote_CommitSig_Some:
  assumes "hash_ok T (vDataHash v)"
  shows "Vote_CommitSig T (Some v) = Return
    \<lparr>csDataHashFlag = (if IsComplete T (vDataHash v) then DataHashFlagCommit else DataHashFlagNil),
     csValidatorAddress = vValidatorAddress v, csTimestamp = vTimestamp v,
     csSignature = vSignature v\<rparr>"
  using assms by (auto simp: Vote_CommitSig_def)

text \<open>A vote signed as \<open>sample_tm\<close> signs.\<close>

definition sample_vote :: "bytes \<Rightarrow> int \<Rightarrow> bytes \<Rightarrow> Vote" where
  "sample_vote key index h =
     (let v = \<lparr>vType = PrecommitType, vDataHash = \<lparr>Hash = h\<rparr>, vTimestamp = 5,
               vValidatorAddress = key, vValidatorIndex = index, vSignature = []\<rparr>
      in v\<lparr>vSignature := key @ sign_bytes sample_tm [9] v\<rparr>)"

lemmas sample_simps = sample_tm_def spell_def hash_code_def sign_bytes_def marshals_def signed_by_def
  canonical_vote_def canonical_hash_def IsZero_def IsComplete_def msg_type_defs DataHash_zero_def

section \<open>Properties\<close>

text \<open>C14: the wire format of votes: a vote decodes from its encoding exactly when it passes
  \<open>ValidateBasic\<close>, and a decoded vote encodes to the message it came from, except for the
  height and the round, which the program drops.\<close>

theorem Vote_roundtrip:
  "(VoteFromProto T (Vote_ToProto (Some v)) = Inr v \<longleftrightarrow> Vote_ValidateBasic T v = None) \<and>
   (\<forall>p. VoteFromProto T (Some p) = Inr v \<longrightarrow>
      Vote_ValidateBasic T v = None \<and> Vote_ToProto (Some v) = Some (p\<lparr>pvHeight := 0, pvRound := 0\<rparr>))"
proof -
  obtain p where p: "Vote_ToProto (Some v) = Some p" by (simp add: Vote_ToProto_def)
  show ?thesis
    using vote_wire.decode_iff_valid [of T v] vote_wire.decode_valid [of T _ v]
      vote_wire.encode_decode [of T _ v] unfolding p option.sel by simp
qed

theorem Vote_roundtrip_witness:
  "VoteFromProto sample_tm (Vote_ToProto (Some (sample_vote [2] 0 [7]))) = Inr (sample_vote [2] 0 [7]) \<and>
   Vote_ToProto (Some (sample_vote [2] 0 [7])) =
     Some ((vote_pb (sample_vote [2] 0 [7]))\<lparr>pvHeight := 0, pvRound := 0\<rparr>)"
proof -
  let ?v = "sample_vote [2] 0 [7]"
  have valid: "Vote_ValidateBasic sample_tm ?v = None"
    by (simp add: Vote_ValidateBasic_ok sample_vote_def sample_simps IsVoteTypeValid_def
        MaxSignatureSize_def Let_def)
  have pb: "Vote_ToProto (Some ?v) = Some (vote_pb ?v)" by (simp add: Vote_ToProto_def)
  have dec: "VoteFromProto sample_tm (Vote_ToProto (Some ?v)) = Inr ?v"
    using Vote_roundtrip [of sample_tm ?v] valid by blast
  then have "VoteFromProto sample_tm (Some (vote_pb ?v)) = Inr ?v" using pb by metis
  then show ?thesis using Vote_roundtrip [of sample_tm ?v] dec by blast
qed

text \<open>C15: what a signature binds. If the marshaller is injective, two well-formed votes have
  the same sign bytes only if they agree on type, hash and time and are for the same chain;
  the sign bytes say nothing of the round.\<close>

theorem VoteSignBytes_binding:
  assumes "marshal_injective (MarshalDelimitedVote T)"
    and "VoteSignBytes T chain1 (vote_pb v1) = Return bz"
    and "VoteSignBytes T chain2 (vote_pb v2) = Return bz"
  shows "vType v1 = vType v2 \<and> vDataHash v1 = vDataHash v2 \<and> vTimestamp v1 = vTimestamp v2 \<and>
    chain1 = chain2"
proof -
  have "marshals T chain1 v1" "marshals T chain2 v2" "sign_bytes T chain1 v1 = sign_bytes T chain2 v2"
    using assms(2,3) by (simp_all add: VoteSignBytes_pb split: if_splits)
  then have "canonical_vote chain1 v1 = canonical_vote chain2 v2"
    using assms(1) by (auto simp: marshal_injective_def marshals_def sign_bytes_def)
  then show ?thesis by (auto simp: canonical_vote_def canonical_hash_inj)
qed

theorem VoteSignBytes_binding_witness:
  "VoteSignBytes sample_tm [9] (vote_pb (sample_vote [2] 0 [7])) = Return [2, 5, 1, 1, 7, 9] \<and>
   vDataHash (sample_vote [2] 0 [7]) = vDataHash (sample_vote [1] 1 [7])"
proof -
  have b: "VoteSignBytes sample_tm [9] (vote_pb (sample_vote key i [7])) = Return [2, 5, 1, 1, 7, 9]"
    for key i
    by (simp add: VoteSignBytes_pb sample_vote_def sample_simps Let_def)
  show ?thesis
    using b VoteSignBytes_binding [OF sample_tm_injective(1) b b, of "[2]" 0 "[1]" 1] by simp
qed

end
