(* ===== verification/Con_Commit.thy ===== *)
theory Con_Commit
  imports Con_Vote
begin

text \<open>
  \<open>Commit\<close> of \<^verbatim>\<open>src/concord/commit.go\<close>: the votes it stands for, its validation, hash, bit
  array and protobuf form. A \<open>BitArray\<close> is third-party code: the model records the calls
  the program makes on it.
\<close>

datatype BitArray = NewBitArray int | SetIndex BitArray int bool

record Commit =
  cmDataHash :: DataHash
  cmSignatures :: "CommitSig list"
  cmhash :: "bytes option"
  cmbitArray :: "BitArray option"

definition NewCommit :: "DataHash \<Rightarrow> CommitSig list \<Rightarrow> Commit" where
  "NewCommit dataHash commitSigs =
     \<lparr>cmDataHash = dataHash, cmSignatures = commitSigs, cmhash = None, cmbitArray = None\<rparr>"

section \<open>The votes of a commit\<close>

definition Commit_GetVote :: "Commit \<Rightarrow> int \<Rightarrow> Vote outcome" where
  "Commit_GetVote commit valIdx =
     obind (slice_get (cmSignatures commit) valIdx) (\<lambda>commitSig.
     obind (CommitSig_DataHash commitSig (cmDataHash commit)) (\<lambda>h.
       Return \<lparr>vType = PrecommitType, vDataHash = h, vTimestamp = csTimestamp commitSig,
               vValidatorAddress = csValidatorAddress commitSig, vValidatorIndex = valIdx,
               vSignature = csSignature commitSig\<rparr>))"

definition Commit_GetByIndex :: "Commit \<Rightarrow> int \<Rightarrow> Vote outcome" where
  "Commit_GetByIndex commit valIdx = Commit_GetVote commit valIdx"

definition Commit_VoteSignBytes :: "'pk tm \<Rightarrow> Commit \<Rightarrow> bytes \<Rightarrow> int \<Rightarrow> bytes outcome" where
  "Commit_VoteSignBytes T commit chainID valIdx =
     obind (Commit_GetVote commit valIdx) (\<lambda>v.
       case Vote_ToProto (Some v) of
         None \<Rightarrow> Panic NilDereference
       | Some p \<Rightarrow> VoteSignBytes T chainID p)"

definition Commit_Type :: "8 word" where
  "Commit_Type = word_of_int PrecommitType"

definition Commit_Size :: "Commit option \<Rightarrow> nat" where
  "Commit_Size commit = (case commit of None \<Rightarrow> 0 | Some c \<Rightarrow> length (cmSignatures c))"

definition Commit_IsCommit :: "Commit \<Rightarrow> bool" where
  "Commit_IsCommit commit \<longleftrightarrow> length (cmSignatures commit) \<noteq> 0"

definition MaxCommitBytes :: "int \<Rightarrow> int" where
  "MaxCommitBytes valCount = i64_add 94 (i64_mul (i64_add 109 2) valCount)"

text \<open>The bit array and the hash are computed once and kept in the commit.\<close>

fun set_bits :: "nat \<Rightarrow> CommitSig list \<Rightarrow> BitArray \<Rightarrow> BitArray" where
  "set_bits i [] b = b"
| "set_bits i (cs # css) b = set_bits (Suc i) css (SetIndex b (int i) (\<not> Absent cs))"

definition Commit_BitArray :: "Commit \<Rightarrow> Commit \<times> BitArray" where
  "Commit_BitArray commit =
     (case cmbitArray commit of
        Some b \<Rightarrow> (commit, b)
      | None \<Rightarrow>
          let b = set_bits 0 (cmSignatures commit) (NewBitArray (int (length (cmSignatures commit))))
          in (commit\<lparr>cmbitArray := Some b\<rparr>, b))"

definition Commit_Hash :: "(pb_CommitSig \<Rightarrow> bytes option) \<Rightarrow> (bytes list \<Rightarrow> bytes) \<Rightarrow>
    Commit \<Rightarrow> (Commit \<times> bytes) outcome" where
  "Commit_Hash MarshalCommitSig HashFromByteSlices commit =
     (case cmhash commit of
        Some h \<Rightarrow> Return (commit, h)
      | None \<Rightarrow>
          obind
            (omap (\<lambda>cs. case MarshalCommitSig (CommitSig_ToProto cs) of
                          None \<Rightarrow> Panic PanicMarshal | Some bz \<Rightarrow> Return bz)
              (cmSignatures commit))
            (\<lambda>bs. Return (commit\<lparr>cmhash := Some (HashFromByteSlices bs)\<rparr>, HashFromByteSlices bs)))"

section \<open>Validation and protobuf form\<close>

datatype commit_error =
    NilCommit | CommitForNilBlock | NoSignatures | WrongCommitSig nat sig_error
  | BadCommitDataHash hash_error | BadCommitSig sig_error

fun validate_sigs :: "'pk tm \<Rightarrow> nat \<Rightarrow> CommitSig list \<Rightarrow> commit_error option" where
  "validate_sigs T i [] = None"
| "validate_sigs T i (cs # css) =
     (case CommitSig_ValidateBasic T cs of
        Some err \<Rightarrow> Some (WrongCommitSig i err)
      | None \<Rightarrow> validate_sigs T (Suc i) css)"

definition Commit_ValidateBasic :: "'pk tm \<Rightarrow> Commit \<Rightarrow> commit_error option" where
  "Commit_ValidateBasic T commit =
     (if IsZero (cmDataHash commit) then Some CommitForNilBlock
      else if length (cmSignatures commit) = 0 then Some NoSignatures
      else validate_sigs T 0 (cmSignatures commit))"

definition Commit_ToProto :: "Commit option \<Rightarrow> pb_Commit option" where
  "Commit_ToProto commit =
     (case commit of
        None \<Rightarrow> None
      | Some c \<Rightarrow> Some
          \<lparr>pcHeight = 0, pcRound = 0, pcDataHash = DataHash_ToProto (Some (cmDataHash c)),
           pcSignatures = map CommitSig_ToProto (cmSignatures c)\<rparr>)"

definition CommitFromProto :: "'pk tm \<Rightarrow> pb_Commit option \<Rightarrow> commit_error + Commit" where
  "CommitFromProto T cp =
     (case cp of
        None \<Rightarrow> Inl NilCommit
      | Some p \<Rightarrow>
          (case DataHashFromProto T (Some (pcDataHash p)) of
             Inl err \<Rightarrow> Inl (BadCommitDataHash err)
           | Inr bi \<Rightarrow>
               (case decode_all (CommitSig_FromProto T) (pcSignatures p) of
                  Inl err \<Rightarrow> Inl (BadCommitSig err)
                | Inr sigs \<Rightarrow>
                    let commit = NewCommit bi sigs
                    in case Commit_ValidateBasic T commit of
                         Some err \<Rightarrow> Inl err
                       | None \<Rightarrow> Inr commit)))"

section \<open>Facts\<close>

lemma validate_sigs_ok:
  "validate_sigs T i css = None \<longleftrightarrow> list_all (\<lambda>cs. CommitSig_ValidateBasic T cs = None) css"
  by (induction css arbitrary: i) (auto split: option.splits)

definition commit_valid :: "'pk tm \<Rightarrow> Commit \<Rightarrow> bool" where
  "commit_valid T c \<longleftrightarrow> IsComplete T (cmDataHash c) \<and> Commit_ValidateBasic T c = None \<and>
     cmhash c = None \<and> cmbitArray c = None"

lemma commit_valid_NewCommit:
  "commit_valid T c \<Longrightarrow> NewCommit (cmDataHash c) (cmSignatures c) = c"
  by (cases c) (simp add: commit_valid_def NewCommit_def)

abbreviation commit_pb :: "Commit \<Rightarrow> pb_Commit" where
  "commit_pb c \<equiv> the (Commit_ToProto (Some c))"

abbreviation norm_sig :: "pb_CommitSig \<Rightarrow> pb_CommitSig" where
  "norm_sig p \<equiv> p\<lparr>pcsDataHashFlag := pcsDataHashFlag p mod 256\<rparr>"

abbreviation norm_commit :: "pb_Commit \<Rightarrow> pb_Commit" where
  "norm_commit p \<equiv>
     p\<lparr>pcHeight := 0, pcRound := 0, pcSignatures := map norm_sig (pcSignatures p)\<rparr>"

lemma CommitFromProto_Inr:
  "CommitFromProto T (Some p) = Inr c \<longleftrightarrow>
     (\<exists>sigs. decode_all (CommitSig_FromProto T) (pcSignatures p) = Inr sigs \<and>
        c = NewCommit \<lparr>Hash = pbHash (pcDataHash p)\<rparr> sigs \<and> commit_valid T c)"
proof -
  let ?h = "\<lparr>Hash = pbHash (pcDataHash p)\<rparr>"
  have valid: "commit_valid T (NewCommit ?h sigs) \<longleftrightarrow>
      hash_ok T ?h \<and> Commit_ValidateBasic T (NewCommit ?h sigs) = None" for sigs
    by (auto simp: commit_valid_def Commit_ValidateBasic_def NewCommit_def)
  show ?thesis
    by (cases "decode_all (CommitSig_FromProto T) (pcSignatures p)")
      (auto simp: CommitFromProto_def DataHashFromProto_Some Let_def valid split: option.splits if_splits)
qed

interpretation commit_wire: wire commit_pb "\<lambda>p. CommitFromProto T (Some p)" "commit_valid T"
  norm_commit for T
proof
  show "CommitFromProto T (Some (commit_pb c)) = Inr c" if v: "commit_valid T c" for c
  proof -
    have "list_all (\<lambda>cs. CommitSig_ValidateBasic T cs = None) (cmSignatures c)"
      using v by (auto simp: commit_valid_def Commit_ValidateBasic_def validate_sigs_ok split: if_splits)
    from sig_wire.decode_encode_all [OF this] show ?thesis
      unfolding CommitFromProto_Inr using v commit_valid_NewCommit [OF v]
      by (simp add: Commit_ToProto_def DataHash_ToProto_def)
  qed
  show "commit_valid T c" if "CommitFromProto T (Some p) = Inr c" for p c
    using that by (auto simp: CommitFromProto_Inr)
  show "commit_pb c = norm_commit p" if "CommitFromProto T (Some p) = Inr c" for p c
    using that sig_wire.encode_decode_all [of T "pcSignatures p"]
    by (auto simp: CommitFromProto_Inr Commit_ToProto_def DataHash_ToProto_def NewCommit_def)
qed

lemma Commit_GetVote_nth:
  assumes "k < length (cmSignatures c)" and "CommitSig_DataHash (cmSignatures c ! k) (cmDataHash c) = Return h"
  shows "Commit_GetVote c (int k) = Return
    \<lparr>vType = PrecommitType, vDataHash = h, vTimestamp = csTimestamp (cmSignatures c ! k),
     vValidatorAddress = csValidatorAddress (cmSignatures c ! k), vValidatorIndex = int k,
     vSignature = csSignature (cmSignatures c ! k)\<rparr>"
  using assms by (simp add: Commit_GetVote_def)

section \<open>Properties\<close>

text \<open>C16: the wire format of commits: a valid commit survives encoding and decoding, and a
  decoded commit is valid and encodes to the message it came from, but for the height, the
  round and the high bits of the flags, which the program drops.\<close>

theorem Commit_roundtrip:
  "(commit_valid T c \<longleftrightarrow> CommitFromProto T (Commit_ToProto (Some c)) = Inr c) \<and>
   (\<forall>p. CommitFromProto T (Some p) = Inr c \<longrightarrow>
      commit_valid T c \<and> Commit_ToProto (Some c) = Some (norm_commit p))"
proof -
  obtain p where p: "Commit_ToProto (Some c) = Some p" by (simp add: Commit_ToProto_def)
  show ?thesis
    using commit_wire.decode_iff_valid [of T c] commit_wire.decode_valid [of T _ c]
      commit_wire.encode_decode [of T _ c] unfolding p option.sel by simp
qed

definition sample_commit :: Commit where
  "sample_commit =
     NewCommit \<lparr>Hash = [7]\<rparr> [NewCommitSigForBlock [1, 2, 3] [2] 5, NewCommitSigAbsent]"

theorem Commit_roundtrip_witness:
  "CommitFromProto sample_tm (Commit_ToProto (Some sample_commit)) = Inr sample_commit \<and>
   commit_valid sample_tm sample_commit"
proof -
  have valid: "commit_valid sample_tm sample_commit"
    by (simp add: commit_valid_def sample_commit_def NewCommit_def Commit_ValidateBasic_def sample_simps
        CommitSig_ValidateBasic_def NewCommitSigForBlock_def NewCommitSigAbsent_def flag_defs
        time_IsZero_def MaxSignatureSize_def)
  then show ?thesis using Commit_roundtrip [of sample_tm sample_commit] by blast
qed

end
