(* ===== verification/Con_Quorum.thy ===== *)
theory Con_Quorum
  imports Con_ProposerSet
begin

text \<open>
  Counting voting power. The interface \<open>electorate\<close> is what the vote set and the commit
  verification need of a validator list: seats with non-negative weights and their total.
  More than two thirds of the power is a quorum; two quorums share more than a third.
\<close>

locale electorate =
  fixes valid :: "'v \<Rightarrow> bool"
    and seats :: "'v \<Rightarrow> nat"
    and weight :: "'v \<Rightarrow> nat \<Rightarrow> int"
    and total :: "'v \<Rightarrow> int"
  assumes weight_nonneg: "valid v \<Longrightarrow> i < seats v \<Longrightarrow> 0 \<le> weight v i"
    and total_weight: "total v = (\<Sum>i < seats v. weight v i)"
begin

definition power :: "'v \<Rightarrow> nat set \<Rightarrow> int" where
  "power v A = (\<Sum>i \<in> A. weight v i)"

definition quorum :: "'v \<Rightarrow> int" where
  "quorum v = total v * 2 div 3 + 1"

lemma finite_seats: "A \<subseteq> {..<seats v} \<Longrightarrow> finite A"
  by (meson finite_lessThan finite_subset)

lemma power_empty [simp]: "power v {} = 0"
  by (simp add: power_def)

lemma power_insert:
  "A \<subseteq> {..<seats v} \<Longrightarrow> i \<notin> A \<Longrightarrow> power v (insert i A) = power v A + weight v i"
  using finite_seats by (simp add: power_def)

lemma power_nonneg: "valid v \<Longrightarrow> A \<subseteq> {..<seats v} \<Longrightarrow> 0 \<le> power v A"
  unfolding power_def using weight_nonneg by (intro sum_nonneg) auto

lemma power_mono:
  assumes "valid v" and "A \<subseteq> B" and "B \<subseteq> {..<seats v}"
  shows "power v A \<le> power v B"
  unfolding power_def using assms weight_nonneg finite_seats [OF assms(3)]
  by (intro sum_mono2) auto

lemma power_total: "power v {..<seats v} = total v"
  by (simp add: power_def total_weight)

lemma power_le_total: "valid v \<Longrightarrow> A \<subseteq> {..<seats v} \<Longrightarrow> power v A \<le> total v"
  using power_mono [of v A "{..<seats v}"] by (simp add: power_total)

lemma total_nonneg: "valid v \<Longrightarrow> 0 \<le> total v"
  using power_nonneg [of v "{..<seats v}"] by (simp add: power_total)

lemma quorum_iff: "quorum v \<le> p \<longleftrightarrow> total v * 2 < 3 * p"
  by (simp add: quorum_def) linarith

lemma power_union_inter:
  assumes "A \<subseteq> {..<seats v}" and "B \<subseteq> {..<seats v}"
  shows "power v (A \<union> B) + power v (A \<inter> B) = power v A + power v B"
  unfolding power_def using finite_seats [OF assms(1)] finite_seats [OF assms(2)]
  by (rule sum.union_inter)

text \<open>Two quorums share more than a third of the power.\<close>

lemma quorum_intersection:
  assumes v: "valid v" and A: "A \<subseteq> {..<seats v}" and B: "B \<subseteq> {..<seats v}"
    and qA: "quorum v \<le> power v A" and qB: "quorum v \<le> power v B"
  shows "total v < 3 * power v (A \<inter> B)"
proof -
  have "power v (A \<union> B) \<le> total v" using v A B by (intro power_le_total) auto
  then show ?thesis
    using power_union_inter [OF A B] qA qB unfolding quorum_iff by linarith
qed

lemma disjoint_quorums:
  assumes "valid v" and "A \<subseteq> {..<seats v}" and "B \<subseteq> {..<seats v}" and "A \<inter> B = {}"
    and "quorum v \<le> power v A" and "quorum v \<le> power v B"
  shows False
  using quorum_intersection [OF assms(1-3,5,6)] assms(4) total_nonneg [OF assms(1)] by simp

end

text \<open>The validator list of the program as an electorate.\<close>

interpretation validators: electorate powers_ok length "\<lambda>vs i. VotingPower (vs ! i)" power_sum
proof
  show "0 \<le> VotingPower (vs ! i)" if "powers_ok vs" "i < length vs" for vs :: "'a Proposer list" and i
    using powers_okD(1) [OF that(1)] that(2) by simp
  show "power_sum vs = (\<Sum>i<length vs. VotingPower (vs ! i))" for vs :: "'a Proposer list"
    by (simp add: sum_list_sum_nth atLeast0LessThan)
qed

text \<open>The quorum as the code computes it.\<close>

definition two_thirds :: "int \<Rightarrow> int" where
  "two_thirds t = i64_quo (i64_mul t 2) 3"

lemma two_thirds_eq:
  assumes "powers_ok vs"
  shows "two_thirds (power_sum vs) = power_sum vs * 2 div 3"
    and "i64_add (two_thirds (power_sum vs)) 1 = validators.quorum vs"
proof -
  have b: "0 \<le> power_sum vs" "power_sum vs \<le> MaxTotalVotingPower"
    using powers_okD(3,4) [OF assms] by auto
  then have "i64_mul (power_sum vs) 2 = power_sum vs * 2"
    by (intro i64_exact) (simp add: is_i64_iff MaxTotalVotingPower_eq)
  then show q: "two_thirds (power_sum vs) = power_sum vs * 2 div 3"
    unfolding two_thirds_def using b
    by (simp add: i64_quo_nonneg is_i64_iff MaxTotalVotingPower_eq)
  have "is_i64 (power_sum vs * 2 div 3 + 1)"
    using b by (simp add: is_i64_iff MaxTotalVotingPower_eq)
  then show "i64_add (two_thirds (power_sum vs)) 1 = validators.quorum vs"
    unfolding q by (simp add: i64_exact validators.quorum_def)
qed

end
