(* ===== verification/Con_VoteSet.thy ===== *)
theory Con_VoteSet
  imports Con_Commit Con_Quorum
begin

text \<open>
  \<^verbatim>\<open>src/concord/vote_set.go\<close>: collecting the votes of one type, tracking conflicting votes
  per data hash, detecting the first two-thirds majority, and making a commit of it.

  The mutex serialises the operations, so each is one function on the state. The channel
  \<open>done\<close> is \<open>True\<close> once closed. Peer identifiers are byte strings. The validator set is
  a pointer in the code; the vote set only fills its cached total.
\<close>

record blockVotes =
  bvPeerMaj23 :: bool
  bvBitArray :: BitArray
  bvVotes :: "Vote option list"
  bvSum :: int

record 'pk VoteSet =
  vsChainID :: bytes
  vsSignedMsgType :: SignedMsgType
  vsValSet :: "'pk ProposerSet"
  vsVotesBitArray :: BitArray
  vsVotes :: "Vote option list"
  vsSum :: int
  vsMaj23 :: "DataHash option"
  vsVotesByBlock :: "bytes \<rightharpoonup> blockVotes"
  vsPeerMaj23s :: "bytes \<rightharpoonup> DataHash"
  vsDone :: bool

definition NewVoteSet :: "bytes \<Rightarrow> SignedMsgType \<Rightarrow> 'pk ProposerSet \<Rightarrow> 'pk VoteSet" where
  "NewVoteSet chainID signedMsgType valSet =
     \<lparr>vsChainID = chainID, vsSignedMsgType = signedMsgType, vsValSet = valSet,
      vsVotesBitArray = NewBitArray (int (Size valSet)), vsVotes = replicate (Size valSet) None,
      vsSum = 0, vsMaj23 = None, vsVotesByBlock = Map.empty, vsPeerMaj23s = Map.empty,
      vsDone = False\<rparr>"

section \<open>Votes for one hash\<close>

definition newBlockVotes :: "bool \<Rightarrow> nat \<Rightarrow> blockVotes" where
  "newBlockVotes peerMaj23 numValidators =
     \<lparr>bvPeerMaj23 = peerMaj23, bvBitArray = NewBitArray (int numValidators),
      bvVotes = replicate numValidators None, bvSum = 0\<rparr>"

definition blockVotes_addVerifiedVote :: "Vote \<Rightarrow> int \<Rightarrow> blockVotes \<Rightarrow> blockVotes outcome" where
  "blockVotes_addVerifiedVote vote votingPower bv =
     (let valIndex = vValidatorIndex vote
      in obind (slice_get (bvVotes bv) valIndex) (\<lambda>existing.
        case existing of
          None \<Rightarrow> Return (bv\<lparr>bvBitArray := SetIndex (bvBitArray bv) valIndex True,
                             bvVotes := (bvVotes bv)[nat valIndex := Some vote],
                             bvSum := i64_add (bvSum bv) votingPower\<rparr>)
        | Some e \<Rightarrow> Return bv))"

definition blockVotes_getByIndex :: "blockVotes option \<Rightarrow> int \<Rightarrow> Vote option outcome" where
  "blockVotes_getByIndex bv index =
     (case bv of None \<Rightarrow> Return None | Some bv \<Rightarrow> slice_get (bvVotes bv) index)"

section \<open>Adding votes\<close>

definition VoteSet_getVote :: "int \<Rightarrow> bytes \<Rightarrow> 'pk VoteSet \<Rightarrow> Vote option outcome" where
  "VoteSet_getVote valIndex blockKey vs =
     obind (slice_get (vsVotes vs) valIndex) (\<lambda>existing.
       case existing of
         Some e \<Rightarrow>
           if Key (vDataHash e) = blockKey then Return (Some e)
           else blockVotes_getByIndex (vsVotesByBlock vs blockKey) valIndex
       | None \<Rightarrow> blockVotes_getByIndex (vsVotesByBlock vs blockKey) valIndex)"

text \<open>\<open>for i, vote := range votesByBlock.votes\<close>, copying the votes that are there.\<close>

fun copy_votes :: "nat \<Rightarrow> Vote option list \<Rightarrow> Vote option list \<Rightarrow> Vote option list outcome" where
  "copy_votes i [] votes = Return votes"
| "copy_votes i (None # rest) votes = copy_votes (Suc i) rest votes"
| "copy_votes i (Some v # rest) votes =
     (if i < length votes then copy_votes (Suc i) rest (votes[i := Some v])
      else Panic IndexOutOfRange)"

text \<open>The part of \<open>addVerifiedVote\<close> on the canonical votes.\<close>

definition record_vote :: "Vote \<Rightarrow> bytes \<Rightarrow> int \<Rightarrow> 'pk VoteSet \<Rightarrow>
    ('pk VoteSet \<times> Vote option) outcome" where
  "record_vote vote blockKey votingPower vs =
     (let valIndex = vValidatorIndex vote;
          replaced = vs\<lparr>vsVotes := (vsVotes vs)[nat valIndex := Some vote],
                        vsVotesBitArray := SetIndex (vsVotesBitArray vs) valIndex True\<rparr>
      in obind (slice_get (vsVotes vs) valIndex) (\<lambda>existing.
        case existing of
          Some e \<Rightarrow>
            if DataHash_Equals (vDataHash e) (vDataHash vote) then Panic PanicDuplicateVote
            else (case vsMaj23 vs of
                Some m \<Rightarrow> if Key m = blockKey then Return (replaced, Some e) else Return (vs, Some e)
              | None \<Rightarrow> Return (vs, Some e))
        | None \<Rightarrow> Return (replaced\<lparr>vsSum := i64_add (vsSum vs) votingPower\<rparr>, None)))"

text \<open>The part on the votes for the hash, with the check for the first majority.\<close>

definition track_vote :: "Vote \<Rightarrow> bytes \<Rightarrow> int \<Rightarrow> blockVotes \<Rightarrow> 'pk VoteSet \<Rightarrow> 'pk VoteSet outcome"
where
  "track_vote vote blockKey votingPower bv vs =
     obind (TotalVotingPower (vsValSet vs)) (\<lambda>(valSet, total).
     obind (blockVotes_addVerifiedVote vote votingPower bv) (\<lambda>bv'.
       let origSum = bvSum bv;
           quorum = i64_add (two_thirds total) 1;
           vs' = vs\<lparr>vsValSet := valSet, vsVotesByBlock := (vsVotesByBlock vs)(blockKey \<mapsto> bv')\<rparr>
       in if origSum < quorum \<and> quorum \<le> bvSum bv' \<and> vsMaj23 vs' = None then
            obind (copy_votes 0 (bvVotes bv') (vsVotes vs')) (\<lambda>votes.
              Return (vs'\<lparr>vsMaj23 := Some (vDataHash vote), vsVotes := votes\<rparr>))
          else Return vs'))"

definition VoteSet_addVerifiedVote :: "Vote \<Rightarrow> bytes \<Rightarrow> int \<Rightarrow> 'pk VoteSet \<Rightarrow>
    ('pk VoteSet \<times> bool \<times> Vote option) outcome" where
  "VoteSet_addVerifiedVote vote blockKey votingPower vs =
     obind (record_vote vote blockKey votingPower vs) (\<lambda>(vs1, conflicting).
       case vsVotesByBlock vs1 blockKey of
         Some bv \<Rightarrow>
           if conflicting \<noteq> None \<and> \<not> bvPeerMaj23 bv then Return (vs1, False, conflicting)
           else obind (track_vote vote blockKey votingPower bv vs1)
             (\<lambda>vs2. Return (vs2, True, conflicting))
       | None \<Rightarrow>
           if conflicting \<noteq> None then Return (vs1, False, conflicting)
           else
             let bv = newBlockVotes False (Size (vsValSet vs1))
             in obind (track_vote vote blockKey votingPower bv vs1)
               (\<lambda>vs2. Return (vs2, True, conflicting)))"

definition HasTwoThirdsMajority :: "'pk VoteSet option \<Rightarrow> bool" where
  "HasTwoThirdsMajority vs = (case vs of None \<Rightarrow> False | Some s \<Rightarrow> vsMaj23 s \<noteq> None)"

definition VoteSet_addVote :: "'pk tm \<Rightarrow> Vote option \<Rightarrow> 'pk VoteSet \<Rightarrow>
    ('pk VoteSet \<times> bool \<times> vote_error option) outcome" where
  "VoteSet_addVote T vote_ptr vs =
     (case vote_ptr of
        None \<Rightarrow> Return (vs, False, Some ErrVoteNil)
      | Some vote \<Rightarrow>
          let valIndex = vValidatorIndex vote;
              valAddr = vValidatorAddress vote;
              blockKey = Key (vDataHash vote)
          in if valIndex < 0 then Return (vs, False, Some ErrVoteInvalidValidatorIndex)
          else if length valAddr = 0 then Return (vs, False, Some ErrVoteInvalidValidatorAddress)
          else if vType vote \<noteq> vsSignedMsgType vs then Return (vs, False, Some ErrVoteUnexpectedStep)
          else (case GetByIndex (vsValSet vs) valIndex of
            None \<Rightarrow> Return (vs, False, Some ErrVoteInvalidValidatorIndex)
          | Some (lookupAddr, val) \<Rightarrow>
              if valAddr \<noteq> lookupAddr then Return (vs, False, Some ErrVoteInvalidValidatorAddress)
              else obind (VoteSet_getVote valIndex blockKey vs) (\<lambda>known. case known of
                Some existing \<Rightarrow>
                  if vSignature existing = vSignature vote then Return (vs, False, None)
                  else Return (vs, False, Some ErrVoteNonDeterministicSignature)
              | None \<Rightarrow>
                  obind (Vote_Verify T vote (vsChainID vs) (PubKey val)) (\<lambda>err. case err of
                    Some e \<Rightarrow> Return (vs, False, Some e)
                  | None \<Rightarrow>
                      obind (VoteSet_addVerifiedVote vote blockKey (VotingPower val) vs)
                        (\<lambda>(vs', added, conflicting). case conflicting of
                          Some c \<Rightarrow> Return (vs', added, Some (NewConflictingVoteError c vote))
                        | None \<Rightarrow>
                            if \<not> added then Panic PanicNotAdded
                            else if HasTwoThirdsMajority (Some vs')
                              then Return (vs'\<lparr>vsDone := True\<rparr>, added, None)
                            else Return (vs', added, None))))))"

definition VoteSet_AddVote :: "'pk tm \<Rightarrow> Vote option \<Rightarrow> 'pk VoteSet option \<Rightarrow>
    ('pk VoteSet \<times> bool \<times> vote_error option) outcome" where
  "VoteSet_AddVote T vote voteSet =
     (case voteSet of None \<Rightarrow> Panic PanicNilVoteSet | Some vs \<Rightarrow> VoteSet_addVote T vote vs)"

section \<open>Claims of peers\<close>

definition claim_maj23 :: "bytes \<Rightarrow> DataHash \<Rightarrow> 'pk VoteSet \<Rightarrow> 'pk VoteSet \<times> DataHash option" where
  "claim_maj23 peerID blockID vs =
     (let blockKey = Key blockID
      in case vsPeerMaj23s vs peerID of
        Some existing \<Rightarrow> if DataHash_Equals existing blockID then (vs, None) else (vs, Some existing)
      | None \<Rightarrow>
          let vs1 = vs\<lparr>vsPeerMaj23s := (vsPeerMaj23s vs)(peerID \<mapsto> blockID)\<rparr>
          in case vsVotesByBlock vs1 blockKey of
            Some bv \<Rightarrow>
              if bvPeerMaj23 bv then (vs1, None)
              else (vs1\<lparr>vsVotesByBlock := (vsVotesByBlock vs1)(blockKey \<mapsto> bv\<lparr>bvPeerMaj23 := True\<rparr>)\<rparr>, None)
          | None \<Rightarrow>
              (vs1\<lparr>vsVotesByBlock := (vsVotesByBlock vs1)
                    (blockKey \<mapsto> newBlockVotes True (Size (vsValSet vs1)))\<rparr>, None))"

definition SetPeerMaj23 :: "bytes \<Rightarrow> DataHash \<Rightarrow> 'pk VoteSet option \<Rightarrow>
    ('pk VoteSet \<times> DataHash option) outcome" where
  "SetPeerMaj23 peerID blockID voteSet =
     (case voteSet of
        None \<Rightarrow> Panic PanicNilVoteSet
      | Some vs \<Rightarrow> Return (claim_maj23 peerID blockID vs))"

section \<open>Queries\<close>

definition VoteSet_Type :: "'pk VoteSet option \<Rightarrow> 8 word" where
  "VoteSet_Type vs = (case vs of None \<Rightarrow> 0 | Some s \<Rightarrow> word_of_int (vsSignedMsgType s))"

text \<open>These two dereference the pointer.\<close>

definition VoteSet_Done :: "'pk VoteSet option \<Rightarrow> bool outcome" where
  "VoteSet_Done vs = (case vs of None \<Rightarrow> Panic NilDereference | Some s \<Rightarrow> Return (vsDone s))"

definition VoteSet_ChainID :: "'pk VoteSet option \<Rightarrow> bytes outcome" where
  "VoteSet_ChainID vs = (case vs of None \<Rightarrow> Panic NilDereference | Some s \<Rightarrow> Return (vsChainID s))"

definition VoteSet_Size :: "'pk VoteSet option \<Rightarrow> nat" where
  "VoteSet_Size vs = (case vs of None \<Rightarrow> 0 | Some s \<Rightarrow> Size (vsValSet s))"

definition VoteSet_BitArray :: "'pk VoteSet option \<Rightarrow> BitArray option" where
  "VoteSet_BitArray vs = map_option vsVotesBitArray vs"

definition BitArrayByBlockID :: "DataHash \<Rightarrow> 'pk VoteSet option \<Rightarrow> BitArray option" where
  "BitArrayByBlockID blockID vs =
     (case vs of
        None \<Rightarrow> None
      | Some s \<Rightarrow> map_option bvBitArray (vsVotesByBlock s (Key blockID)))"

definition VoteSet_GetByIndex :: "int \<Rightarrow> 'pk VoteSet option \<Rightarrow> Vote option outcome" where
  "VoteSet_GetByIndex valIndex vs =
     (case vs of None \<Rightarrow> Return None | Some s \<Rightarrow> slice_get (vsVotes s) valIndex)"

definition VoteSet_List :: "'pk VoteSet option \<Rightarrow> Vote list" where
  "VoteSet_List vs =
     (case vs of None \<Rightarrow> [] | Some s \<Rightarrow> concat (map (\<lambda>v. case v of None \<Rightarrow> [] | Some w \<Rightarrow> [w]) (vsVotes s)))"

definition VoteSet_GetByAddress :: "bytes \<Rightarrow> 'pk VoteSet option \<Rightarrow> Vote option outcome" where
  "VoteSet_GetByAddress address vs =
     (case vs of
        None \<Rightarrow> Return None
      | Some s \<Rightarrow>
          (case GetByAddress (vsValSet s) address of
             (valIndex, None) \<Rightarrow> Panic PanicUnknownAddress
           | (valIndex, Some val) \<Rightarrow> slice_get (vsVotes s) valIndex))"

definition VoteSet_IsCommit :: "'pk VoteSet option \<Rightarrow> bool" where
  "VoteSet_IsCommit vs =
     (case vs of
        None \<Rightarrow> False
      | Some s \<Rightarrow> if vsSignedMsgType s \<noteq> PrecommitType then False else vsMaj23 s \<noteq> None)"

definition HasTwoThirdsAny :: "'pk VoteSet option \<Rightarrow> ('pk VoteSet option \<times> bool) outcome" where
  "HasTwoThirdsAny voteSet =
     (case voteSet of
        None \<Rightarrow> Return (None, False)
      | Some vs \<Rightarrow> obind (TotalVotingPower (vsValSet vs)) (\<lambda>(valSet, total).
          Return (Some (vs\<lparr>vsValSet := valSet\<rparr>), vsSum vs > two_thirds total)))"

definition HasAll :: "'pk VoteSet option \<Rightarrow> ('pk VoteSet option \<times> bool) outcome" where
  "HasAll voteSet =
     (case voteSet of
        None \<Rightarrow> Return (None, False)
      | Some vs \<Rightarrow> obind (TotalVotingPower (vsValSet vs)) (\<lambda>(valSet, total).
          Return (Some (vs\<lparr>vsValSet := valSet\<rparr>), vsSum vs = total)))"

definition TwoThirdsMajority :: "'pk VoteSet option \<Rightarrow> DataHash \<times> bool" where
  "TwoThirdsMajority vs =
     (case vs of
        None \<Rightarrow> (DataHash_zero, False)
      | Some s \<Rightarrow> (case vsMaj23 s of Some h \<Rightarrow> (h, True) | None \<Rightarrow> (DataHash_zero, False)))"

section \<open>Commits\<close>

text \<open>\<open>v.DataHash\<close> is read only of a vote that is there: a nil vote is \<open>Absent\<close>.\<close>

definition MakeCommit :: "'pk tm \<Rightarrow> 'pk VoteSet \<Rightarrow> Commit outcome" where
  "MakeCommit T vs =
     (if vsSignedMsgType vs \<noteq> PrecommitType then Panic PanicNotPrecommit
      else case vsMaj23 vs of
        None \<Rightarrow> Panic PanicNoMajority
      | Some m \<Rightarrow>
          obind
            (omap (\<lambda>v. obind (Vote_CommitSig T v) (\<lambda>commitSig.
               if ForBlock commitSig then
                 (case v of
                    None \<Rightarrow> Panic NilDereference
                  | Some w \<Rightarrow> if \<not> DataHash_Equals (vDataHash w) m then Return NewCommitSigAbsent
                               else Return commitSig)
               else Return commitSig)) (vsVotes vs))
            (\<lambda>commitSigs. Return (NewCommit m commitSigs)))"

fun add_commit_votes :: "'pk tm \<Rightarrow> Commit \<Rightarrow> nat \<Rightarrow> CommitSig list \<Rightarrow> 'pk VoteSet \<Rightarrow>
    'pk VoteSet outcome" where
  "add_commit_votes T commit idx [] vs = Return vs"
| "add_commit_votes T commit idx (cs # css) vs =
     (if Absent cs then add_commit_votes T commit (Suc idx) css vs
      else obind (Commit_GetVote commit (wrap32 (int idx))) (\<lambda>vote.
           obind (VoteSet_AddVote T (Some vote) (Some vs)) (\<lambda>(vs', added, err).
             if \<not> added \<or> err \<noteq> None then Panic PanicReconstructCommit
             else add_commit_votes T commit (Suc idx) css vs')))"

definition CommitToVoteSet :: "'pk tm \<Rightarrow> bytes \<Rightarrow> Commit \<Rightarrow> 'pk ProposerSet \<Rightarrow> 'pk VoteSet outcome" where
  "CommitToVoteSet T chainID commit vals =
     add_commit_votes T commit 0 (cmSignatures commit) (NewVoteSet chainID PrecommitType vals)"

end
