(* ===== verification/Con_Tally.thy ===== *)
theory Con_Tally
  imports Con_VoteSet
begin

text \<open>
  The invariant of the vote set: every stored vote is a verified vote of the validator at
  its index, the sums are the power of the validators that voted, a majority is recorded
  exactly when a tracked hash reaches the quorum for the first time, and its votes are then
  the canonical ones. Every operation keeps it, and none panics on well-formed votes.
\<close>

section \<open>The invariant\<close>

abbreviation members :: "'pk VoteSet \<Rightarrow> 'pk Proposer list" where
  "members vs \<equiv> Proposers (vsValSet vs)"

definition good_vote :: "'pk tm \<Rightarrow> bytes \<Rightarrow> SignedMsgType \<Rightarrow> 'pk Proposer list \<Rightarrow> nat \<Rightarrow> Vote \<Rightarrow> bool"
where
  "good_vote T chainID t vals i v \<longleftrightarrow>
     i < length vals \<and> vValidatorIndex v = int i \<and> vType v = t \<and>
     vValidatorAddress v = Address (vals ! i) \<and> vValidatorAddress v \<noteq> [] \<and> hash_ok T (vDataHash v) \<and>
     marshals T chainID v \<and>
     (case PubKey (vals ! i) of
        None \<Rightarrow> False
      | Some k \<Rightarrow> PubKey_Address T k = vValidatorAddress v \<and> signed_by T chainID k v)"

definition voters :: "Vote option list \<Rightarrow> nat set" where
  "voters votes = {i. i < length votes \<and> votes ! i \<noteq> None}"

abbreviation good_in :: "'pk tm \<Rightarrow> 'pk VoteSet \<Rightarrow> nat \<Rightarrow> Vote \<Rightarrow> bool" where
  "good_in T vs \<equiv> good_vote T (vsChainID vs) (vsSignedMsgType vs) (members vs)"

definition slots_ok :: "'pk tm \<Rightarrow> 'pk VoteSet \<Rightarrow> Vote option list \<Rightarrow> bool" where
  "slots_ok T vs votes \<longleftrightarrow> length votes = length (members vs) \<and>
     (\<forall>i v. i < length votes \<longrightarrow> votes ! i = Some v \<longrightarrow> good_in T vs i v)"

definition block_ok :: "'pk tm \<Rightarrow> 'pk VoteSet \<Rightarrow> bytes \<Rightarrow> blockVotes \<Rightarrow> bool" where
  "block_ok T vs k bv \<longleftrightarrow> slots_ok T vs (bvVotes bv) \<and>
     (\<forall>i v. i < length (bvVotes bv) \<longrightarrow> bvVotes bv ! i = Some v \<longrightarrow> Key (vDataHash v) = k) \<and>
     bvSum bv = validators.power (members vs) (voters (bvVotes bv)) \<and>
     voters (bvVotes bv) \<subseteq> voters (vsVotes vs)"

text \<open>What the recorded majority, or its absence, says of the tracked hashes.\<close>

definition majority_ok :: "'pk VoteSet \<Rightarrow> bool" where
  "majority_ok vs \<longleftrightarrow>
     (case vsMaj23 vs of
        None \<Rightarrow> \<forall>k bv. vsVotesByBlock vs k = Some bv \<longrightarrow> bvSum bv < validators.quorum (members vs)
      | Some h \<Rightarrow> \<exists>bv. vsVotesByBlock vs (Key h) = Some bv \<and>
          validators.quorum (members vs) \<le> bvSum bv \<and>
          (\<forall>i < length (bvVotes bv). bvVotes bv ! i \<noteq> None \<longrightarrow> vsVotes vs ! i = bvVotes bv ! i))"

definition base_inv :: "'pk tm \<Rightarrow> 'pk VoteSet \<Rightarrow> bool" where
  "base_inv T vs \<longleftrightarrow> powers_ok (members vs) \<and> cache_ok (vsValSet vs) \<and>
     slots_ok T vs (vsVotes vs) \<and>
     vsSum vs = validators.power (members vs) (voters (vsVotes vs)) \<and>
     (\<forall>k bv. vsVotesByBlock vs k = Some bv \<longrightarrow> block_ok T vs k bv) \<and>
     (vsDone vs \<longrightarrow> vsMaj23 vs \<noteq> None)"

definition core_inv :: "'pk tm \<Rightarrow> 'pk VoteSet \<Rightarrow> bool" where
  "core_inv T vs \<longleftrightarrow> base_inv T vs \<and> majority_ok vs"

text \<open>A canonical vote is tracked under its hash, or is for the majority.\<close>

definition backed :: "'pk VoteSet \<Rightarrow> nat \<Rightarrow> bool" where
  "backed vs i \<longleftrightarrow>
     (case vsVotes vs ! i of
        None \<Rightarrow> True
      | Some v \<Rightarrow> vsMaj23 vs = Some (vDataHash v) \<or>
          (case vsVotesByBlock vs (Key (vDataHash v)) of
             None \<Rightarrow> False
           | Some bv \<Rightarrow> bvVotes bv ! i = Some v))"

definition vote_inv :: "'pk tm \<Rightarrow> 'pk VoteSet \<Rightarrow> bool" where
  "vote_inv T vs \<longleftrightarrow> core_inv T vs \<and> (\<forall>i < length (vsVotes vs). backed vs i)"

section \<open>Facts\<close>

lemma voters_subset: "voters votes \<subseteq> {..<length votes}"
  by (auto simp: voters_def)

lemma voters_update:
  "i < length votes \<Longrightarrow> voters (votes[i := Some v]) = insert i (voters votes)"
  by (auto simp: voters_def nth_list_update)

lemma voters_replicate [simp]: "voters (replicate n None) = {}"
  by (auto simp: voters_def)

lemma power_voters_update:
  assumes "length votes = length vals" and "i < length vals" and "votes ! i = None"
  shows "validators.power vals (voters (votes[i := Some v])) =
    validators.power vals (voters votes) + VotingPower (vals ! i)"
proof -
  have "i \<notin> voters votes" using assms by (simp add: voters_def)
  then show ?thesis
    using assms validators.power_insert [of "voters votes" vals i] voters_subset [of votes]
    by (simp add: voters_update)
qed

lemma add_power_exact:
  assumes "powers_ok vals" and "length votes = length vals" and "i < length vals" and "votes ! i = None"
  shows "i64_add (validators.power vals (voters votes)) (VotingPower (vals ! i)) =
    validators.power vals (voters (votes[i := Some v]))"
proof -
  have sub: "voters (votes[i := Some v]) \<subseteq> {..<length vals}"
    using voters_subset [of "votes[i := Some v]"] assms(2) by simp
  have "0 \<le> validators.power vals (voters (votes[i := Some v]))"
    "validators.power vals (voters (votes[i := Some v])) \<le> power_sum vals"
    using validators.power_nonneg [OF assms(1) sub] validators.power_le_total [OF assms(1) sub] by auto
  then have "is_i64 (validators.power vals (voters votes) + VotingPower (vals ! i))"
    using power_voters_update [OF assms(2-4), of v] powers_okD(4) [OF assms(1)]
    by (simp add: is_i64_iff MaxTotalVotingPower_eq)
  then show ?thesis using power_voters_update [OF assms(2-4), of v] by (simp add: i64_exact)
qed

lemma copy_votes_ok:
  assumes "i + length xs = length votes"
  shows "\<exists>ws. copy_votes i xs votes = Return ws \<and> length ws = length votes \<and>
    (\<forall>j < length votes. ws ! j =
      (if i \<le> j \<and> xs ! (j - i) \<noteq> None then xs ! (j - i) else votes ! j))"
  using assms
proof (induction i xs votes rule: copy_votes.induct)
  case (2 i rest votes)
  then obtain ws where ws: "copy_votes (Suc i) rest votes = Return ws" "length ws = length votes"
    "\<forall>j < length votes. ws ! j =
      (if Suc i \<le> j \<and> rest ! (j - Suc i) \<noteq> None then rest ! (j - Suc i) else votes ! j)" by auto
  have "(None # rest) ! (j - i) = (if j = i then None else rest ! (j - Suc i))" if "i \<le> j" for j
    using that by (auto simp: nth_Cons' Suc_diff_Suc)
  then show ?case using ws by (intro exI [of _ ws]) auto
next
  case (3 i v rest votes)
  then have "i < length votes" "Suc i + length rest = length (votes[i := Some v])" by simp_all
  with 3(1) obtain ws where ws: "copy_votes (Suc i) rest (votes[i := Some v]) = Return ws"
    "length ws = length votes"
    "\<forall>j < length votes. ws ! j =
      (if Suc i \<le> j \<and> rest ! (j - Suc i) \<noteq> None then rest ! (j - Suc i) else votes[i := Some v] ! j)"
    by (metis length_list_update)
  have "(Some v # rest) ! (j - i) = (if j = i then Some v else rest ! (j - Suc i))" if "i \<le> j" for j
    using that by (auto simp: nth_Cons' Suc_diff_Suc)
  then show ?case using ws \<open>i < length votes\<close> by (intro exI [of _ ws]) (auto simp: nth_list_update)
qed auto

lemma core_invD:
  assumes "core_inv T vs"
  shows "powers_ok (members vs)" "cache_ok (vsValSet vs)" "slots_ok T vs (vsVotes vs)"
    "length (vsVotes vs) = length (members vs)"
    "vsSum vs = validators.power (members vs) (voters (vsVotes vs))"
    "vsVotesByBlock vs k = Some bv \<Longrightarrow> block_ok T vs k bv" "majority_ok vs"
    "vsDone vs \<Longrightarrow> vsMaj23 vs \<noteq> None"
  using assms by (simp_all add: core_inv_def base_inv_def slots_ok_def)

lemma base_invD:
  assumes "base_inv T vs"
  shows "powers_ok (members vs)" "cache_ok (vsValSet vs)" "slots_ok T vs (vsVotes vs)"
    "length (vsVotes vs) = length (members vs)"
    "vsSum vs = validators.power (members vs) (voters (vsVotes vs))"
    "vsVotesByBlock vs k = Some bv \<Longrightarrow> block_ok T vs k bv" "vsDone vs \<Longrightarrow> vsMaj23 vs \<noteq> None"
  using assms by (simp_all add: base_inv_def slots_ok_def)

lemma core_base: "core_inv T vs \<Longrightarrow> base_inv T vs"
  by (simp add: core_inv_def)

lemma block_okD:
  assumes "block_ok T vs k bv"
  shows "slots_ok T vs (bvVotes bv)" "length (bvVotes bv) = length (members vs)"
    "i < length (members vs) \<Longrightarrow> bvVotes bv ! i = Some v \<Longrightarrow> Key (vDataHash v) = k"
    "bvSum bv = validators.power (members vs) (voters (bvVotes bv))"
    "voters (bvVotes bv) \<subseteq> voters (vsVotes vs)"
  using assms by (simp_all add: block_ok_def slots_ok_def)

lemma slots_ok_update:
  assumes "slots_ok T vs votes" and "good_in T vs i v"
  shows "slots_ok T vs (votes[i := Some v])"
proof -
  have "i < length votes" using assms by (simp add: slots_ok_def good_vote_def)
  then show ?thesis using assms by (auto simp: slots_ok_def nth_list_update split: if_splits)
qed

text \<open>Only the chain, the type and the members matter.\<close>

lemma slots_ok_cong:
  assumes "vsChainID vs' = vsChainID vs" "vsSignedMsgType vs' = vsSignedMsgType vs"
    "members vs' = members vs"
  shows "slots_ok T vs' votes = slots_ok T vs votes"
  by (simp add: slots_ok_def assms)

lemma block_ok_cong:
  assumes "vsChainID vs' = vsChainID vs" "vsSignedMsgType vs' = vsSignedMsgType vs"
    "members vs' = members vs" "voters (vsVotes vs) \<subseteq> voters (vsVotes vs')"
    "block_ok T vs k bv"
  shows "block_ok T vs' k bv"
  using assms(4,5) slots_ok_cong [OF assms(1-3)] by (auto simp: block_ok_def assms(3))

lemma core_inv_set_vote:
  assumes core: "core_inv T vs" and good: "good_in T vs i vote"
    and new: "\<And>h bv. vsMaj23 vs = Some h \<Longrightarrow> vsVotesByBlock vs (Key h) = Some bv \<Longrightarrow> bvVotes bv ! i = None"
    and tally: "tally = validators.power (members vs) (voters ((vsVotes vs)[i := Some vote]))"
  shows "core_inv T (vs\<lparr>vsVotes := (vsVotes vs)[i := Some vote], vsVotesBitArray := b, vsSum := tally\<rparr>)"
    (is "core_inv T ?vs'")
proof -
  have i: "i < length (vsVotes vs)" using good core_invD(4) [OF core] by (simp add: good_vote_def)
  have grow: "voters (vsVotes vs) \<subseteq> voters (vsVotes ?vs')" using i by (simp add: voters_update subset_insertI)
  have blocks: "block_ok T ?vs' k bv" if "vsVotesByBlock vs k = Some bv" for k bv
    using core_invD(6) [OF core that] grow by (intro block_ok_cong [of ?vs' vs]) simp_all
  have slots: "slots_ok T ?vs' (vsVotes ?vs')"
    using slots_ok_update [OF core_invD(3) [OF core] good] slots_ok_cong [of ?vs' vs] by simp
  have "majority_ok ?vs'"
    using core_invD(7) [OF core] new
    by (auto simp: majority_ok_def split: option.splits) (metis nth_list_update_neq option.distinct(1))
  then show ?thesis
    using slots blocks core_invD(1,2,8) [OF core] tally by (auto simp: core_inv_def base_inv_def)
qed

text \<open>\<open>record_vote\<close> on a good vote that is not known yet.\<close>

definition unknown_vote :: "'pk VoteSet \<Rightarrow> nat \<Rightarrow> Vote \<Rightarrow> bool" where
  "unknown_vote vs i vote \<longleftrightarrow>
     (\<forall>e. vsVotes vs ! i = Some e \<longrightarrow> vDataHash e \<noteq> vDataHash vote) \<and>
     (\<forall>bv. vsVotesByBlock vs (Key (vDataHash vote)) = Some bv \<longrightarrow> bvVotes bv ! i = None)"

lemma record_vote_ok:
  assumes core: "core_inv T vs" and good: "good_in T vs i vote" and unk: "unknown_vote vs i vote"
  shows "\<exists>vs1. record_vote vote (Key (vDataHash vote)) (VotingPower (members vs ! i)) vs =
      Return (vs1, vsVotes vs ! i) \<and> core_inv T vs1 \<and>
    vsVotes vs1 = (if vsVotes vs ! i = None \<or> vsMaj23 vs = Some (vDataHash vote)
      then (vsVotes vs)[i := Some vote] else vsVotes vs) \<and>
    vsVotesByBlock vs1 = vsVotesByBlock vs \<and> vsMaj23 vs1 = vsMaj23 vs \<and>
    vsValSet vs1 = vsValSet vs \<and> vsChainID vs1 = vsChainID vs \<and>
    vsSignedMsgType vs1 = vsSignedMsgType vs \<and> vsPeerMaj23s vs1 = vsPeerMaj23s vs \<and>
    vsDone vs1 = vsDone vs"
proof -
  let ?b = "SetIndex (vsVotesBitArray vs) (int i) True"
  let ?votes = "(vsVotes vs)[i := Some vote]"
  have i: "i < length (vsVotes vs)" "vValidatorIndex vote = int i"
    using good core_invD(4) [OF core] by (simp_all add: good_vote_def)
  have power: "i64_add (vsSum vs) (VotingPower (members vs ! i)) =
      validators.power (members vs) (voters ?votes)" if "vsVotes vs ! i = None"
    unfolding core_invD(5) [OF core]
    using core_invD(1,4) [OF core] i(1) that by (intro add_power_exact) simp_all
  show ?thesis
  proof (cases "vsVotes vs ! i")
    case None
    have fresh: "bvVotes bv ! i = None" if "vsVotesByBlock vs (Key h) = Some bv" for h bv
    proof -
      have "i \<notin> voters (bvVotes bv)"
        using block_okD(5) [OF core_invD(6) [OF core that]] None by (auto simp: voters_def)
      then show ?thesis
        using block_okD(2) [OF core_invD(6) [OF core that]] core_invD(4) [OF core] i(1)
        by (simp add: voters_def)
    qed
    have "core_inv T (vs\<lparr>vsVotes := ?votes, vsVotesBitArray := ?b,
        vsSum := i64_add (vsSum vs) (VotingPower (members vs ! i))\<rparr>)"
      using fresh power [OF None] by (intro core_inv_set_vote [OF core good]) auto
    then show ?thesis using None i by (simp add: record_vote_def Let_def)
  next
    case (Some e)
    have ne: "vDataHash e \<noteq> vDataHash vote" using unk Some by (simp add: unknown_vote_def)
    show ?thesis
    proof (cases "vsMaj23 vs = Some (vDataHash vote)")
      case True
      have "voters ?votes = voters (vsVotes vs)"
        using i(1) Some voters_update [OF i(1), of vote] by (auto simp: voters_def)
      then have "core_inv T (vs\<lparr>vsVotes := ?votes, vsVotesBitArray := ?b, vsSum := vsSum vs\<rparr>)"
        using unk True core_invD(5) [OF core]
        by (intro core_inv_set_vote [OF core good]) (auto simp: unknown_vote_def)
      then show ?thesis using True Some ne i by (simp add: record_vote_def Let_def)
    next
      case False
      then show ?thesis
        using Some ne i core by (auto simp: record_vote_def Let_def split: option.splits)
    qed
  qed
qed

section \<open>Tracking a vote\<close>

definition counted :: "Vote \<Rightarrow> nat \<Rightarrow> int \<Rightarrow> blockVotes \<Rightarrow> blockVotes" where
  "counted vote i p bv = bv\<lparr>bvBitArray := SetIndex (bvBitArray bv) (int i) True,
     bvVotes := (bvVotes bv)[i := Some vote], bvSum := bvSum bv + p\<rparr>"

lemma counted_ok:
  assumes core: "core_inv T vs" and good: "good_in T vs i vote"
    and bv: "block_ok T vs (Key (vDataHash vote)) bv" and bvi: "bvVotes bv ! i = None"
    and voted: "i \<in> voters (vsVotes vs)"
  shows "blockVotes_addVerifiedVote vote (VotingPower (members vs ! i)) bv =
      Return (counted vote i (VotingPower (members vs ! i)) bv)"
    and "block_ok T vs (Key (vDataHash vote)) (counted vote i (VotingPower (members vs ! i)) bv)"
proof -
  have i: "i < length (members vs)" "vValidatorIndex vote = int i"
    using good by (simp_all add: good_vote_def)
  have len: "length (bvVotes bv) = length (members vs)" by (rule block_okD(2) [OF bv])
  note power = power_voters_update [OF len i(1) bvi, of vote]
    add_power_exact [OF core_invD(1) [OF core] len i(1) bvi, of vote]
  show "blockVotes_addVerifiedVote vote (VotingPower (members vs ! i)) bv =
      Return (counted vote i (VotingPower (members vs ! i)) bv)"
    using i len bvi power block_okD(4) [OF bv]
    by (simp add: blockVotes_addVerifiedVote_def Let_def counted_def)
  have "voters ((bvVotes bv)[i := Some vote]) \<subseteq> voters (vsVotes vs)"
    using voted block_okD(5) [OF bv] i len by (simp add: voters_update)
  moreover have "Key (vDataHash v) = Key (vDataHash vote)"
    if "j < length (bvVotes bv)" "(bvVotes bv)[i := Some vote] ! j = Some v" for j v
    using that block_okD(3) [OF bv, of j v] len by (cases "j = i") auto
  ultimately show "block_ok T vs (Key (vDataHash vote)) (counted vote i (VotingPower (members vs ! i)) bv)"
    using slots_ok_update [OF block_okD(1) [OF bv] good] power block_okD(4) [OF bv]
    by (simp add: block_ok_def counted_def)
qed

lemma counted_power:
  assumes "core_inv T vs" and "good_in T vs i vote"
  shows "0 \<le> VotingPower (members vs ! i)"
  using assms powers_okD(1) [OF core_invD(1) [OF assms(1)]] by (simp add: good_vote_def)

text \<open>Tracking without reaching the first majority.\<close>

definition tracked_as :: "'pk VoteSet \<Rightarrow> bytes \<Rightarrow> blockVotes \<Rightarrow> 'pk VoteSet" where
  "tracked_as vs k bv =
     vs\<lparr>vsValSet := cached (vsValSet vs), vsVotesByBlock := (vsVotesByBlock vs)(k \<mapsto> bv)\<rparr>"

lemma tracked_base:
  assumes base: "base_inv T vs" and bv: "block_ok T vs k bv"
  shows "base_inv T (tracked_as vs k bv)"
proof -
  let ?vs' = "tracked_as vs k bv"
  have same: "vsChainID ?vs' = vsChainID vs" "vsSignedMsgType ?vs' = vsSignedMsgType vs"
    "members ?vs' = members vs" "vsVotes ?vs' = vsVotes vs" by (simp_all add: tracked_as_def)
  have "block_ok T ?vs' k' bv'" if "vsVotesByBlock ?vs' k' = Some bv'" for k' bv'
  proof (rule block_ok_cong [of ?vs' vs])
    show "block_ok T vs k' bv'"
      using that bv base_invD(6) [OF base] by (auto simp: tracked_as_def split: if_splits)
  qed (simp_all add: same)
  then show ?thesis
    using base slots_ok_cong [OF same(1-3)]
    by (simp add: base_inv_def same) (simp add: tracked_as_def cache_ok_def)
qed

text \<open>Recording the first majority copies its votes to the canonical ones.\<close>

lemma majority_core:
  assumes base: "base_inv T vs" and bv: "vsVotesByBlock vs (Key h) = Some bv"
    and q: "validators.quorum (members vs) \<le> bvSum bv"
    and ws: "length ws = length (vsVotes vs)"
      "\<forall>j < length (vsVotes vs). ws ! j = (if bvVotes bv ! j \<noteq> None then bvVotes bv ! j else vsVotes vs ! j)"
  shows "core_inv T (vs\<lparr>vsMaj23 := Some h, vsVotes := ws\<rparr>)"
proof -
  let ?vs' = "vs\<lparr>vsMaj23 := Some h, vsVotes := ws\<rparr>"
  note block = base_invD(6) [OF base bv]
  have len: "length (bvVotes bv) = length (vsVotes vs)" "length (vsVotes vs) = length (members vs)"
    using block_okD(2) [OF block] base_invD(4) [OF base] by simp_all
  have "bvVotes bv ! j \<noteq> None \<longrightarrow> vsVotes vs ! j \<noteq> None" if "j < length (vsVotes vs)" for j
    using block_okD(5) [OF block] that len by (auto simp: voters_def)
  then have "ws ! j \<noteq> None \<longleftrightarrow> vsVotes vs ! j \<noteq> None" if "j < length (vsVotes vs)" for j
    using ws(2) that by simp
  then have voters: "voters ws = voters (vsVotes vs)" using ws(1) by (auto simp: voters_def)
  have "slots_ok T vs ws"
    using base_invD(3) [OF base] block_okD(1) [OF block] ws len
    by (auto simp: slots_ok_def split: if_splits)
  then have slots: "slots_ok T ?vs' (vsVotes ?vs')" using slots_ok_cong [of ?vs' vs] by simp
  have "block_ok T ?vs' k bv'" if "vsVotesByBlock vs k = Some bv'" for k bv'
    using base_invD(6) [OF base that] voters by (intro block_ok_cong [of ?vs' vs]) simp_all
  moreover have "majority_ok ?vs'" using bv q ws len by (simp add: majority_ok_def)
  ultimately show ?thesis
    using slots voters base_invD(1,2,5) [OF base]
    by (simp add: core_inv_def base_inv_def)
qed

lemma quorum_pos: "powers_ok vals \<Longrightarrow> 0 < validators.quorum vals"
  using validators.total_nonneg [of vals] by (simp add: validators.quorum_def)

text \<open>Without a new majority the old one, or its absence, still stands.\<close>

lemma tracked_majority:
  assumes core: "core_inv T vs" and i: "i < length (bvVotes bv)" and len: "length (bvVotes bv) = length (vsVotes vs)"
    and known: "vsVotesByBlock vs (Key h0) = Some bv \<or> vsVotesByBlock vs (Key h0) = None \<and> bvSum bv = 0"
    and maj: "vsMaj23 vs = Some h0 \<Longrightarrow> vsVotes vs ! i = Some vote"
    and bv': "bvVotes bv' = (bvVotes bv)[i := Some vote]" "bvSum bv \<le> bvSum bv'"
    and below: "\<not> (vsMaj23 vs = None \<and> validators.quorum (members vs) \<le> bvSum bv')"
  shows "majority_ok (tracked_as vs (Key h0) bv')"
proof -
  have same: "members (tracked_as vs (Key h0) bv') = members vs" "vsVotes (tracked_as vs (Key h0) bv') = vsVotes vs"
    "vsMaj23 (tracked_as vs (Key h0) bv') = vsMaj23 vs"
    "vsVotesByBlock (tracked_as vs (Key h0) bv') = (vsVotesByBlock vs)(Key h0 \<mapsto> bv')"
    by (simp_all add: tracked_as_def)
  show ?thesis
  proof (cases "vsMaj23 vs")
    case None
    then show ?thesis using below core_invD(7) [OF core] by (auto simp: majority_ok_def same)
  next
    case (Some h)
    then obtain bh where bh: "vsVotesByBlock vs (Key h) = Some bh" "validators.quorum (members vs) \<le> bvSum bh"
      "\<forall>j < length (bvVotes bh). bvVotes bh ! j \<noteq> None \<longrightarrow> vsVotes vs ! j = bvVotes bh ! j"
      using core_invD(7) [OF core] by (auto simp: majority_ok_def)
    show ?thesis
    proof (cases "h = h0")
      case True
      then have "bh = bv" using known bh(1) by auto
      then have "vsVotes vs ! j = bvVotes bv' ! j"
        if "j < length (bvVotes bv')" "bvVotes bv' ! j \<noteq> None" for j
        using that bh(3) maj Some True i by (cases "j = i") (auto simp: bv'(1))
      then show ?thesis using Some True bh \<open>bh = bv\<close> bv'(2) by (simp add: majority_ok_def same)
    next
      case False
      then show ?thesis using Some bh by (simp add: majority_ok_def same)
    qed
  qed
qed

lemma track_vote_ok:
  assumes core: "core_inv T vs" and good: "good_in T vs i vote"
    and bv: "block_ok T vs (Key (vDataHash vote)) bv" and bvi: "bvVotes bv ! i = None"
    and voted: "i \<in> voters (vsVotes vs)"
    and known: "vsVotesByBlock vs (Key (vDataHash vote)) = Some bv \<or>
      vsVotesByBlock vs (Key (vDataHash vote)) = None \<and> bvSum bv = 0"
    and maj: "vsMaj23 vs = Some (vDataHash vote) \<Longrightarrow> vsVotes vs ! i = Some vote"
  defines "bv' \<equiv> counted vote i (VotingPower (members vs ! i)) bv"
    and "vs1 \<equiv> tracked_as vs (Key (vDataHash vote)) (counted vote i (VotingPower (members vs ! i)) bv)"
  shows "\<exists>ws. track_vote vote (Key (vDataHash vote)) (VotingPower (members vs ! i)) bv vs =
      Return (if vsMaj23 vs = None \<and> validators.quorum (members vs) \<le> bvSum bv'
              then vs1\<lparr>vsMaj23 := Some (vDataHash vote), vsVotes := ws\<rparr> else vs1) \<and>
    core_inv T (if vsMaj23 vs = None \<and> validators.quorum (members vs) \<le> bvSum bv'
              then vs1\<lparr>vsMaj23 := Some (vDataHash vote), vsVotes := ws\<rparr> else vs1) \<and>
    length ws = length (vsVotes vs) \<and>
    (\<forall>j < length (vsVotes vs). ws ! j =
      (if bvVotes bv' ! j \<noteq> None then bvVotes bv' ! j else vsVotes vs ! j))"
proof -
  let ?k = "Key (vDataHash vote)" and ?q = "validators.quorum (members vs)"
  note count = counted_ok [OF core good bv bvi voted, folded bv'_def]
  have vs1: "vs1 = tracked_as vs ?k bv'" by (simp add: vs1_def bv'_def)
  have same: "members vs1 = members vs" "vsVotes vs1 = vsVotes vs" "vsMaj23 vs1 = vsMaj23 vs"
    "vsVotesByBlock vs1 = (vsVotesByBlock vs)(?k \<mapsto> bv')" by (simp_all add: vs1 tracked_as_def)
  have len: "length (bvVotes bv') = length (vsVotes vs)"
    using block_okD(2) [OF count(2)] core_invD(4) [OF core] by simp
  have base1: "base_inv T vs1" unfolding vs1 using core_base [OF core] count(2) by (rule tracked_base)
  have orig: "bvSum bv < ?q" if "vsMaj23 vs = None"
    using that known core_invD(7) [OF core] quorum_pos [OF core_invD(1) [OF core]]
    by (auto simp: majority_ok_def)
  have copy: "\<exists>ws. copy_votes 0 (bvVotes bv') (vsVotes vs) = Return ws \<and> length ws = length (vsVotes vs) \<and>
      (\<forall>j < length (vsVotes vs). ws ! j =
        (if bvVotes bv' ! j \<noteq> None then bvVotes bv' ! j else vsVotes vs ! j))"
    using copy_votes_ok [of 0 "bvVotes bv'" "vsVotes vs"] len
    by (simp only: add_0 diff_zero le0 simp_thms)
  then obtain ws where ws: "copy_votes 0 (bvVotes bv') (vsVotes vs) = Return ws"
    "length ws = length (vsVotes vs)" "\<forall>j < length (vsVotes vs). ws ! j =
      (if bvVotes bv' ! j \<noteq> None then bvVotes bv' ! j else vsVotes vs ! j)" by blast
  have total: "TotalVotingPower (vsValSet vs) = Return (cached (vsValSet vs), power_sum (members vs))"
    using core_invD(1,2) [OF core] by (rule TotalVotingPower_ok)
  have run: "track_vote vote ?k (VotingPower (members vs ! i)) bv vs =
      Return (if vsMaj23 vs = None \<and> ?q \<le> bvSum bv'
              then vs1\<lparr>vsMaj23 := Some (vDataHash vote), vsVotes := ws\<rparr> else vs1)"
    using orig ws(1) total count(1) two_thirds_eq(2) [OF core_invD(1) [OF core]]
    by (auto simp: track_vote_def Let_def vs1 tracked_as_def)
  have le: "bvSum bv \<le> bvSum bv'"
    using counted_power [OF core good] by (simp add: bv'_def counted_def)
  show ?thesis
  proof (cases "vsMaj23 vs = None \<and> ?q \<le> bvSum bv'")
    case False
    have "length (bvVotes bv) = length (vsVotes vs)" "i < length (bvVotes bv)"
      using block_okD(2) [OF bv] core_invD(4) [OF core] good by (simp_all add: good_vote_def)
    from tracked_majority [OF core this(2,1) known maj _ le False] have "majority_ok vs1"
      unfolding vs1 by (simp add: bv'_def counted_def)
    then have "core_inv T vs1" using base1 by (simp add: core_inv_def)
    then show ?thesis using run ws False by auto
  next
    case True
    have core1: "core_inv T (vs1\<lparr>vsMaj23 := Some (vDataHash vote), vsVotes := ws\<rparr>)"
    proof (rule majority_core [OF base1, where bv = bv'])
      show "vsVotesByBlock vs1 ?k = Some bv'" by (simp add: same)
      show "validators.quorum (members vs1) \<le> bvSum bv'" using conjunct2 [OF True] by (simp only: same)
      show "length ws = length (vsVotes vs1)" "\<forall>j < length (vsVotes vs1). ws ! j =
          (if bvVotes bv' ! j \<noteq> None then bvVotes bv' ! j else vsVotes vs1 ! j)"
        using ws(2,3) by (simp_all only: same)
    qed
    then show ?thesis using run ws True by auto
  qed
qed

lemma backed_iff:
  "backed vs j \<longleftrightarrow> (\<forall>v. vsVotes vs ! j = Some v \<longrightarrow> vsMaj23 vs = Some (vDataHash v) \<or>
     (\<exists>b. vsVotesByBlock vs (Key (vDataHash v)) = Some b \<and> bvVotes b ! j = Some v))"
  by (auto simp: backed_def split: option.splits)

lemma backed_tracked:
  assumes bv: "block_ok T vs k bv'" and k: "k = Key (vDataHash vote)"
    and bv': "bvVotes bv' = (bvVotes bv)[i := Some vote]" "i < length (bvVotes bv)"
    and bvi: "bvVotes bv ! i = None" and j: "j < length (members vs)"
    and known: "vsVotesByBlock vs k = Some bv \<or> vsVotesByBlock vs k = None"
    and ok: "backed vs j \<or> j = i \<and> vsVotes vs ! i = Some vote"
    and ws: "ws ! j = (if bvVotes bv' ! j \<noteq> None then bvVotes bv' ! j else vsVotes vs ! j)"
  shows "backed (tracked_as vs k bv') j"
    and "vsMaj23 vs = None \<Longrightarrow> backed ((tracked_as vs k bv')\<lparr>vsMaj23 := Some h, vsVotes := ws\<rparr>) j"
proof -
  let ?B = "(vsVotesByBlock vs)(k \<mapsto> bv')"
  have at: "\<exists>b. ?B (Key (vDataHash v)) = Some b \<and> bvVotes b ! j = Some v"
    if v: "vsVotes vs ! j = Some v" "vsMaj23 vs \<noteq> Some (vDataHash v)" for v
  proof (cases "j = i \<and> v = vote")
    case True
    then show ?thesis using k bv' by simp
  next
    case False
    then have "backed vs j" using ok v by auto
    then obtain b where b: "vsVotesByBlock vs (Key (vDataHash v)) = Some b" "bvVotes b ! j = Some v"
      using v by (auto simp: backed_iff)
    show ?thesis
    proof (cases "Key (vDataHash v) = k")
      case True
      then have "b = bv" using b known by auto
      then have "j \<noteq> i" using b bvi by auto
      then show ?thesis using True b \<open>b = bv\<close> bv' by simp
    next
      case False
      then show ?thesis using b by simp
    qed
  qed
  show "backed (tracked_as vs k bv') j"
    unfolding backed_iff
  proof (intro allI impI)
    fix v assume "vsVotes (tracked_as vs k bv') ! j = Some v"
    then show "vsMaj23 (tracked_as vs k bv') = Some (vDataHash v) \<or>
        (\<exists>b. vsVotesByBlock (tracked_as vs k bv') (Key (vDataHash v)) = Some b \<and> bvVotes b ! j = Some v)"
      using at [of v] by (cases "vsMaj23 vs = Some (vDataHash v)")
        (simp_all add: tracked_as_def del: fun_upd_apply)
  qed
  show "backed ((tracked_as vs k bv')\<lparr>vsMaj23 := Some h, vsVotes := ws\<rparr>) j" if "vsMaj23 vs = None"
  proof (cases "bvVotes bv' ! j")
    case None
    then have "ws ! j = vsVotes vs ! j" using ws by simp
    then show ?thesis unfolding backed_iff using at that
      by (simp add: tracked_as_def del: fun_upd_apply)
  next
    case (Some w)
    then have "Key (vDataHash w) = k" using block_okD(3) [OF bv j] by simp
    then show ?thesis using Some ws by (simp add: backed_def tracked_as_def)
  qed
qed

text \<open>Everything about the vote set that \<open>addVerifiedVote\<close> leaves alone.\<close>

definition same_setting :: "'pk VoteSet \<Rightarrow> 'pk VoteSet \<Rightarrow> bool" where
  "same_setting vs vs' \<longleftrightarrow> vsChainID vs' = vsChainID vs \<and> vsSignedMsgType vs' = vsSignedMsgType vs \<and>
     members vs' = members vs \<and> vsPeerMaj23s vs' = vsPeerMaj23s vs \<and> vsDone vs' = vsDone vs \<and>
     (\<forall>h. vsMaj23 vs = Some h \<longrightarrow> vsMaj23 vs' = Some h)"

lemma newBlockVotes_ok:
  "block_ok T vs k (newBlockVotes p (length (members vs)))"
  "bvSum (newBlockVotes p n) = 0" "bvVotes (newBlockVotes p n) = replicate n None"
  "bvPeerMaj23 (newBlockVotes p n) = p"
  by (simp_all add: newBlockVotes_def block_ok_def slots_ok_def)

lemma tracking_keeps:
  assumes core: "core_inv T vs" and good: "good_in T vs i vote"
    and bv: "block_ok T vs (Key (vDataHash vote)) bv" and bvi: "bvVotes bv ! i = None"
    and voted: "i \<in> voters (vsVotes vs)"
    and known: "vsVotesByBlock vs (Key (vDataHash vote)) = Some bv \<or>
      vsVotesByBlock vs (Key (vDataHash vote)) = None \<and> bvSum bv = 0"
    and maj: "vsMaj23 vs = Some (vDataHash vote) \<Longrightarrow> vsVotes vs ! i = Some vote"
    and backed: "\<And>j. j < length (vsVotes vs) \<Longrightarrow> backed vs j \<or> j = i \<and> vsVotes vs ! i = Some vote"
  shows "\<exists>vs'. track_vote vote (Key (vDataHash vote)) (VotingPower (members vs ! i)) bv vs = Return vs' \<and>
    vote_inv T vs' \<and> same_setting vs vs' \<and>
    vsVotesByBlock vs' = (vsVotesByBlock vs)
      (Key (vDataHash vote) \<mapsto> counted vote i (VotingPower (members vs ! i)) bv)"
proof -
  let ?k = "Key (vDataHash vote)" and ?bv' = "counted vote i (VotingPower (members vs ! i)) bv"
  let ?vs1 = "tracked_as vs ?k ?bv'"
  let ?reached = "vsMaj23 vs = None \<and> validators.quorum (members vs) \<le> bvSum ?bv'"
  from track_vote_ok [OF core good bv bvi voted known maj] obtain ws where
    run: "track_vote vote ?k (VotingPower (members vs ! i)) bv vs =
      Return (if ?reached then ?vs1\<lparr>vsMaj23 := Some (vDataHash vote), vsVotes := ws\<rparr> else ?vs1)"
    and inv: "core_inv T (if ?reached then ?vs1\<lparr>vsMaj23 := Some (vDataHash vote), vsVotes := ws\<rparr> else ?vs1)"
    and ws: "length ws = length (vsVotes vs)" "\<forall>j < length (vsVotes vs). ws ! j =
      (if bvVotes ?bv' ! j \<noteq> None then bvVotes ?bv' ! j else vsVotes vs ! j)" by blast
  have len: "length (bvVotes bv) = length (vsVotes vs)" "length (vsVotes vs) = length (members vs)"
    using block_okD(2) [OF bv] core_invD(4) [OF core] by simp_all
  have i: "i < length (bvVotes bv)" using good len by (simp add: good_vote_def)
  have bv': "bvVotes ?bv' = (bvVotes bv)[i := Some vote]" by (simp add: counted_def)
  have known': "vsVotesByBlock vs ?k = Some bv \<or> vsVotesByBlock vs ?k = None" using known by (elim disjE) simp_all
  note bk = backed_tracked [OF counted_ok(2) [OF core good bv bvi voted] refl bv' i bvi _ known' backed]
  have "backed (if ?reached then ?vs1\<lparr>vsMaj23 := Some (vDataHash vote), vsVotes := ws\<rparr> else ?vs1) j"
    if "j < length (vsVotes vs)" for j
    using that bk(1) [of j ws] bk(2) [of j ws "vDataHash vote"] ws(2) len by simp
  then have "vote_inv T (if ?reached then ?vs1\<lparr>vsMaj23 := Some (vDataHash vote), vsVotes := ws\<rparr> else ?vs1)"
    using inv ws(1) by (auto simp: vote_inv_def tracked_as_def split: if_splits)
  then show ?thesis
    using run by (auto simp: same_setting_def tracked_as_def)
qed

section \<open>Adding a vote\<close>

lemma vote_invD:
  assumes "vote_inv T vs"
  shows "core_inv T vs" "j < length (vsVotes vs) \<Longrightarrow> backed vs j"
  using assms by (simp_all add: vote_inv_def)

text \<open>What recording a good vote leaves for tracking it.\<close>

lemma record_vote_backed:
  assumes inv: "vote_inv T vs" and good: "good_in T vs i vote" and unk: "unknown_vote vs i vote"
  obtains vs1 where
    "record_vote vote (Key (vDataHash vote)) (VotingPower (members vs ! i)) vs = Return (vs1, vsVotes vs ! i)"
    "core_inv T vs1" "vsVotesByBlock vs1 = vsVotesByBlock vs" "vsValSet vs1 = vsValSet vs" "same_setting vs vs1"
    "i \<in> voters (vsVotes vs1)" "vsVotes vs ! i \<noteq> None \<Longrightarrow> vote_inv T vs1"
    "vsMaj23 vs1 = Some (vDataHash vote) \<Longrightarrow> vsVotes vs1 ! i = Some vote"
    "\<And>j. j < length (vsVotes vs1) \<Longrightarrow> backed vs1 j \<or> j = i \<and> vsVotes vs1 ! i = Some vote"
proof -
  note core = vote_invD(1) [OF inv]
  from record_vote_ok [OF core good unk] obtain vs1 where
    rec: "record_vote vote (Key (vDataHash vote)) (VotingPower (members vs ! i)) vs = Return (vs1, vsVotes vs ! i)"
    and core1: "core_inv T vs1"
    and votes1: "vsVotes vs1 = (if vsVotes vs ! i = None \<or> vsMaj23 vs = Some (vDataHash vote)
      then (vsVotes vs)[i := Some vote] else vsVotes vs)"
    and same1: "vsVotesByBlock vs1 = vsVotesByBlock vs" "vsMaj23 vs1 = vsMaj23 vs"
      "vsValSet vs1 = vsValSet vs" "vsChainID vs1 = vsChainID vs"
      "vsSignedMsgType vs1 = vsSignedMsgType vs" "vsPeerMaj23s vs1 = vsPeerMaj23s vs"
      "vsDone vs1 = vsDone vs" by blast
  have i: "i < length (vsVotes vs)" using good core_invD(4) [OF core] by (simp add: good_vote_def)
  have len: "length (vsVotes vs1) = length (vsVotes vs)" by (simp add: votes1)
  have keep: "backed vs1 j" if "j < length (vsVotes vs)" "vsVotes vs1 ! j = vsVotes vs ! j" for j
    using vote_invD(2) [OF inv that(1)] unfolding backed_iff same1 that(2) .
  have back1: "backed vs1 j \<or> j = i \<and> vsVotes vs1 ! i = Some vote" if "j < length (vsVotes vs1)" for j
    using keep [of j] that [unfolded len] i by (cases "j = i") (auto simp: votes1)
  have "backed vs1 j" if "vsVotes vs ! i \<noteq> None" "j < length (vsVotes vs)" for j
  proof (cases "vsMaj23 vs = Some (vDataHash vote) \<and> j = i")
    case True
    then show ?thesis using i that(1) by (simp add: backed_def votes1 same1)
  next
    case False
    then show ?thesis using keep [OF that(2)] that(1) by (auto simp: votes1)
  qed
  then have inv1: "vote_inv T vs1" if "vsVotes vs ! i \<noteq> None" using core1 len that by (simp add: vote_inv_def)
  have maj1: "vsVotes vs1 ! i = Some vote" if "vsMaj23 vs1 = Some (vDataHash vote)"
    using that i by (simp add: votes1 same1)
  have "same_setting vs vs1" "i \<in> voters (vsVotes vs1)"
    using i by (auto simp: same_setting_def same1 voters_def votes1)
  then show ?thesis using that [OF rec core1 same1(1,3) _ _ inv1 maj1 back1] by blast
qed

lemma addVerifiedVote_ok:
  assumes inv: "vote_inv T vs" and good: "good_in T vs i vote" and unk: "unknown_vote vs i vote"
  shows "\<exists>vs' added. VoteSet_addVerifiedVote vote (Key (vDataHash vote)) (VotingPower (members vs ! i)) vs =
      Return (vs', added, vsVotes vs ! i) \<and> vote_inv T vs' \<and> same_setting vs vs' \<and>
    (vsVotes vs ! i = None \<longrightarrow> added)"
proof (rule record_vote_backed [OF assms])
  let ?k = "Key (vDataHash vote)" and ?p = "VotingPower (members vs ! i)"
  fix vs1 assume rec: "record_vote vote ?k ?p vs = Return (vs1, vsVotes vs ! i)" and core1: "core_inv T vs1"
    and same1: "vsVotesByBlock vs1 = vsVotesByBlock vs" "vsValSet vs1 = vsValSet vs"
    and setting1: "same_setting vs vs1" and voted: "i \<in> voters (vsVotes vs1)"
    and inv1: "vsVotes vs ! i \<noteq> None \<Longrightarrow> vote_inv T vs1"
    and maj1: "vsMaj23 vs1 = Some (vDataHash vote) \<Longrightarrow> vsVotes vs1 ! i = Some vote"
    and back1: "\<And>j. j < length (vsVotes vs1) \<Longrightarrow> backed vs1 j \<or> j = i \<and> vsVotes vs1 ! i = Some vote"
  have good1: "good_in T vs1 i vote" using good setting1 by (simp add: same_setting_def)
  have track: "\<exists>vs'. track_vote vote ?k ?p bv vs1 = Return vs' \<and> vote_inv T vs' \<and> same_setting vs vs'"
    if bv: "block_ok T vs1 ?k bv" "bvVotes bv ! i = None"
      "vsVotesByBlock vs1 ?k = Some bv \<or> vsVotesByBlock vs1 ?k = None \<and> bvSum bv = 0" for bv
    using tracking_keeps [OF core1 good1 bv(1,2) voted bv(3) maj1 back1] setting1
    by (fastforce simp: same1 same_setting_def)
  show ?thesis
  proof (cases "vsVotesByBlock vs ?k")
    case (Some bv)
    have bv: "block_ok T vs1 ?k bv" using core_invD(6) [OF core1] Some by (simp add: same1)
    have bvi: "bvVotes bv ! i = None" using unk Some by (simp add: unknown_vote_def)
    show ?thesis
    proof (cases "vsVotes vs ! i \<noteq> None \<and> \<not> bvPeerMaj23 bv")
      case True
      then show ?thesis using rec Some inv1 setting1
        by (intro exI [of _ vs1] exI [of _ False]) (simp add: VoteSet_addVerifiedVote_def same1)
    next
      case False
      then show ?thesis using rec Some track [OF bv bvi] by (auto simp: VoteSet_addVerifiedVote_def same1)
    qed
  next
    case None
    show ?thesis
    proof (cases "vsVotes vs ! i")
      case (Some e)
      then show ?thesis using rec None inv1 setting1
        by (intro exI [of _ vs1] exI [of _ False]) (simp add: VoteSet_addVerifiedVote_def same1)
    next
      case fresh: None
      let ?bv = "newBlockVotes False (Size (vsValSet vs1))"
      have "bvVotes ?bv ! i = None" "block_ok T vs1 ?k ?bv"
        using good1 newBlockVotes_ok(1) [of T vs1] by (simp_all add: newBlockVotes_ok Size_def good_vote_def)
      then show ?thesis
        using rec None fresh track [of ?bv] by (auto simp: VoteSet_addVerifiedVote_def same1 newBlockVotes_ok)
    qed
  qed
qed

text \<open>A vote the code calls known: it is stored under its index for its hash.\<close>

definition known_vote :: "'pk VoteSet \<Rightarrow> nat \<Rightarrow> DataHash \<Rightarrow> Vote option" where
  "known_vote vs i h =
     (case vsVotes vs ! i of
        Some e \<Rightarrow> if vDataHash e = h then Some e
          else (case vsVotesByBlock vs (Key h) of None \<Rightarrow> None | Some bv \<Rightarrow> bvVotes bv ! i)
      | None \<Rightarrow> (case vsVotesByBlock vs (Key h) of None \<Rightarrow> None | Some bv \<Rightarrow> bvVotes bv ! i))"

lemma VoteSet_getVote_ok:
  assumes "core_inv T vs" and "i < length (members vs)"
  shows "VoteSet_getVote (int i) (Key h) vs = Return (known_vote vs i h)"
proof -
  have len: "length (vsVotes vs) = length (members vs)" by (rule core_invD(4) [OF assms(1)])
  have "blockVotes_getByIndex (vsVotesByBlock vs (Key h)) (int i) =
      Return (case vsVotesByBlock vs (Key h) of None \<Rightarrow> None | Some bv \<Rightarrow> bvVotes bv ! i)"
    using block_okD(2) [OF core_invD(6) [OF assms(1)]] assms(2)
    by (auto simp: blockVotes_getByIndex_def split: option.splits)
  then show ?thesis
    using assms(2) len by (auto simp: VoteSet_getVote_def known_vote_def split: option.splits)
qed

lemma unknown_iff: "known_vote vs i (vDataHash vote) = None \<longleftrightarrow> unknown_vote vs i vote"
  by (auto simp: known_vote_def unknown_vote_def split: option.splits)

lemma good_GetByIndex:
  assumes "i < length (members vs)"
  shows "GetByIndex (vsValSet vs) (int i) = Some (Address (members vs ! i), members vs ! i)"
  using assms by (simp add: GetByIndex_def Let_def)

text \<open>What AddVote checks before it looks at the signature.\<close>

definition addressed :: "'pk VoteSet \<Rightarrow> Vote \<Rightarrow> nat \<Rightarrow> bool" where
  "addressed vs vote i \<longleftrightarrow> vValidatorIndex vote = int i \<and> i < length (members vs) \<and>
     vValidatorAddress vote = Address (members vs ! i) \<and> vValidatorAddress vote \<noteq> [] \<and>
     vType vote = vsSignedMsgType vs"

text \<open>The validator's key verifies the vote.\<close>

definition authentic :: "'pk tm \<Rightarrow> 'pk VoteSet \<Rightarrow> nat \<Rightarrow> Vote \<Rightarrow> bool" where
  "authentic T vs i vote \<longleftrightarrow>
     (case PubKey (members vs ! i) of
        None \<Rightarrow> False
      | Some k \<Rightarrow> PubKey_Address T k = vValidatorAddress vote \<and> signed_by T (vsChainID vs) k vote)"

text \<open>What can be marshalled can be checked: the vote is well formed for signing.\<close>

definition checkable :: "'pk tm \<Rightarrow> 'pk VoteSet \<Rightarrow> Vote \<Rightarrow> bool" where
  "checkable T vs vote \<longleftrightarrow> hash_ok T (vDataHash vote) \<and> marshals T (vsChainID vs) vote"

lemma good_in_iff:
  "good_in T vs i vote \<longleftrightarrow> addressed vs vote i \<and> checkable T vs vote \<and> authentic T vs i vote"
  by (auto simp: good_vote_def addressed_def authentic_def checkable_def)

definition keys_set :: "'pk VoteSet \<Rightarrow> bool" where
  "keys_set vs \<longleftrightarrow> (\<forall>v \<in> set (members vs). PubKey v \<noteq> None)"

lemma Vote_Verify_authentic:
  assumes "checkable T vs vote" and "keys_set vs" and "i < length (members vs)"
  shows "\<exists>err. Vote_Verify T vote (vsChainID vs) (PubKey (members vs ! i)) = Return err \<and>
    (err = None \<longleftrightarrow> authentic T vs i vote)"
proof -
  obtain k where "PubKey (members vs ! i) = Some k"
    using assms(2,3) by (fastforce simp: keys_set_def)
  then show ?thesis
    using assms(1) Vote_Verify_eq [where T = T and v = vote and chainID = "vsChainID vs" and k = k]
    by (auto simp: checkable_def authentic_def)
qed

text \<open>What no operation changes: chain, type, members and a recorded majority.\<close>

definition extends :: "'pk VoteSet \<Rightarrow> 'pk VoteSet \<Rightarrow> bool" where
  "extends vs vs' \<longleftrightarrow> vsChainID vs' = vsChainID vs \<and> vsSignedMsgType vs' = vsSignedMsgType vs \<and>
     members vs' = members vs \<and> (\<forall>h. vsMaj23 vs = Some h \<longrightarrow> vsMaj23 vs' = Some h) \<and>
     (vsDone vs \<longrightarrow> vsDone vs')"

lemma extends_refl [simp]: "extends vs vs"
  by (simp add: extends_def)

lemma extends_trans: "extends a b \<Longrightarrow> extends b c \<Longrightarrow> extends a c"
  by (simp add: extends_def)

lemma same_setting_extends: "same_setting vs vs' \<Longrightarrow> extends vs vs'"
  by (simp add: same_setting_def extends_def)

lemma extends_good: "extends vs vs' \<Longrightarrow> good_in T vs' i v = good_in T vs i v"
  by (simp add: extends_def)

lemma vote_inv_done:
  assumes "vote_inv T vs" and "vsMaj23 vs \<noteq> None"
  shows "vote_inv T (vs\<lparr>vsDone := True\<rparr>)"
proof -
  let ?vs' = "vs\<lparr>vsDone := True\<rparr>"
  have "block_ok T ?vs' k bv" if "vsVotesByBlock vs k = Some bv" for k bv
    using that core_invD(6) [OF vote_invD(1) [OF assms(1)]] by (intro block_ok_cong [of ?vs' vs]) simp_all
  moreover have "slots_ok T ?vs' (vsVotes vs)"
    using core_invD(3) [OF vote_invD(1) [OF assms(1)]] slots_ok_cong [of ?vs' vs] by simp
  moreover have "backed ?vs' j = backed vs j" for j unfolding backed_iff by simp
  moreover have "majority_ok ?vs' = majority_ok vs"
    by (simp add: majority_ok_def cong: option.case_cong)
  ultimately show ?thesis
    using assms by (simp add: vote_inv_def core_inv_def base_inv_def)
qed

lemma addVote_not_addressed:
  assumes "\<nexists>i. addressed vs vote i"
  shows "\<exists>err. VoteSet_addVote T (Some vote) vs = Return (vs, False, Some err)"
proof (cases "vValidatorIndex vote < 0 \<or> vValidatorAddress vote = [] \<or> vType vote \<noteq> vsSignedMsgType vs")
  case True
  then show ?thesis by (auto simp: VoteSet_addVote_def Let_def)
next
  case False
  show ?thesis
  proof (cases "GetByIndex (vsValSet vs) (vValidatorIndex vote)")
    case None
    then show ?thesis using False by (simp add: VoteSet_addVote_def Let_def)
  next
    case (Some p)
    then obtain a v where p: "p = (a, v)" "nat (vValidatorIndex vote) < length (members vs)"
      "a = Address (members vs ! nat (vValidatorIndex vote))"
      using GetByIndex_Some [of "vsValSet vs" "vValidatorIndex vote" "fst p" "snd p"] False
      by (cases p) auto
    then have "vValidatorAddress vote \<noteq> a"
      using assms False by (auto simp: addressed_def dest: spec [of _ "nat (vValidatorIndex vote)"])
    then show ?thesis using Some False p by (simp add: VoteSet_addVote_def Let_def)
  qed
qed

lemma addVote_addressed:
  assumes "core_inv T vs" and "addressed vs vote i"
  shows "VoteSet_addVote T (Some vote) vs =
    (case known_vote vs i (vDataHash vote) of
       Some e \<Rightarrow> Return (vs, False, if vSignature e = vSignature vote then None
                                   else Some ErrVoteNonDeterministicSignature)
     | None \<Rightarrow>
         obind (Vote_Verify T vote (vsChainID vs) (PubKey (members vs ! i))) (\<lambda>err. case err of
           Some e \<Rightarrow> Return (vs, False, Some e)
         | None \<Rightarrow>
             obind (VoteSet_addVerifiedVote vote (Key (vDataHash vote)) (VotingPower (members vs ! i)) vs)
               (\<lambda>(vs', added, conflicting). case conflicting of
                 Some c \<Rightarrow> Return (vs', added, Some (ErrVoteConflictingVotes c vote))
               | None \<Rightarrow>
                   if \<not> added then Panic PanicNotAdded
                   else if vsMaj23 vs' \<noteq> None then Return (vs'\<lparr>vsDone := True\<rparr>, added, None)
                   else Return (vs', added, None))))"
proof -
  have i: "vValidatorIndex vote = int i" "i < length (members vs)"
    using assms(2) by (simp_all add: addressed_def)
  have has: "HasTwoThirdsMajority (Some w) \<longleftrightarrow> vsMaj23 w \<noteq> None" for w :: "'a VoteSet"
    by (simp add: HasTwoThirdsMajority_def)
  have guards: "vValidatorAddress vote = Address (members vs ! i)" "length (Address (members vs ! i)) \<noteq> 0"
    "vType vote = vsSignedMsgType vs"
    using assms(2) by (auto simp: addressed_def)
  show ?thesis
    unfolding VoteSet_addVote_def option.case Let_def i(1) guards good_GetByIndex [OF i(2)] prod.case
      VoteSet_getVote_ok [OF assms(1) i(2)] has NewConflictingVoteError_def
    using guards(2) by (simp split: option.split)
qed

lemma addVote_ok:
  assumes inv: "vote_inv T vs" and keys: "keys_set vs" and ok: "checkable T vs vote"
    and adr: "addressed vs vote i" and new: "known_vote vs i (vDataHash vote) = None"
  shows "\<exists>vs' added err. VoteSet_addVote T (Some vote) vs = Return (vs', added, err) \<and>
    vote_inv T vs' \<and> extends vs vs' \<and>
    (if authentic T vs i vote
     then err = map_option (\<lambda>e. ErrVoteConflictingVotes e vote) (vsVotes vs ! i) \<and>
       (vsVotes vs ! i = None \<longrightarrow> added \<and> (vsMaj23 vs' \<noteq> None \<longrightarrow> vsDone vs'))
     else vs' = vs \<and> \<not> added \<and> err \<noteq> None)"
proof -
  have i: "i < length (members vs)" using adr by (simp add: addressed_def)
  obtain err where v: "Vote_Verify T vote (vsChainID vs) (PubKey (members vs ! i)) = Return err"
    "err = None \<longleftrightarrow> authentic T vs i vote" using Vote_Verify_authentic [OF ok keys i] by blast
  note run = addVote_addressed [OF vote_invD(1) [OF inv] adr]
  show ?thesis
  proof (cases "authentic T vs i vote")
    case False
    then show ?thesis using run new v inv by (cases err) auto
  next
    case True
    then have good: "good_in T vs i vote" using adr ok by (simp add: good_in_iff)
    have unk: "unknown_vote vs i vote" using new by (simp add: unknown_iff)
    from addVerifiedVote_ok [OF inv good unk] obtain vs' added where
      add: "VoteSet_addVerifiedVote vote (Key (vDataHash vote)) (VotingPower (members vs ! i)) vs =
        Return (vs', added, vsVotes vs ! i)" "vote_inv T vs'" "same_setting vs vs'"
        "vsVotes vs ! i = None \<longrightarrow> added" by (elim exE conjE) (rule that)
    note ext = same_setting_extends [OF add(3)]
    show ?thesis
    proof (cases "vsVotes vs ! i")
      case (Some e)
      then show ?thesis using run new v True add(1,2) ext by simp
    next
      case None
      then have a: "added" using add(4) by simp
      show ?thesis
      proof (cases "vsMaj23 vs'")
        case None
        then show ?thesis using run new v True add ext a \<open>vsVotes vs ! i = None\<close>
          by (intro exI [of _ vs'] exI [of _ True]) simp
      next
        case (Some h)
        then have "vote_inv T (vs'\<lparr>vsDone := True\<rparr>)" using add(2) by (intro vote_inv_done) simp_all
        moreover have "extends vs (vs'\<lparr>vsDone := True\<rparr>)" using ext by (simp add: extends_def)
        ultimately show ?thesis using run new v True add(1) a Some \<open>vsVotes vs ! i = None\<close>
          by (intro exI [of _ "vs'\<lparr>vsDone := True\<rparr>"] exI [of _ True]) simp
      qed
    qed
  qed
qed

end
