(* ===== verification/Con_VoteHistory.thy ===== *)
theory Con_VoteHistory
  imports Con_Tally Con_SetHistory
begin

text \<open>
  The life of a vote set: created empty, then votes and claims of peers in any order. The
  contract proved here is that of the library: what is recorded was signed, a majority is
  final and backed by a quorum of signatures, and two different majorities expose more than
  a third of the power as double signers.
\<close>

section \<open>Every operation keeps the invariant\<close>

lemma NewVoteSet_inv:
  assumes "powers_ok (Proposers s)" and "cache_ok s"
  shows "vote_inv T (NewVoteSet chainID t s)"
proof -
  let ?vs = "NewVoteSet chainID t s"
  have "slots_ok T ?vs (vsVotes ?vs)" by (simp add: slots_ok_def NewVoteSet_def Size_def)
  moreover have "majority_ok ?vs" by (simp add: majority_ok_def NewVoteSet_def)
  moreover have "backed ?vs j" if "j < length (vsVotes ?vs)" for j
    using that by (simp add: backed_def NewVoteSet_def)
  ultimately show ?thesis
    using assms by (simp add: vote_inv_def core_inv_def base_inv_def) (simp add: NewVoteSet_def)
qed

lemma Vote_Verify_None:
  assumes "Vote_Verify T vote chainID k = Return None"
  shows "hash_ok T (vDataHash vote) \<and> marshals T chainID vote \<and>
    (\<exists>pk. k = Some pk \<and> PubKey_Address T pk = vValidatorAddress vote \<and> signed_by T chainID pk vote)"
proof -
  obtain pk where k: "k = Some pk" using assms by (cases k) (auto simp: Vote_Verify_def)
  have adr: "PubKey_Address T pk = vValidatorAddress vote"
    using assms by (auto simp: Vote_Verify_def k split: if_splits)
  have "hash_ok T (vDataHash vote) \<and> marshals T chainID vote"
    using assms adr VoteSignBytes_pb [of T chainID vote]
    by (auto simp: Vote_Verify_def k Vote_ToProto_def split: if_splits)
  then show ?thesis using Vote_Verify_eq [where T = T and v = vote and chainID = chainID and k = pk] assms k adr by (auto split: if_splits)
qed

text \<open>
  A vote with an index of its own is refused and leaves the set as it was, or it is a vote its
  member signed, new to the set, and is added.
\<close>

lemma addVote_cases:
  assumes core: "core_inv T vs" and adr: "addressed vs vote i"
    and run: "VoteSet_addVote T (Some vote) vs = Return (vs', added, err)"
  obtains (refused) "vs' = vs" and "known_vote vs i (vDataHash vote) \<noteq> None \<or> \<not> good_in T vs i vote"
  | (verified) w a c where "good_in T vs i vote" and "unknown_vote vs i vote"
      and "VoteSet_addVerifiedVote vote (Key (vDataHash vote)) (VotingPower (members vs ! i)) vs = Return (w, a, c)"
      and "vs' = w \<or> c = None \<and> vsMaj23 w \<noteq> None \<and> vs' = w\<lparr>vsDone := True\<rparr>"
proof (cases "known_vote vs i (vDataHash vote)")
  case (Some e)
  then show ?thesis using run addVote_addressed [OF core adr] by (intro refused) simp_all
next
  case new: None
  note eq = addVote_addressed [OF core adr, unfolded new run]
  show ?thesis
  proof (cases "Vote_Verify T vote (vsChainID vs) (PubKey (members vs ! i)) = Return None")
    case True
    then have "good_in T vs i vote"
      using Vote_Verify_None [of T vote "vsChainID vs" "PubKey (members vs ! i)"] adr
      by (auto simp: good_in_iff authentic_def checkable_def)
    moreover obtain w a c where add: "VoteSet_addVerifiedVote vote (Key (vDataHash vote))
        (VotingPower (members vs ! i)) vs = Return (w, a, c)"
      using eq True
      by (cases "VoteSet_addVerifiedVote vote (Key (vDataHash vote)) (VotingPower (members vs ! i)) vs") auto
    moreover have "vs' = w \<or> c = None \<and> vsMaj23 w \<noteq> None \<and> vs' = w\<lparr>vsDone := True\<rparr>"
      using eq True add by (auto split: option.splits if_splits)
    ultimately show ?thesis using verified new by (simp add: unknown_iff)
  next
    case False
    then have "\<not> good_in T vs i vote"
      using Vote_Verify_eq [where T = T and v = vote and chainID = "vsChainID vs"]
      by (auto simp: good_vote_def split: option.splits)
    moreover have "vs' = vs"
      using eq False by (cases "Vote_Verify T vote (vsChainID vs) (PubKey (members vs ! i))") (auto split: option.splits)
    ultimately show ?thesis by (intro refused) simp_all
  qed
qed

lemma addVote_keeps:
  assumes inv: "vote_inv T vs" and run: "VoteSet_addVote T vote_ptr vs = Return (vs', added, err)"
  shows "vote_inv T vs' \<and> extends vs vs'"
proof (cases vote_ptr)
  case None
  then show ?thesis using assms by (simp add: VoteSet_addVote_def)
next
  case (Some vote)
  show ?thesis
  proof (cases "\<exists>i. addressed vs vote i")
    case False
    then show ?thesis using addVote_not_addressed [OF False, of T] run inv Some by auto
  next
    case True
    then obtain i where adr: "addressed vs vote i" by blast
    show ?thesis
    proof (rule addVote_cases [OF vote_invD(1) [OF inv] adr run [unfolded Some]])
      assume "vs' = vs"
      then show ?thesis using inv by simp
    next
      fix w a c
      assume good: "good_in T vs i vote" "unknown_vote vs i vote"
        and add: "VoteSet_addVerifiedVote vote (Key (vDataHash vote)) (VotingPower (members vs ! i)) vs = Return (w, a, c)"
        and vs': "vs' = w \<or> c = None \<and> vsMaj23 w \<noteq> None \<and> vs' = w\<lparr>vsDone := True\<rparr>"
      have w: "vote_inv T w" "extends vs w"
        using addVerifiedVote_ok [OF inv good] add same_setting_extends by auto
      then show ?thesis using vs' vote_inv_done [OF w(1)] by (auto simp: extends_def)
    qed
  qed
qed

text \<open>A claim only adds an empty block or sets a flag.\<close>

lemma add_block_keeps:
  assumes inv: "vote_inv T vs"
    and bv: "vsVotesByBlock vs k = Some old \<and> bvVotes bv = bvVotes old \<and> bvSum bv = bvSum old \<or>
      vsVotesByBlock vs k = None \<and> bv = newBlockVotes p (length (members vs))"
  shows "vote_inv T (vs\<lparr>vsPeerMaj23s := P, vsVotesByBlock := (vsVotesByBlock vs)(k \<mapsto> bv)\<rparr>)"
    (is "vote_inv T ?vs'")
proof -
  note core = vote_invD(1) [OF inv]
  have same: "vsChainID ?vs' = vsChainID vs" "vsSignedMsgType ?vs' = vsSignedMsgType vs"
    "members ?vs' = members vs" "vsVotes ?vs' = vsVotes vs" by simp_all
  have "block_ok T vs k bv"
    using bv core_invD(6) [OF core] newBlockVotes_ok(1) [of T vs k p]
    by (fastforce simp: block_ok_def)
  then have "block_ok T ?vs' k' b" if "vsVotesByBlock ?vs' k' = Some b" for k' b
    using that core_invD(6) [OF core] by (intro block_ok_cong [of ?vs' vs]) (auto split: if_splits)
  moreover have "slots_ok T ?vs' (vsVotes vs)"
    using core_invD(3) [OF core] slots_ok_cong [OF same(1-3)] by simp
  moreover have "majority_ok ?vs'"
  proof (cases "vsMaj23 vs")
    case None
    then show ?thesis
      using core_invD(7) [OF core] bv newBlockVotes_ok(2) quorum_pos [OF core_invD(1) [OF core]]
      by (auto simp: majority_ok_def)
  next
    case (Some h)
    then obtain b where b: "vsVotesByBlock vs (Key h) = Some b"
      "validators.quorum (members vs) \<le> bvSum b"
      "\<forall>i < length (bvVotes b). bvVotes b ! i \<noteq> None \<longrightarrow> vsVotes vs ! i = bvVotes b ! i"
      using core_invD(7) [OF core] by (auto simp: majority_ok_def)
    then show ?thesis using Some bv by (cases "Key h = k") (auto simp: majority_ok_def)
  qed
  moreover have "backed ?vs' j" if j: "j < length (vsVotes vs)" for j
    unfolding backed_iff
  proof (intro allI impI)
    fix v assume v: "vsVotes ?vs' ! j = Some v"
    have "vsMaj23 vs = Some (vDataHash v) \<or>
        (\<exists>b. vsVotesByBlock vs (Key (vDataHash v)) = Some b \<and> bvVotes b ! j = Some v)"
      using vote_invD(2) [OF inv j] v unfolding backed_iff by simp
    then show "vsMaj23 ?vs' = Some (vDataHash v) \<or>
        (\<exists>b. vsVotesByBlock ?vs' (Key (vDataHash v)) = Some b \<and> bvVotes b ! j = Some v)"
      using bv by (cases "Key (vDataHash v) = k") auto
  qed
  ultimately show ?thesis
    using core by (simp add: vote_inv_def core_inv_def base_inv_def)
qed

lemma claim_maj23_keeps:
  assumes inv: "vote_inv T vs"
  shows "vote_inv T (fst (claim_maj23 p h vs)) \<and> extends vs (fst (claim_maj23 p h vs))"
proof (cases "vsPeerMaj23s vs p")
  case (Some e)
  then show ?thesis using inv by (simp add: claim_maj23_def Let_def)
next
  case new: None
  let ?P = "(vsPeerMaj23s vs)(p \<mapsto> h)"
  show ?thesis
  proof (cases "vsVotesByBlock vs (Key h)")
    case None
    then show ?thesis
      using new add_block_keeps [OF inv, of "Key h" _ "newBlockVotes True (length (members vs))" True ?P]
      by (simp add: claim_maj23_def Let_def Size_def extends_def)
  next
    case (Some bv)
    have "vsVotesByBlock vs = (vsVotesByBlock vs)(Key h \<mapsto> bv)" using Some by (simp add: fun_upd_idem)
    then have "vote_inv T (vs\<lparr>vsPeerMaj23s := ?P\<rparr>)"
      using add_block_keeps [OF inv, of "Key h" bv bv True ?P] Some by simp
    moreover have "vote_inv T (vs\<lparr>vsPeerMaj23s := ?P,
        vsVotesByBlock := (vsVotesByBlock vs)(Key h \<mapsto> bv\<lparr>bvPeerMaj23 := True\<rparr>)\<rparr>)"
      using add_block_keeps [OF inv, of "Key h" bv "bv\<lparr>bvPeerMaj23 := True\<rparr>" True ?P] Some by simp
    ultimately show ?thesis using new Some by (simp add: claim_maj23_def Let_def extends_def)
  qed
qed

section \<open>Histories\<close>

inductive vote_history :: "'pk tm \<Rightarrow> bytes \<Rightarrow> SignedMsgType \<Rightarrow> 'pk ProposerSet \<Rightarrow> 'pk VoteSet \<Rightarrow> bool"
  for T chainID t s where
  opened: "vote_history T chainID t s (NewVoteSet chainID t s)"
| voted: "vote_history T chainID t s vs \<Longrightarrow> VoteSet_AddVote T vote (Some vs) = Return (vs', added, err) \<Longrightarrow>
    vote_history T chainID t s vs'"
| claimed: "vote_history T chainID t s vs \<Longrightarrow> SetPeerMaj23 p h (Some vs) = Return (vs', e) \<Longrightarrow>
    vote_history T chainID t s vs'"

definition votable :: "'pk ProposerSet \<Rightarrow> bool" where
  "votable s \<longleftrightarrow> powers_ok (Proposers s) \<and> cache_ok s"

lemma SetPeerMaj23_keeps:
  assumes "vote_inv T vs" and "SetPeerMaj23 p h (Some vs) = Return (vs', e)"
  shows "vote_inv T vs' \<and> extends vs vs'"
  using claim_maj23_keeps [OF assms(1), of p h] assms(2) by (simp add: SetPeerMaj23_def)

lemma AddVote_keeps:
  assumes "vote_inv T vs" and "VoteSet_AddVote T vote (Some vs) = Return (vs', added, err)"
  shows "vote_inv T vs' \<and> extends vs vs'"
  using addVote_keeps [OF assms(1)] assms(2) by (simp add: VoteSet_AddVote_def)

lemma vote_history_inv:
  assumes "vote_history T chainID t s vs" and "votable s"
  shows "vote_inv T vs \<and> vsChainID vs = chainID \<and> vsSignedMsgType vs = t \<and> members vs = Proposers s"
  using assms(1)
proof (induction rule: vote_history.induct)
  case opened
  then show ?case using NewVoteSet_inv [of s T chainID t] assms(2) by (simp add: votable_def NewVoteSet_def)
next
  case (voted vs vote vs' added err)
  then show ?case using AddVote_keeps [of T vs vote vs' added err] by (simp add: extends_def)
next
  case (claimed vs p h vs' e)
  then show ?case using SetPeerMaj23_keeps [of T vs p h vs' e] by (simp add: extends_def)
qed

text \<open>The canonical votes of a vote set, and the validators whose verified votes for a hash are
  among some votes at hand.\<close>

definition ballots :: "'pk VoteSet \<Rightarrow> Vote set" where
  "ballots vs = {v. Some v \<in> set (vsVotes vs)}"

definition signed_for :: "'pk tm \<Rightarrow> bytes \<Rightarrow> SignedMsgType \<Rightarrow> 'pk Proposer list \<Rightarrow> DataHash \<Rightarrow> Vote set \<Rightarrow>
    nat \<Rightarrow> bool" where
  "signed_for T chainID t vals h E i \<longleftrightarrow> (\<exists>v \<in> E. good_vote T chainID t vals i v \<and> vDataHash v = h)"

lemma majority_signers:
  assumes inv: "core_inv T vs" and maj: "vsMaj23 vs = Some h"
  shows "\<exists>A \<subseteq> {..<length (members vs)}. validators.quorum (members vs) \<le> validators.power (members vs) A \<and>
    (\<forall>i \<in> A. signed_for T (vsChainID vs) (vsSignedMsgType vs) (members vs) h (ballots vs) i)"
proof -
  obtain bv where bv: "vsVotesByBlock vs (Key h) = Some bv" "validators.quorum (members vs) \<le> bvSum bv"
    "\<forall>i < length (bvVotes bv). bvVotes bv ! i \<noteq> None \<longrightarrow> vsVotes vs ! i = bvVotes bv ! i"
    using core_invD(7) [OF inv] maj by (auto simp: majority_ok_def)
  note block = core_invD(6) [OF inv bv(1)]
  have len: "length (bvVotes bv) = length (members vs)" by (rule block_okD(2) [OF block])
  have "signed_for T (vsChainID vs) (vsSignedMsgType vs) (members vs) h (ballots vs) i" if i: "i \<in> voters (bvVotes bv)" for i
  proof -
    obtain v where v: "bvVotes bv ! i = Some v" "i < length (bvVotes bv)" using i by (auto simp: voters_def)
    then have "good_in T vs i v" using block_okD(1) [OF block] by (simp add: slots_ok_def)
    moreover have "vDataHash v = h" using block_okD(3) [OF block _ v(1)] v(2) len by simp
    moreover have "vsVotes vs ! i = Some v" "i < length (vsVotes vs)"
      using bv(3) v len core_invD(4) [OF inv] by simp_all
    then have "v \<in> ballots vs" using nth_mem [of i "vsVotes vs"] by (simp add: ballots_def)
    ultimately show ?thesis by (auto simp: signed_for_def)
  qed
  then show ?thesis
    using voters_subset [of "bvVotes bv"] len bv(2) block_okD(4) [OF block]
    by (intro exI [of _ "voters (bvVotes bv)"]) simp
qed

section \<open>Sample histories\<close>

lemma sample_set_votable: "votable sample_set"
  by (simp add: votable_def sample_set_def powers_ok_def cache_ok_def MaxTotalVotingPower_eq)

abbreviation sample_start :: "bytes VoteSet" where
  "sample_start \<equiv> NewVoteSet [9] PrecommitType sample_set"

text \<open>The strong validator's vote alone is a majority.\<close>

definition decides :: "(bytes VoteSet \<times> bool \<times> vote_error option) outcome \<Rightarrow> DataHash \<Rightarrow> bool" where
  "decides r h \<longleftrightarrow>
     (case r of Return (vs, added, err) \<Rightarrow> added \<and> err = None \<and> vsMaj23 vs = Some h | _ \<Rightarrow> False)"

lemma decides_vote:
  assumes "decides (VoteSet_AddVote sample_tm (Some v) (Some sample_start)) h"
  shows "\<exists>vs. VoteSet_AddVote sample_tm (Some v) (Some sample_start) = Return (vs, True, None) \<and>
    vsMaj23 vs = Some h \<and> vote_history sample_tm [9] PrecommitType sample_set vs"
  using assms vote_history.voted [OF opened] by (auto simp: decides_def split: outcome.splits)

lemma sample_one_vote:
  "decides (VoteSet_AddVote sample_tm (Some (sample_vote [2] 0 [7])) (Some sample_start)) \<lparr>Hash = [7]\<rparr>"
  "decides (VoteSet_AddVote sample_tm (Some (sample_vote [2] 0 [8])) (Some sample_start)) \<lparr>Hash = [8]\<rparr>"
  by code_simp+

lemmas sample_vote_7 = decides_vote [OF sample_one_vote(1)]
lemmas sample_vote_8 = decides_vote [OF sample_one_vote(2)]

section \<open>Properties\<close>

text \<open>C17: what a vote set ever stores: each canonical vote is a verified vote of the validator
  at its index for this chain and type, and the sum is the power of the validators that
  voted. Each tracked hash holds verified votes for that hash only, one at most of each
  validator, and its sum is the power of the validators these votes are of. A majority is
  recorded exactly when some tracked hash has more than two thirds of the power, and then
  the recorded hash has.\<close>

theorem VoteSet_sound:
  assumes "vote_history T chainID t s vs" and "votable s"
  shows "length (vsVotes vs) = length (Proposers s) \<and>
    (\<forall>i v. i < length (vsVotes vs) \<longrightarrow> vsVotes vs ! i = Some v \<longrightarrow>
       good_vote T chainID t (Proposers s) i v) \<and>
    vsSum vs = validators.power (Proposers s) (voters (vsVotes vs)) \<and>
    (\<forall>k bv. vsVotesByBlock vs k = Some bv \<longrightarrow>
       length (bvVotes bv) = length (Proposers s) \<and>
       (\<forall>i v. i < length (bvVotes bv) \<longrightarrow> bvVotes bv ! i = Some v \<longrightarrow>
          good_vote T chainID t (Proposers s) i v \<and> Key (vDataHash v) = k) \<and>
       bvSum bv = validators.power (Proposers s) (voters (bvVotes bv))) \<and>
    (vsMaj23 vs \<noteq> None \<longleftrightarrow>
       (\<exists>k bv. vsVotesByBlock vs k = Some bv \<and> power_sum (Proposers s) * 2 < 3 * bvSum bv)) \<and>
    (\<forall>h. vsMaj23 vs = Some h \<longrightarrow>
       (\<exists>bv. vsVotesByBlock vs (Key h) = Some bv \<and> power_sum (Proposers s) * 2 < 3 * bvSum bv)) \<and>
    (vsDone vs \<longrightarrow> vsMaj23 vs \<noteq> None)"
proof -
  from vote_history_inv [OF assms] have inv: "core_inv T vs" and
    f: "vsChainID vs = chainID" "vsSignedMsgType vs = t" "members vs = Proposers s"
    by (simp_all add: vote_inv_def)
  have blocks: "\<forall>k bv. vsVotesByBlock vs k = Some bv \<longrightarrow>
       length (bvVotes bv) = length (Proposers s) \<and>
       (\<forall>i v. i < length (bvVotes bv) \<longrightarrow> bvVotes bv ! i = Some v \<longrightarrow>
          good_vote T chainID t (Proposers s) i v \<and> Key (vDataHash v) = k) \<and>
       bvSum bv = validators.power (Proposers s) (voters (bvVotes bv))"
    using core_invD(6) [OF inv] f by (simp add: block_ok_def slots_ok_def)
  have maj: "vsMaj23 vs \<noteq> None \<longleftrightarrow>
      (\<exists>k bv. vsVotesByBlock vs k = Some bv \<and> power_sum (Proposers s) * 2 < 3 * bvSum bv)"
    "\<forall>h. vsMaj23 vs = Some h \<longrightarrow>
       (\<exists>bv. vsVotesByBlock vs (Key h) = Some bv \<and> power_sum (Proposers s) * 2 < 3 * bvSum bv)"
    unfolding validators.quorum_iff [symmetric]
    using core_invD(7) [OF inv] f by (cases "vsMaj23 vs"; force simp: majority_ok_def)+
  show ?thesis
    using core_invD(3,4,5,8) [OF inv] f by (intro conjI blocks maj) (simp_all add: slots_ok_def)
qed

theorem VoteSet_sound_witness:
  "\<exists>vs. VoteSet_AddVote sample_tm (Some (sample_vote [2] 0 [7])) (Some sample_start) =
      Return (vs, True, None) \<and> vsMaj23 vs \<noteq> None \<and>
    vsSum vs = validators.power (Proposers sample_set) (voters (vsVotes vs))"
  using sample_vote_7 VoteSet_sound [OF _ sample_set_votable, of sample_tm "[9]" PrecommitType]
  by fastforce

text \<open>C18: a recorded majority is final: no operation changes or clears it.\<close>

theorem VoteSet_majority_final:
  assumes "vote_history T chainID t s vs" and "votable s" and "vsMaj23 vs = Some h"
  shows "(VoteSet_AddVote T vote (Some vs) = Return (vs', added, err) \<longrightarrow> vsMaj23 vs' = Some h) \<and>
    (SetPeerMaj23 p h' (Some vs) = Return (vs'', e) \<longrightarrow> vsMaj23 vs'' = Some h)"
  using vote_history_inv [OF assms(1,2)] AddVote_keeps [of T vs vote vs' added err]
    SetPeerMaj23_keeps [of T vs p h' vs'' e] assms(3)
  by (auto simp: extends_def)

theorem VoteSet_majority_final_witness:
  "\<exists>vs. vsMaj23 vs = Some \<lparr>Hash = [7]\<rparr> \<and> (\<forall>vs' added err.
    VoteSet_AddVote sample_tm (Some (sample_vote [1] 1 [8])) (Some vs) = Return (vs', added, err) \<longrightarrow>
      vsMaj23 vs' = Some \<lparr>Hash = [7]\<rparr>)"
  using sample_vote_7 VoteSet_majority_final [OF _ sample_set_votable] by blast

text \<open>C19: accountable agreement. If two nodes that hold vote sets for the same chain, type and
  validators record different majorities, their canonical votes are the proof that validators
  with more than a third of the power signed for both hashes.\<close>

theorem majorities_agree:
  assumes "vote_history T chainID t s1 vs1" and "vote_history T chainID t s2 vs2"
    and "votable s1" and "votable s2" and "Proposers s1 = Proposers s2"
    and "vsMaj23 vs1 = Some h1" and "vsMaj23 vs2 = Some h2" and "h1 \<noteq> h2"
  shows "\<exists>A \<subseteq> {..<length (Proposers s1)}.
    power_sum (Proposers s1) < 3 * validators.power (Proposers s1) A \<and>
    (\<forall>i \<in> A. signed_for T chainID t (Proposers s1) h1 (ballots vs1) i \<and>
       signed_for T chainID t (Proposers s1) h2 (ballots vs2) i)"
proof -
  let ?vals = "Proposers s1"
  from vote_history_inv [OF assms(1,3)] vote_history_inv [OF assms(2,4)]
  have i: "core_inv T vs1" "core_inv T vs2" and
    f: "vsChainID vs1 = chainID" "vsSignedMsgType vs1 = t" "members vs1 = ?vals"
      "vsChainID vs2 = chainID" "vsSignedMsgType vs2 = t" "members vs2 = ?vals"
    by (simp_all add: vote_inv_def assms(5))
  from majority_signers [OF i(1) assms(6)] majority_signers [OF i(2) assms(7)] obtain A B where
    A: "A \<subseteq> {..<length ?vals}" "validators.quorum ?vals \<le> validators.power ?vals A"
      "\<forall>i \<in> A. signed_for T chainID t ?vals h1 (ballots vs1) i" and
    B: "B \<subseteq> {..<length ?vals}" "validators.quorum ?vals \<le> validators.power ?vals B"
      "\<forall>i \<in> B. signed_for T chainID t ?vals h2 (ballots vs2) i"
    unfolding f by blast
  have "power_sum ?vals < 3 * validators.power ?vals (A \<inter> B)"
    using assms(3) A(1,2) B(1,2) by (intro validators.quorum_intersection) (simp_all add: votable_def)
  then show ?thesis using A B by (intro exI [of _ "A \<inter> B"]) auto
qed

theorem majorities_agree_witness:
  "\<exists>(vs1 :: bytes VoteSet) (vs2 :: bytes VoteSet). vsMaj23 vs1 = Some \<lparr>Hash = [7]\<rparr> \<and> vsMaj23 vs2 = Some \<lparr>Hash = [8]\<rparr> \<and>
    (\<exists>A \<subseteq> {..<2}. 4 < 3 * validators.power (Proposers sample_set) A \<and>
      (\<forall>i \<in> A. signed_for sample_tm [9] PrecommitType (Proposers sample_set) \<lparr>Hash = [7]\<rparr> (ballots vs1) i \<and>
         signed_for sample_tm [9] PrecommitType (Proposers sample_set) \<lparr>Hash = [8]\<rparr> (ballots vs2) i))"
proof -
  obtain vs1 vs2 where h: "vote_history sample_tm [9] PrecommitType sample_set vs1"
      "vote_history sample_tm [9] PrecommitType sample_set vs2"
      "vsMaj23 vs1 = Some \<lparr>Hash = [7]\<rparr>" "vsMaj23 vs2 = Some \<lparr>Hash = [8]\<rparr>"
    using sample_vote_7 sample_vote_8 by blast
  have facts: "power_sum (Proposers sample_set) = 4" "length (Proposers sample_set) = 2"
    by (simp_all add: sample_set_def)
  have "\<lparr>Hash = [7 :: 8 word]\<rparr> \<noteq> \<lparr>Hash = [8]\<rparr>" by simp
  from majorities_agree [OF h(1,2) sample_set_votable sample_set_votable refl h(3,4) this] h(3,4) show ?thesis
    unfolding facts by (intro exI [of _ vs1] exI [of _ vs2] conjI)
qed

lemma AddVote_cases:
  assumes "vote_history T chainID t s vs" and "votable s" and "keys_set vs" and "checkable T vs vote"
  shows "\<exists>vs' added err. VoteSet_AddVote T (Some vote) (Some vs) = Return (vs', added, err) \<and>
    (if \<not> (\<exists>i. addressed vs vote i) then vs' = vs \<and> \<not> added \<and> err \<noteq> None
     else let i = nat (vValidatorIndex vote) in
       case known_vote vs i (vDataHash vote) of
         Some e \<Rightarrow> vs' = vs \<and> \<not> added \<and>
           err = (if vSignature e = vSignature vote then None else Some ErrVoteNonDeterministicSignature)
       | None \<Rightarrow>
           if \<not> authentic T vs i vote then vs' = vs \<and> \<not> added \<and> err \<noteq> None
           else err = map_option (\<lambda>e. ErrVoteConflictingVotes e vote) (vsVotes vs ! i) \<and>
             (vsVotes vs ! i = None \<longrightarrow> added \<and> (vsMaj23 vs' \<noteq> None \<longrightarrow> vsDone vs')))"
proof -
  note inv = conjunct1 [OF vote_history_inv [OF assms(1,2)]]
  show ?thesis
  proof (cases "\<exists>i. addressed vs vote i")
    case False
    then show ?thesis using addVote_not_addressed [OF False, of T] by (auto simp: VoteSet_AddVote_def)
  next
    case True
    then obtain i where adr: "addressed vs vote i" by blast
    then have i: "nat (vValidatorIndex vote) = i" by (simp add: addressed_def)
    show ?thesis
    proof (cases "known_vote vs i (vDataHash vote)")
      case (Some e)
      then show ?thesis
        using True i addVote_addressed [OF vote_invD(1) [OF inv] adr]
        by (intro exI [of _ vs] exI [of _ False]) (simp add: VoteSet_AddVote_def)
    next
      case None
      from addVote_ok [OF inv assms(3,4) adr None] obtain vs' added err where
        r: "VoteSet_addVote T (Some vote) vs = Return (vs', added, err)"
        "if authentic T vs i vote
         then err = map_option (\<lambda>e. ErrVoteConflictingVotes e vote) (vsVotes vs ! i) \<and>
           (vsVotes vs ! i = None \<longrightarrow> added \<and> (vsMaj23 vs' \<noteq> None \<longrightarrow> vsDone vs'))
         else vs' = vs \<and> \<not> added \<and> err \<noteq> None" by (elim exE conjE) (rule that)
      then show ?thesis
        using True i None
        by (intro exI [of _ vs'] exI [of _ added] exI [of _ err])
          (simp add: VoteSet_AddVote_def Let_def split: if_splits)
    qed
  qed
qed

text \<open>C20: \<open>AddVote\<close> on a vote that can be checked never panics. A vote that is not of this
  step, or not of the validator it names, is refused with an error; a vote already stored is
  a duplicate, or a non-deterministic signature; a vote that fails verification is refused;
  the first vote of a validator is added, and any other reported as conflicting.\<close>

theorem AddVote_spec:
  assumes "vote_history T chainID t s vs" and "votable s" and "keys_set vs" and "checkable T vs vote"
  shows "\<exists>vs' added err. VoteSet_AddVote T (Some vote) (Some vs) = Return (vs', added, err) \<and>
    (if \<not> (\<exists>i. addressed vs vote i) then vs' = vs \<and> \<not> added \<and> err \<noteq> None
     else let i = nat (vValidatorIndex vote) in
       case known_vote vs i (vDataHash vote) of
         Some e \<Rightarrow> vs' = vs \<and> \<not> added \<and>
           err = (if vSignature e = vSignature vote then None else Some ErrVoteNonDeterministicSignature)
       | None \<Rightarrow>
           if \<not> authentic T vs i vote then vs' = vs \<and> \<not> added \<and> err \<noteq> None
           else err = map_option (\<lambda>e. ErrVoteConflictingVotes e vote) (vsVotes vs ! i) \<and>
             (vsVotes vs ! i = None \<longrightarrow> added \<and> (vsMaj23 vs' \<noteq> None \<longrightarrow> vsDone vs')))"
  using assms by (rule AddVote_cases)

theorem AddVote_spec_witness:
  "\<exists>vs' added err. VoteSet_AddVote sample_tm (Some (sample_vote [1] 0 [7])) (Some sample_start) =
    Return (vs', added, err) \<and> vs' = sample_start \<and> \<not> added \<and> err \<noteq> None"
proof -
  have keys: "keys_set sample_start" by (simp add: keys_set_def NewVoteSet_def sample_set_def)
  have ok: "checkable sample_tm sample_start (sample_vote [1] 0 [7])"
    by (simp add: checkable_def sample_vote_def sample_simps NewVoteSet_def Let_def)
  have "\<not> (\<exists>i. addressed sample_start (sample_vote [1] 0 [7]) i)"
    by (auto simp: addressed_def sample_vote_def NewVoteSet_def sample_set_def Let_def)
  then show ?thesis
    using AddVote_spec [OF opened sample_set_votable keys ok] by simp
qed

section \<open>A missed signal\<close>

text \<open>
  What a good vote that is new to the set does to a set without a majority. \<open>reaches\<close>: the vote
  is counted for its hash, and makes the power for the hash more than two thirds. A vote of a
  validator that voted otherwise before is only counted where a peer claimed a majority for
  its hash.
\<close>

definition reaches :: "'pk VoteSet \<Rightarrow> nat \<Rightarrow> Vote \<Rightarrow> bool" where
  "reaches vs i v \<longleftrightarrow>
     (case vsVotesByBlock vs (Key (vDataHash v)) of
        None \<Rightarrow> vsVotes vs ! i = None \<and> power_sum (members vs) * 2 < 3 * VotingPower (members vs ! i)
      | Some bv \<Rightarrow> (vsVotes vs ! i = None \<or> bvPeerMaj23 bv) \<and>
          power_sum (members vs) * 2 < 3 * (bvSum bv + VotingPower (members vs ! i)))"

lemma addVerifiedVote_decides:
  assumes inv: "vote_inv T vs" and good: "good_in T vs i v" and unk: "unknown_vote vs i v"
    and open_set: "vsMaj23 vs = None"
  shows "\<exists>w added. VoteSet_addVerifiedVote v (Key (vDataHash v)) (VotingPower (members vs ! i)) vs =
      Return (w, added, vsVotes vs ! i) \<and> vsDone w = vsDone vs \<and> (vsMaj23 w \<noteq> None \<longleftrightarrow> reaches vs i v) \<and>
    (vsVotes vs ! i = None \<longrightarrow> added)"
proof -
  let ?k = "Key (vDataHash v)" and ?p = "VotingPower (members vs ! i)"
  note core = vote_invD(1) [OF inv]
  from record_vote_ok [OF core good unk] obtain vs1 where
    rec: "record_vote v ?k ?p vs = Return (vs1, vsVotes vs ! i)" and core1: "core_inv T vs1"
    and votes1: "vsVotes vs1 = (if vsVotes vs ! i = None \<or> vsMaj23 vs = Some (vDataHash v)
      then (vsVotes vs)[i := Some v] else vsVotes vs)"
    and same1: "vsVotesByBlock vs1 = vsVotesByBlock vs" "vsMaj23 vs1 = vsMaj23 vs"
      "vsValSet vs1 = vsValSet vs" "vsChainID vs1 = vsChainID vs"
      "vsSignedMsgType vs1 = vsSignedMsgType vs" "vsDone vs1 = vsDone vs" by blast
  have good1: "good_in T vs1 i v" using good by (simp add: same1)
  have "i < length (vsVotes vs)" using good core_invD(4) [OF core] by (simp add: good_vote_def)
  then have voted: "i \<in> voters (vsVotes vs1)" by (auto simp: voters_def votes1)
  have track: "\<exists>w. track_vote v ?k ?p bv vs1 = Return w \<and> vsDone w = vsDone vs \<and>
      (vsMaj23 w \<noteq> None \<longleftrightarrow> power_sum (members vs) * 2 < 3 * (bvSum bv + ?p))"
    if bv: "block_ok T vs1 ?k bv" "bvVotes bv ! i = None"
      "vsVotesByBlock vs1 ?k = Some bv \<or> vsVotesByBlock vs1 ?k = None \<and> bvSum bv = 0" for bv
  proof -
    let ?c = "tracked_as vs1 ?k (counted v i ?p bv)"
    have maj1: "vsMaj23 vs1 = None" using open_set by (simp add: same1)
    then have "vsVotes vs1 ! i = Some v" if "vsMaj23 vs1 = Some (vDataHash v)" using that by simp
    from track_vote_ok [OF core1 good1 bv(1,2) voted bv(3) this] obtain ws where
      "track_vote v ?k (VotingPower (members vs1 ! i)) bv vs1 =
        Return (if vsMaj23 vs1 = None \<and>
               validators.quorum (members vs1) \<le> bvSum (counted v i (VotingPower (members vs1 ! i)) bv)
             then (tracked_as vs1 ?k (counted v i (VotingPower (members vs1 ! i)) bv))
               \<lparr>vsMaj23 := Some (vDataHash v), vsVotes := ws\<rparr>
             else tracked_as vs1 ?k (counted v i (VotingPower (members vs1 ! i)) bv))"
      by blast
    note run = this [unfolded same1(3)]
    have "bvSum (counted v i ?p bv) = bvSum bv + ?p" by (simp add: counted_def)
    then show ?thesis
      using maj1 same1(6) unfolding run validators.quorum_iff [symmetric]
      by (simp add: tracked_as_def del: add_le_cancel_left)
  qed
  show ?thesis
  proof (cases "vsVotesByBlock vs ?k")
    case (Some bv)
    have bv: "block_ok T vs1 ?k bv" "bvVotes bv ! i = None"
      using core_invD(6) [OF core1] unk Some by (simp_all add: same1 unknown_vote_def)
    from track [OF bv] Some obtain w where w: "track_vote v ?k ?p bv vs1 = Return w" "vsDone w = vsDone vs"
      "vsMaj23 w \<noteq> None \<longleftrightarrow> power_sum (members vs) * 2 < 3 * (bvSum bv + ?p)" unfolding same1 by blast
    have run: "VoteSet_addVerifiedVote v ?k ?p vs =
        Return (if vsVotes vs ! i \<noteq> None \<and> \<not> bvPeerMaj23 bv then (vs1, False, vsVotes vs ! i)
                else (w, True, vsVotes vs ! i))"
      unfolding VoteSet_addVerifiedVote_def rec by (simp add: same1(1) Some w(1))
    have reach: "reaches vs i v \<longleftrightarrow> (vsVotes vs ! i = None \<or> bvPeerMaj23 bv) \<and> vsMaj23 w \<noteq> None"
      unfolding reaches_def w(3) Some option.case by (rule refl)
    show ?thesis
    proof (cases "vsVotes vs ! i \<noteq> None \<and> \<not> bvPeerMaj23 bv")
      case True
      then show ?thesis unfolding run reach using open_set same1(2,6)
        by (intro exI [of _ vs1] exI [of _ False]) simp
    next
      case False
      then show ?thesis unfolding run reach using w(2)
        by (intro exI [of _ w] exI [of _ True]) simp
    qed
  next
    case None
    let ?bv = "newBlockVotes False (Size (vsValSet vs1))"
    have bv: "block_ok T vs1 ?k ?bv" "bvVotes ?bv ! i = None"
      using good1 newBlockVotes_ok(1) [of T vs1] by (simp_all add: newBlockVotes_ok Size_def good_vote_def)
    have fresh: "bvSum ?bv = 0" by (simp add: newBlockVotes_ok)
    from track [OF bv] None fresh obtain w where w: "track_vote v ?k ?p ?bv vs1 = Return w"
      "vsDone w = vsDone vs" "vsMaj23 w \<noteq> None \<longleftrightarrow> power_sum (members vs) * 2 < 3 * ?p"
      unfolding same1 by auto
    have run: "VoteSet_addVerifiedVote v ?k ?p vs =
        Return (if vsVotes vs ! i \<noteq> None then (vs1, False, vsVotes vs ! i) else (w, True, vsVotes vs ! i))"
      unfolding VoteSet_addVerifiedVote_def rec using w(1) by (simp add: same1(1,3) None)
    have reach: "reaches vs i v \<longleftrightarrow> vsVotes vs ! i = None \<and> vsMaj23 w \<noteq> None"
      unfolding reaches_def w(3) None option.case by (rule refl)
    show ?thesis
    proof (cases "vsVotes vs ! i \<noteq> None")
      case True
      then show ?thesis unfolding run reach using open_set same1(2,6)
        by (intro exI [of _ vs1] exI [of _ False]) simp
    next
      case False
      then show ?thesis unfolding run reach using w(2)
        by (intro exI [of _ w] exI [of _ True]) simp
    qed
  qed
qed

text \<open>
  Four validators of power 1. After one vote for [7], a peer claims a majority for [8]; two
  votes for [8] follow. The conflicting vote of the first validator then completes the
  majority.
\<close>

definition quad_set :: "bytes ProposerSet" where
  "quad_set =
     \<lparr>Proposers = map (\<lambda>k. \<lparr>Address = [k], PubKey = Some [k], VotingPower = 1,
        ProposerPriority = 0\<rparr>) [1, 2, 3, 4],
      Proposer = None, totalVotingPower = 4\<rparr>"

fun add_each :: "'pk tm \<Rightarrow> Vote list \<Rightarrow> 'pk VoteSet \<Rightarrow> 'pk VoteSet outcome" where
  "add_each T [] vs = Return vs"
| "add_each T (v # vts) vs =
     obind (VoteSet_AddVote T (Some v) (Some vs)) (\<lambda>(vs', _). add_each T vts vs')"

definition claimed_run :: "bytes VoteSet outcome" where
  "claimed_run =
     obind (VoteSet_AddVote sample_tm (Some (sample_vote [1] 0 [7]))
       (Some (NewVoteSet [9] PrecommitType quad_set))) (\<lambda>(vs, _).
     obind (SetPeerMaj23 [] \<lparr>Hash = [8]\<rparr> (Some vs)) (\<lambda>(vs, _).
       add_each sample_tm [sample_vote [2] 1 [8], sample_vote [3] 2 [8]] vs))"

lemma add_each_history:
  "vote_history T chainID t s vs \<Longrightarrow> add_each T vts vs = Return vs' \<Longrightarrow> vote_history T chainID t s vs'"
  by (induction vts arbitrary: vs) (auto split: outcome.splits intro: vote_history.voted)

lemma claimed_run_history: "claimed_run = Return vs \<Longrightarrow> vote_history sample_tm [9] PrecommitType quad_set vs"
  unfolding claimed_run_def
  by (auto simp del: add_each.simps split: outcome.splits
    intro: add_each_history [OF vote_history.claimed [OF vote_history.voted [OF vote_history.opened]]])

text \<open>C21: when \<open>AddVote\<close> tells the waiting that a majority is there. A verified vote that is new
  to a set without a majority is added or reported as conflicting; the set has a majority
  afterwards exactly when the vote is counted for its hash and its power brings the hash over
  two thirds; and \<open>Done()\<close> is signalled exactly when the vote does so and the validator had not
  voted before. A majority completed by a conflicting vote, which a peer's claim lets in, is
  recorded and nobody who waits on \<open>Done()\<close> is told.\<close>

theorem AddVote_signals_done:
  assumes hist: "vote_history T chainID t s vs" and set: "votable s"
    and good: "good_vote T chainID t (Proposers s) i v" and new: "known_vote vs i (vDataHash v) = None"
    and open_set: "vsMaj23 vs = None"
  shows "\<exists>vs' added. VoteSet_AddVote T (Some v) (Some vs) =
      Return (vs', added, map_option (\<lambda>e. ErrVoteConflictingVotes e v) (vsVotes vs ! i)) \<and>
    (vsMaj23 vs' \<noteq> None \<longleftrightarrow> reaches vs i v) \<and>
    (vsDone vs' \<longleftrightarrow> reaches vs i v \<and> vsVotes vs ! i = None)"
proof -
  have inv: "vote_inv T vs" and f: "vsChainID vs = chainID" "vsSignedMsgType vs = t" "members vs = Proposers s"
    using vote_history_inv [OF hist set] by simp_all
  note core = vote_invD(1) [OF inv]
  have here: "good_in T vs i v" using good by (simp add: f)
  then have adr: "addressed vs v i" by (simp add: good_in_iff)
  have "\<not> vsDone vs" using core_invD(8) [OF core] open_set by auto
  moreover have "Vote_Verify T v (vsChainID vs) (PubKey (members vs ! i)) = Return None"
    using here Vote_Verify_eq [where T = T and v = v and chainID = chainID] f
    by (auto simp: good_vote_def split: option.splits)
  moreover from addVerifiedVote_decides [OF inv here _ open_set] new obtain w added where
    "VoteSet_addVerifiedVote v (Key (vDataHash v)) (VotingPower (members vs ! i)) vs =
      Return (w, added, vsVotes vs ! i)" "vsDone w = vsDone vs" "vsMaj23 w \<noteq> None \<longleftrightarrow> reaches vs i v"
    "vsVotes vs ! i = None \<longrightarrow> added" by (auto simp: unknown_iff)
  ultimately show ?thesis
    using addVote_addressed [OF core adr] new by (cases "vsVotes vs ! i") (auto simp: VoteSet_AddVote_def)
qed

theorem AddVote_signals_done_witness:
  "\<exists>vs vs' added e. claimed_run = Return vs \<and>
    VoteSet_AddVote sample_tm (Some (sample_vote [1] 0 [8])) (Some vs) =
      Return (vs', added, Some (ErrVoteConflictingVotes e (sample_vote [1] 0 [8]))) \<and>
    vsMaj23 vs' \<noteq> None \<and> \<not> vsDone vs'"
proof -
  let ?v = "sample_vote [1] 0 [8]"
  let ?due = "\<lambda>vs. known_vote vs 0 (vDataHash ?v) = None \<and> vsMaj23 vs = None \<and> vsVotes vs ! 0 \<noteq> None \<and>
    reaches vs 0 ?v"
  have run: "case claimed_run of Panic _ \<Rightarrow> False | Return vs \<Rightarrow> ?due vs"
    by code_simp
  obtain vs where vs0: "claimed_run = Return vs" "?due vs"
  proof (cases claimed_run)
    case (Return vs)
    then show ?thesis using that run unfolding Return outcome.case by blast
  next
    case (Panic p)
    then show ?thesis using run unfolding Panic outcome.case by blast
  qed
  note vs = vs0(1) conjunct1 [OF vs0(2)] conjunct1 [OF conjunct2 [OF vs0(2)]]
    conjunct2 [OF conjunct2 [OF vs0(2)]]
  have "votable quad_set"
    by (simp add: votable_def quad_set_def powers_ok_def cache_ok_def MaxTotalVotingPower_eq)
  moreover have "good_vote sample_tm [9] PrecommitType (Proposers quad_set) 0 ?v"
    by code_simp
  ultimately show ?thesis
    using AddVote_signals_done [OF claimed_run_history [OF vs(1)] _ _ vs(2,3)] vs(1,4) by fastforce
qed

end
