(* ===== verification/Con_VerifyCommit.thy ===== *)
theory Con_VerifyCommit
  imports Con_VoteHistory
begin

text \<open>
  Verification of commits (\<^verbatim>\<open>src/concord/proposer_set.go\<close>, \<open>VerifyCommit\<close> to
  \<open>ErrNotEnoughVotingPowerSigned\<close>, and \<^verbatim>\<open>errors.go\<close>): the full check, the light check that stops at two
  thirds, and the check against a trusted set that may differ from the signing one.
\<close>

datatype verify_error =
    ErrInvalidCommitSignatures nat nat
  | WrongBlockID DataHash DataHash
  | WrongSignature nat bytes
  | ErrNotEnoughVotingPowerSigned int int
  | ZeroDenominator
  | NumeratorOverflow
  | DoubleVote nat nat

definition NewErrInvalidCommitSignatures :: "nat \<Rightarrow> nat \<Rightarrow> verify_error" where
  "NewErrInvalidCommitSignatures expected actual = ErrInvalidCommitSignatures expected actual"

text \<open>\<open>val.PubKey.VerifySignature(commit.VoteSignBytes(chainID, int32(idx)), sig)\<close>.\<close>

definition check_sig :: "'pk tm \<Rightarrow> bytes \<Rightarrow> Commit \<Rightarrow> 'pk Proposer \<Rightarrow> nat \<Rightarrow> CommitSig \<Rightarrow> bool outcome" where
  "check_sig T chainID commit val idx cs =
     obind (Commit_VoteSignBytes T commit chainID (wrap32 (int idx))) (\<lambda>bz.
       case PubKey val of
         None \<Rightarrow> Panic NilDereference
       | Some k \<Rightarrow> Return (VerifySignature T k bz (csSignature cs)))"

section \<open>The full check\<close>

fun verify_all_sigs :: "'pk tm \<Rightarrow> bytes \<Rightarrow> Commit \<Rightarrow> 'pk Proposer list \<Rightarrow> nat \<Rightarrow> CommitSig list \<Rightarrow> int \<Rightarrow>
    (verify_error + int) outcome" where
  "verify_all_sigs T chainID commit vals idx [] tallied = Return (Inr tallied)"
| "verify_all_sigs T chainID commit vals idx (cs # css) tallied =
     (if Absent cs then verify_all_sigs T chainID commit vals (Suc idx) css tallied
      else obind (slice_get vals (int idx)) (\<lambda>val.
        obind (check_sig T chainID commit val idx cs) (\<lambda>ok.
          if \<not> ok then Return (Inl (WrongSignature idx (csSignature cs)))
          else verify_all_sigs T chainID commit vals (Suc idx) css
                 (if ForBlock cs then i64_add tallied (VotingPower val) else tallied))))"

definition VerifyCommit :: "'pk tm \<Rightarrow> bytes \<Rightarrow> bytes \<Rightarrow> Commit \<Rightarrow> 'pk ProposerSet \<Rightarrow>
    ('pk ProposerSet \<times> verify_error option) outcome" where
  "VerifyCommit T chainID data commit s =
     (let blockID = \<lparr>Hash = data\<rparr>
      in if Size s \<noteq> length (cmSignatures commit)
         then Return (s, Some (NewErrInvalidCommitSignatures (Size s) (length (cmSignatures commit))))
         else if \<not> DataHash_Equals blockID (cmDataHash commit)
         then Return (s, Some (WrongBlockID blockID (cmDataHash commit)))
         else obind (TotalVotingPower s) (\<lambda>(s', total).
           let votingPowerNeeded = two_thirds total
           in obind (verify_all_sigs T chainID commit (Proposers s') 0 (cmSignatures commit) 0) (\<lambda>r.
             case r of
               Inl err \<Rightarrow> Return (s', Some err)
             | Inr tallied \<Rightarrow>
                 if tallied \<le> votingPowerNeeded
                 then Return (s', Some (ErrNotEnoughVotingPowerSigned tallied votingPowerNeeded))
                 else Return (s', None))))"

section \<open>The light check\<close>

text \<open>\<open>Inr None\<close> is the early return of nil.\<close>

fun verify_light_sigs :: "'pk tm \<Rightarrow> bytes \<Rightarrow> Commit \<Rightarrow> 'pk Proposer list \<Rightarrow> int \<Rightarrow> nat \<Rightarrow>
    CommitSig list \<Rightarrow> int \<Rightarrow> (verify_error + int option) outcome" where
  "verify_light_sigs T chainID commit vals needed idx [] tallied = Return (Inr (Some tallied))"
| "verify_light_sigs T chainID commit vals needed idx (cs # css) tallied =
     (if \<not> ForBlock cs then verify_light_sigs T chainID commit vals needed (Suc idx) css tallied
      else obind (slice_get vals (int idx)) (\<lambda>val.
        obind (check_sig T chainID commit val idx cs) (\<lambda>ok.
          if \<not> ok then Return (Inl (WrongSignature idx (csSignature cs)))
          else let tallied' = i64_add tallied (VotingPower val)
               in if tallied' > needed then Return (Inr None)
                  else verify_light_sigs T chainID commit vals needed (Suc idx) css tallied')))"

definition VerifyCommitLight :: "'pk tm \<Rightarrow> bytes \<Rightarrow> DataHash \<Rightarrow> Commit \<Rightarrow> 'pk ProposerSet \<Rightarrow>
    ('pk ProposerSet \<times> verify_error option) outcome" where
  "VerifyCommitLight T chainID blockID commit s =
     (if Size s \<noteq> length (cmSignatures commit)
      then Return (s, Some (NewErrInvalidCommitSignatures (Size s) (length (cmSignatures commit))))
      else if \<not> DataHash_Equals blockID (cmDataHash commit)
      then Return (s, Some (WrongBlockID blockID (cmDataHash commit)))
      else obind (TotalVotingPower s) (\<lambda>(s', total).
        let votingPowerNeeded = two_thirds total
        in obind (verify_light_sigs T chainID commit (Proposers s') votingPowerNeeded 0
                    (cmSignatures commit) 0) (\<lambda>r.
          case r of
            Inl err \<Rightarrow> Return (s', Some err)
          | Inr None \<Rightarrow> Return (s', None)
          | Inr (Some tallied) \<Rightarrow>
              Return (s', Some (ErrNotEnoughVotingPowerSigned tallied votingPowerNeeded)))))"

section \<open>The check against a trusted set\<close>

text \<open>A \<open>Fraction\<close> has two \<open>uint64\<close> fields; \<open>int64(x)\<close> wraps. \<open>seenVals\<close> maps a validator
  index to the commit index that named it.\<close>

record Fraction =
  Numerator :: int
  Denominator :: int

fun verify_trusting_sigs :: "'pk tm \<Rightarrow> bytes \<Rightarrow> Commit \<Rightarrow> 'pk ProposerSet \<Rightarrow> int \<Rightarrow> nat \<Rightarrow>
    CommitSig list \<Rightarrow> (int \<rightharpoonup> nat) \<Rightarrow> int \<Rightarrow> (verify_error + int option) outcome" where
  "verify_trusting_sigs T chainID commit s needed idx [] seenVals tallied = Return (Inr (Some tallied))"
| "verify_trusting_sigs T chainID commit s needed idx (cs # css) seenVals tallied =
     (if \<not> ForBlock cs then verify_trusting_sigs T chainID commit s needed (Suc idx) css seenVals tallied
      else case GetByAddress s (csValidatorAddress cs) of
        (valIdx, None) \<Rightarrow> verify_trusting_sigs T chainID commit s needed (Suc idx) css seenVals tallied
      | (valIdx, Some val) \<Rightarrow>
          (case seenVals valIdx of
             Some firstIndex \<Rightarrow> Return (Inl (DoubleVote firstIndex idx))
           | None \<Rightarrow>
               obind (check_sig T chainID commit val idx cs) (\<lambda>ok.
                 if \<not> ok then Return (Inl (WrongSignature idx (csSignature cs)))
                 else let tallied' = i64_add tallied (VotingPower val)
                      in if tallied' > needed then Return (Inr None)
                         else verify_trusting_sigs T chainID commit s needed (Suc idx) css
                                (seenVals(valIdx \<mapsto> idx)) tallied')))"

definition VerifyCommitLightTrusting :: "'pk tm \<Rightarrow> bytes \<Rightarrow> Commit \<Rightarrow> Fraction \<Rightarrow> 'pk ProposerSet \<Rightarrow>
    ('pk ProposerSet \<times> verify_error option) outcome" where
  "VerifyCommitLightTrusting T chainID commit trustLevel s =
     (if Denominator trustLevel = 0 then Return (s, Some ZeroDenominator)
      else obind (TotalVotingPower s) (\<lambda>(s', total).
        let (totalMul, overflow) = safeMul total (wrap64 (Numerator trustLevel))
        in if overflow then Return (s', Some NumeratorOverflow)
           else let votingPowerNeeded = i64_quo totalMul (wrap64 (Denominator trustLevel))
                in obind (verify_trusting_sigs T chainID commit s' votingPowerNeeded 0
                            (cmSignatures commit) Map.empty 0) (\<lambda>r.
                  case r of
                    Inl err \<Rightarrow> Return (s', Some err)
                  | Inr None \<Rightarrow> Return (s', None)
                  | Inr (Some tallied) \<Rightarrow>
                      Return (s', Some (ErrNotEnoughVotingPowerSigned tallied votingPowerNeeded)))))"

section \<open>What a commit signature is worth\<close>

text \<open>A vote of its parts. The sign bytes do not mention the validator's address or index.\<close>

definition vote_for :: "SignedMsgType \<Rightarrow> DataHash \<Rightarrow> time \<Rightarrow> bytes \<Rightarrow> int \<Rightarrow> bytes \<Rightarrow> Vote" where
  "vote_for t h ts address index signature =
     \<lparr>vType = t, vDataHash = h, vTimestamp = ts, vValidatorAddress = address,
      vValidatorIndex = index, vSignature = signature\<rparr>"

text \<open>Among the votes \<open>E\<close> at hand is one for the hash that the validator's key verifies.\<close>

definition signs :: "'pk tm \<Rightarrow> bytes \<Rightarrow> SignedMsgType \<Rightarrow> DataHash \<Rightarrow> Vote set \<Rightarrow> 'pk Proposer \<Rightarrow> bool" where
  "signs T chainID t h E val \<longleftrightarrow>
     (\<exists>v \<in> E. \<exists>k. PubKey val = Some k \<and> vType v = t \<and> vDataHash v = h \<and> signed_by T chainID k v)"

lemma sign_bytes_vote_for:
  "sign_bytes T chainID (vote_for t h ts a i sg) = sign_bytes T chainID (vote_for t h ts [] 0 sg')"
  by (simp add: sign_bytes_def canonical_vote_def vote_for_def)

lemma signed_for_signs: "signed_for T chainID t vals h E i \<Longrightarrow> signs T chainID t h E (vals ! i)"
  by (auto simp: signed_for_def signs_def good_vote_def split: option.splits)

text \<open>The vote a commit signature at an index stands for, and when it can be checked.\<close>

definition sig_hash :: "Commit \<Rightarrow> CommitSig \<Rightarrow> DataHash" where
  "sig_hash c cs = (if ForBlock cs then cmDataHash c else DataHash_zero)"

definition sig_vote :: "Commit \<Rightarrow> nat \<Rightarrow> CommitSig \<Rightarrow> Vote" where
  "sig_vote c i cs = vote_for PrecommitType (sig_hash c cs) (csTimestamp cs)
     (csValidatorAddress cs) (int i) (csSignature cs)"

definition sig_checkable :: "'pk tm \<Rightarrow> bytes \<Rightarrow> Commit \<Rightarrow> CommitSig \<Rightarrow> bool" where
  "sig_checkable T chainID c cs \<longleftrightarrow>
     csDataHashFlag cs \<in> {DataHashFlagAbsent, DataHashFlagCommit, DataHashFlagNil} \<and>
     (\<not> Absent cs \<longrightarrow> hash_ok T (sig_hash c cs) \<and> marshals T chainID (sig_vote c 0 cs))"

definition commit_checkable :: "'pk tm \<Rightarrow> bytes \<Rightarrow> Commit \<Rightarrow> bool" where
  "commit_checkable T chainID c \<longleftrightarrow> length (cmSignatures c) < 2 ^ 31 \<and>
     list_all (sig_checkable T chainID c) (cmSignatures c)"

lemma marshals_sig_vote: "marshals T chainID (sig_vote c i cs) = marshals T chainID (sig_vote c 0 cs)"
  by (simp add: marshals_def canonical_vote_def sig_vote_def vote_for_def)

lemma Commit_GetVote_sig:
  assumes "i < length (cmSignatures c)" and "cmSignatures c ! i = cs"
    and "csDataHashFlag cs \<in> {DataHashFlagAbsent, DataHashFlagCommit, DataHashFlagNil}"
  shows "Commit_GetVote c (int i) = Return (sig_vote c i cs)"
proof -
  have "CommitSig_DataHash cs (cmDataHash c) = Return (sig_hash c cs)"
    using assms(3) by (auto simp: CommitSig_DataHash_def sig_hash_def ForBlock_def flag_defs)
  then show ?thesis
    using Commit_GetVote_nth [OF assms(1)] assms(2) by (simp add: sig_vote_def vote_for_def)
qed

lemma check_sig_ok:
  assumes c: "commit_checkable T chainID c" and i: "i < length (cmSignatures c)"
    and cs: "cmSignatures c ! i = cs" and "\<not> Absent cs" and k: "PubKey val = Some k"
  shows "check_sig T chainID c val i cs = Return (signed_by T chainID k (sig_vote c i cs))"
proof -
  have ok: "sig_checkable T chainID c cs" using c i cs by (auto simp: commit_checkable_def list_all_length)
  have "wrap32 (int i) = int i" using c i by (simp add: commit_checkable_def)
  moreover have "Commit_GetVote c (int i) = Return (sig_vote c i cs)"
    using ok by (intro Commit_GetVote_sig i cs) (simp add: sig_checkable_def)
  moreover have "VoteSignBytes T chainID (vote_pb (sig_vote c i cs)) =
      Return (sign_bytes T chainID (sig_vote c i cs))"
    using ok assms(4) marshals_sig_vote [of T chainID c i cs]
    by (simp add: VoteSignBytes_pb sig_checkable_def sig_vote_def vote_for_def)
  moreover obtain p where "Vote_ToProto (Some (sig_vote c i cs)) = Some p"
    by (simp add: Vote_ToProto_def)
  ultimately show ?thesis
    using k by (simp add: check_sig_def Commit_VoteSignBytes_def signed_by_def sig_vote_def vote_for_def)
qed

section \<open>The loops\<close>

definition sig_good :: "'pk tm \<Rightarrow> bytes \<Rightarrow> Commit \<Rightarrow> 'pk Proposer list \<Rightarrow> nat \<Rightarrow> bool" where
  "sig_good T chainID c vals i \<longleftrightarrow>
     (case PubKey (vals ! i) of
        None \<Rightarrow> False
      | Some k \<Rightarrow> signed_by T chainID k (sig_vote c i (cmSignatures c ! i)))"

text \<open>The indexes below \<open>m\<close> that signed for the block.\<close>

definition for_block :: "Commit \<Rightarrow> nat \<Rightarrow> nat set" where
  "for_block c m = {i. i < m \<and> ForBlock (cmSignatures c ! i)}"

lemma for_block_Suc:
  "for_block c (Suc m) = (if ForBlock (cmSignatures c ! m) then insert m (for_block c m) else for_block c m)"
  by (auto simp: for_block_def less_Suc_eq)

lemma for_block_subset: "m \<le> n \<Longrightarrow> for_block c m \<subseteq> {..<n}"
  by (auto simp: for_block_def)

lemma for_block_0 [simp]: "for_block c 0 = {}"
  by (simp add: for_block_def)

text \<open>A set and a commit of the same length that can be checked.\<close>

definition matching :: "'pk tm \<Rightarrow> bytes \<Rightarrow> Commit \<Rightarrow> 'pk Proposer list \<Rightarrow> bool" where
  "matching T chainID c vals \<longleftrightarrow> commit_checkable T chainID c \<and> powers_ok vals \<and>
     (\<forall>v \<in> set vals. PubKey v \<noteq> None) \<and> length (cmSignatures c) = length vals"

lemma matching_check:
  assumes m: "matching T chainID c vals" and i: "i < length vals" and a: "\<not> Absent (cmSignatures c ! i)"
  shows "check_sig T chainID c (vals ! i) i (cmSignatures c ! i) = Return (sig_good T chainID c vals i)"
proof -
  obtain k where k: "PubKey (vals ! i) = Some k"
    using m i by (fastforce simp: matching_def)
  then show ?thesis
    using m i a check_sig_ok [of T chainID c i "cmSignatures c ! i" "vals ! i" k]
    by (simp add: matching_def sig_good_def)
qed

lemma tally_exact:
  assumes m: "matching T chainID c vals" and i: "i < length vals" and b: "ForBlock (cmSignatures c ! i)"
  shows "i64_add (validators.power vals (for_block c i)) (VotingPower (vals ! i)) =
    validators.power vals (for_block c (Suc i))"
proof -
  have ok: "powers_ok vals" using m by (simp add: matching_def)
  have ni: "i \<notin> for_block c i" by (simp add: for_block_def)
  have eq: "validators.power vals (for_block c (Suc i)) =
      validators.power vals (for_block c i) + VotingPower (vals ! i)"
    using b i ni validators.power_insert [OF for_block_subset [of i "length vals" c] ni]
    by (simp add: for_block_Suc)
  have sub: "for_block c (Suc i) \<subseteq> {..<length vals}" using i by (intro for_block_subset) simp
  have "0 \<le> validators.power vals (for_block c (Suc i))"
    "validators.power vals (for_block c (Suc i)) \<le> power_sum vals"
    using validators.power_nonneg [OF ok sub] validators.power_le_total [OF ok sub] by auto
  then show ?thesis
    using eq powers_okD(4) [OF ok] by (simp add: i64_exact is_i64_iff MaxTotalVotingPower_eq)
qed

lemma drop_Cons_nth: "drop i xs = y # ys \<Longrightarrow> i < length xs \<and> xs ! i = y \<and> drop (Suc i) xs = ys"
  by (metis Cons_nth_drop_Suc drop_eq_Nil2 leI list.distinct(1) list.inject)

lemma ForBlock_not_Absent: "ForBlock cs \<Longrightarrow> \<not> Absent cs"
  by (simp add: ForBlock_def Absent_def flag_defs)

text \<open>What the results of the loops say, from index \<open>i\<close> on.\<close>

fun all_result :: "'pk tm \<Rightarrow> bytes \<Rightarrow> Commit \<Rightarrow> 'pk Proposer list \<Rightarrow> nat \<Rightarrow> verify_error + int \<Rightarrow> bool"
where
  "all_result T chainID c vals i (Inl e) \<longleftrightarrow>
     (\<exists>j < length vals. i \<le> j \<and> \<not> Absent (cmSignatures c ! j) \<and> \<not> sig_good T chainID c vals j)"
| "all_result T chainID c vals i (Inr t) \<longleftrightarrow>
     t = validators.power vals (for_block c (length vals)) \<and>
     (\<forall>j < length vals. i \<le> j \<longrightarrow> \<not> Absent (cmSignatures c ! j) \<longrightarrow> sig_good T chainID c vals j)"

fun light_result :: "'pk tm \<Rightarrow> bytes \<Rightarrow> Commit \<Rightarrow> 'pk Proposer list \<Rightarrow> int \<Rightarrow> nat \<Rightarrow>
    verify_error + int option \<Rightarrow> bool" where
  "light_result T chainID c vals needed i (Inl e) \<longleftrightarrow>
     (\<exists>j \<in> for_block c (length vals). i \<le> j \<and> \<not> sig_good T chainID c vals j)"
| "light_result T chainID c vals needed i (Inr None) \<longleftrightarrow>
     (\<exists>n \<le> length vals. needed < validators.power vals (for_block c n) \<and>
        (\<forall>j \<in> for_block c n. i \<le> j \<longrightarrow> sig_good T chainID c vals j))"
| "light_result T chainID c vals needed i (Inr (Some t)) \<longleftrightarrow>
     t = validators.power vals (for_block c (length vals)) \<and> t \<le> needed"

lemma all_result_step:
  assumes "all_result T chainID c vals (Suc i) r"
    and "Absent (cmSignatures c ! i) \<or> sig_good T chainID c vals i"
  shows "all_result T chainID c vals i r"
proof (cases r)
  case (Inl e)
  then show ?thesis using assms(1) Suc_leD by auto
next
  case (Inr t)
  have "sig_good T chainID c vals j"
    if "j < length vals" "i \<le> j" "\<not> Absent (cmSignatures c ! j)" for j
    using that assms Inr by (cases "j = i") auto
  then show ?thesis using assms(1) Inr by simp
qed

lemma light_result_step:
  assumes r: "light_result T chainID c vals needed (Suc i) r"
    and ok: "\<not> ForBlock (cmSignatures c ! i) \<or> sig_good T chainID c vals i"
  shows "light_result T chainID c vals needed i r"
proof (cases r)
  case (Inl e)
  then obtain j where "j \<in> for_block c (length vals)" "Suc i \<le> j" "\<not> sig_good T chainID c vals j"
    using r by auto
  then show ?thesis using Inl by (auto intro!: bexI [of _ j])
next
  case (Inr u)
  show ?thesis
  proof (cases u)
    case None
    then obtain n where n: "n \<le> length vals" "needed < validators.power vals (for_block c n)"
      "\<forall>j \<in> for_block c n. Suc i \<le> j \<longrightarrow> sig_good T chainID c vals j" using r Inr by auto
    have "sig_good T chainID c vals j" if j: "j \<in> for_block c n" "i \<le> j" for j
      using n(3) j ok by (cases "j = i") (auto simp: for_block_def)
    then show ?thesis using n Inr None by auto
  next
    case (Some t)
    then show ?thesis using r Inr by simp
  qed
qed

lemma verify_all_sigs_ok:
  assumes m: "matching T chainID c vals" and "drop i (cmSignatures c) = css"
    and "i \<le> length vals"
  shows "\<exists>r. verify_all_sigs T chainID c vals i css (validators.power vals (for_block c i)) = Return r \<and>
    all_result T chainID c vals i r"
  using assms(2,3)
proof (induction css arbitrary: i)
  case Nil
  then have "i = length vals" using m by (simp add: matching_def)
  then show ?case by auto
next
  case (Cons cs css)
  note d = drop_Cons_nth [OF Cons.prems(1)]
  have i: "i < length vals" using d m by (simp add: matching_def)
  then have next_i: "Suc i \<le> length vals" by simp
  obtain r where r: "verify_all_sigs T chainID c vals (Suc i) css
      (validators.power vals (for_block c (Suc i))) = Return r" "all_result T chainID c vals (Suc i) r"
    using Cons.IH [OF _ next_i] d by blast
  show ?case
  proof (cases "Absent cs")
    case True
    then have "\<not> ForBlock (cmSignatures c ! i)" using d ForBlock_not_Absent by blast
    then have "for_block c (Suc i) = for_block c i" by (simp add: for_block_Suc)
    then show ?thesis using True r d all_result_step [OF r(2)] by (intro exI [of _ r]) simp
  next
    case False
    have chk: "check_sig T chainID c (vals ! i) i cs = Return (sig_good T chainID c vals i)"
      using matching_check [OF m i] False d by simp
    have tally: "(if ForBlock cs then i64_add (validators.power vals (for_block c i)) (VotingPower (vals ! i))
        else validators.power vals (for_block c i)) = validators.power vals (for_block c (Suc i))"
      using tally_exact [OF m i] d by (simp add: for_block_Suc)
    show ?thesis
    proof (cases "sig_good T chainID c vals i")
      case True
      then show ?thesis using False r chk i tally all_result_step [OF r(2)] by (intro exI [of _ r]) simp
    next
      case bad: False
      then have "verify_all_sigs T chainID c vals i (cs # css) (validators.power vals (for_block c i)) =
          Return (Inl (WrongSignature i (csSignature cs)))"
        using False chk i by simp
      then show ?thesis using bad False d i
        by (intro exI [of _ "Inl (WrongSignature i (csSignature cs))"]) auto
    qed
  qed
qed

text \<open>One signature for the block: refused, enough, or one more to count.\<close>

lemma verify_light_sigs_block:
  assumes m: "matching T chainID c vals" and i: "i < length vals" and cs: "cmSignatures c ! i = cs" "ForBlock cs"
  shows "verify_light_sigs T chainID c vals needed i (cs # css) (validators.power vals (for_block c i)) =
    (if \<not> sig_good T chainID c vals i then Return (Inl (WrongSignature i (csSignature cs)))
     else if needed < validators.power vals (for_block c (Suc i)) then Return (Inr None)
     else verify_light_sigs T chainID c vals needed (Suc i) css (validators.power vals (for_block c (Suc i))))"
proof -
  have "check_sig T chainID c (vals ! i) i cs = Return (sig_good T chainID c vals i)"
    using matching_check [OF m i] ForBlock_not_Absent [OF cs(2)] cs(1) by simp
  moreover have "i64_add (validators.power vals (for_block c i)) (VotingPower (vals ! i)) =
      validators.power vals (for_block c (Suc i))"
    using tally_exact [OF m i] cs by simp
  ultimately show ?thesis using cs(2) i by simp
qed

lemma verify_light_sigs_ok:
  assumes m: "matching T chainID c vals" and "drop i (cmSignatures c) = css" and "i \<le> length vals"
    and "validators.power vals (for_block c i) \<le> needed"
  shows "\<exists>r. verify_light_sigs T chainID c vals needed i css (validators.power vals (for_block c i)) = Return r \<and>
    light_result T chainID c vals needed i r"
  using assms(2-4)
proof (induction css arbitrary: i)
  case Nil
  then have "i = length vals" using m by (simp add: matching_def)
  then show ?case using Nil.prems(3) by simp
next
  case (Cons cs css)
  note d = drop_Cons_nth [OF Cons.prems(1)]
  have i: "i < length vals" using d m by (simp add: matching_def)
  then have next_i: "Suc i \<le> length vals" by simp
  note IH = Cons.IH [OF _ next_i] and step = light_result_step [of T chainID c vals needed i]
  show ?case
  proof (cases "ForBlock cs")
    case False
    then have "for_block c (Suc i) = for_block c i" using d by (simp add: for_block_Suc)
    then obtain r where "verify_light_sigs T chainID c vals needed (Suc i) css
        (validators.power vals (for_block c i)) = Return r" "light_result T chainID c vals needed (Suc i) r"
      using IH d Cons.prems(3) by auto
    then show ?thesis using False d step by (intro exI [of _ r]) simp
  next
    case True
    note run = verify_light_sigs_block [OF m i _ True, of needed css]
    have mem: "i \<in> for_block c (length vals)" using True d i by (simp add: for_block_def)
    show ?thesis
    proof (cases "sig_good T chainID c vals i")
      case False
      then show ?thesis using run mem d
        by (intro exI [of _ "Inl (WrongSignature i (csSignature cs))"]) auto
    next
      case good: True
      show ?thesis
      proof (cases "needed < validators.power vals (for_block c (Suc i))")
        case over: True
        have "sig_good T chainID c vals j" if "j \<in> for_block c (Suc i)" "i \<le> j" for j
          using that good by (auto simp: for_block_def less_Suc_eq)
        then have "light_result T chainID c vals needed i (Inr None)" using over next_i by auto
        then show ?thesis using run good over d by (intro exI [of _ "Inr None"]) simp
      next
        case False
        then obtain r where "verify_light_sigs T chainID c vals needed (Suc i) css
            (validators.power vals (for_block c (Suc i))) = Return r"
          "light_result T chainID c vals needed (Suc i) r"
          using IH d by auto
        then show ?thesis using run False good d step by (intro exI [of _ r]) simp
      qed
    qed
  qed
qed

section \<open>The checks as a whole\<close>

text \<open>What a commit must be to pass the full check.\<close>

definition commit_proves :: "'pk tm \<Rightarrow> bytes \<Rightarrow> Commit \<Rightarrow> 'pk Proposer list \<Rightarrow> bool" where
  "commit_proves T chainID c vals \<longleftrightarrow>
     (\<forall>i < length vals. \<not> Absent (cmSignatures c ! i) \<longrightarrow> sig_good T chainID c vals i) \<and>
     power_sum vals * 2 < 3 * validators.power vals (for_block c (length vals))"

lemma needed_iff: "powers_ok vals \<Longrightarrow> two_thirds (power_sum vals) < p \<longleftrightarrow> power_sum vals * 2 < 3 * p"
  using validators.quorum_iff [of vals p] by (simp add: two_thirds_eq validators.quorum_def) linarith

lemma VerifyCommit_ok:
  assumes ok: "votable s" and m: "matching T chainID c (Proposers s)" and h: "Hash (cmDataHash c) = data"
  shows "\<exists>err. VerifyCommit T chainID data c s = Return (cached s, err) \<and>
    (err = None \<longleftrightarrow> commit_proves T chainID c (Proposers s))"
proof -
  let ?vals = "Proposers s"
  have powers: "powers_ok ?vals" using m by (simp add: matching_def)
  have total: "TotalVotingPower s = Return (cached s, power_sum ?vals)"
    using ok by (intro TotalVotingPower_ok) (simp_all add: votable_def)
  have guards: "Size s = length (cmSignatures c)" "\<lparr>Hash = data\<rparr> = cmDataHash c"
    using m h by (auto simp: matching_def Size_def)
  obtain r where r: "verify_all_sigs T chainID c ?vals 0 (cmSignatures c) 0 = Return r"
    "all_result T chainID c ?vals 0 r" using verify_all_sigs_ok [OF m, of 0] by auto
  show ?thesis
  proof (cases r)
    case (Inl e)
    then have "\<not> commit_proves T chainID c ?vals" using r(2) by (auto simp: commit_proves_def)
    then show ?thesis using Inl r(1) guards total by (simp add: VerifyCommit_def)
  next
    case (Inr t)
    then have t: "t = validators.power ?vals (for_block c (length ?vals))"
      "commit_proves T chainID c ?vals \<longleftrightarrow> two_thirds (power_sum ?vals) < t"
      using r(2) needed_iff [OF powers] by (auto simp: commit_proves_def)
    then show ?thesis
      using Inr r(1) guards total by (cases "t \<le> two_thirds (power_sum ?vals)") (simp_all add: VerifyCommit_def)
  qed
qed

end
