(* ===== verification/Con_CommitProofs.thy ===== *)
theory Con_CommitProofs
  imports Con_VerifyCommit
begin

text \<open>
  What the three commit checks guarantee, and how they and the vote sets agree: a commit
  that passes any of them carries enough verified signatures, the light check accepts what
  the full check accepts, and no two accepted hashes without double signers.
\<close>

section \<open>The light check\<close>

lemma VerifyCommitLight_ok:
  assumes ok: "votable s" and m: "matching T chainID c (Proposers s)"
  shows "\<exists>err. VerifyCommitLight T chainID (cmDataHash c) c s = Return (cached s, err) \<and>
    (err = None \<longrightarrow> (\<exists>n \<le> length (Proposers s).
       validators.quorum (Proposers s) \<le> validators.power (Proposers s) (for_block c n) \<and>
       (\<forall>j \<in> for_block c n. sig_good T chainID c (Proposers s) j))) \<and>
    (commit_proves T chainID c (Proposers s) \<longrightarrow> err = None)"
proof -
  let ?vals = "Proposers s" and ?needed = "two_thirds (power_sum (Proposers s))"
  have powers: "powers_ok ?vals" using m by (simp add: matching_def)
  have q: "?needed < p \<longleftrightarrow> validators.quorum ?vals \<le> p" for p
    unfolding validators.quorum_iff by (rule needed_iff [OF powers])
  have total: "TotalVotingPower s = Return (cached s, power_sum ?vals)"
    using ok by (intro TotalVotingPower_ok) (simp_all add: votable_def)
  have guard: "Size s = length (cmSignatures c)" using m by (simp add: matching_def Size_def)
  have "0 \<le> ?needed"
    using powers_okD(3) [OF powers] by (simp add: two_thirds_eq(1) [OF powers])
  then obtain r where r: "verify_light_sigs T chainID c ?vals ?needed 0 (cmSignatures c) 0 = Return r"
    "light_result T chainID c ?vals ?needed 0 r"
    using verify_light_sigs_ok [OF m, of 0 "cmSignatures c" ?needed] by auto
  have run: "VerifyCommitLight T chainID (cmDataHash c) c s = Return (cached s,
      case r of Inl err \<Rightarrow> Some err | Inr None \<Rightarrow> None
      | Inr (Some t) \<Rightarrow> Some (ErrNotEnoughVotingPowerSigned t ?needed))"
    using r(1) total guard by (simp add: VerifyCommitLight_def split: sum.splits option.splits)
  show ?thesis
  proof (cases r)
    case (Inl e)
    then have "\<not> commit_proves T chainID c ?vals"
      using r(2) ForBlock_not_Absent by (auto simp: commit_proves_def for_block_def)
    then show ?thesis using run Inl by simp
  next
    case (Inr u)
    show ?thesis
    proof (cases u)
      case None
      then show ?thesis using run Inr r(2) q by simp
    next
      case (Some t)
      then have t: "t = validators.power ?vals (for_block c (length ?vals))" "t \<le> ?needed"
        using r(2) Inr by simp_all
      then have "\<not> power_sum ?vals * 2 < 3 * t" using needed_iff [OF powers, of t] by linarith
      then have "\<not> commit_proves T chainID c ?vals" using t(1) by (simp add: commit_proves_def)
      then show ?thesis using run Inr Some by simp
    qed
  qed
qed

text \<open>The votes a commit shows.\<close>

definition commit_votes :: "Commit \<Rightarrow> Vote set" where
  "commit_votes c = {sig_vote c i (cmSignatures c ! i) | i.
     i < length (cmSignatures c) \<and> \<not> Absent (cmSignatures c ! i)}"

lemma commit_signs:
  assumes "ForBlock (cmSignatures c ! i)" and "i < length (cmSignatures c)"
    and "PubKey val = Some k" and "signed_by T chainID k (sig_vote c i (cmSignatures c ! i))"
  shows "signs T chainID PrecommitType (cmDataHash c) (commit_votes c) val"
proof -
  have "sig_vote c i (cmSignatures c ! i) \<in> commit_votes c"
    using assms(2) ForBlock_not_Absent [OF assms(1)] by (auto simp: commit_votes_def)
  moreover have "vDataHash (sig_vote c i (cmSignatures c ! i)) = cmDataHash c"
    "vType (sig_vote c i (cmSignatures c ! i)) = PrecommitType"
    using assms(1) by (simp_all add: sig_vote_def sig_hash_def vote_for_def)
  ultimately show ?thesis using assms(3,4) by (auto simp: signs_def)
qed

lemma sig_good_signs:
  assumes "sig_good T chainID c vals i" and "ForBlock (cmSignatures c ! i)" and "i < length (cmSignatures c)"
  shows "signs T chainID PrecommitType (cmDataHash c) (commit_votes c) (vals ! i)"
  using assms commit_signs by (auto simp: sig_good_def split: option.splits)

text \<open>Validators with more than two thirds of the power signed for the hash, as the votes show.\<close>

definition quorum_signs :: "'pk tm \<Rightarrow> bytes \<Rightarrow> SignedMsgType \<Rightarrow> 'pk Proposer list \<Rightarrow> DataHash \<Rightarrow> Vote set \<Rightarrow> bool"
where
  "quorum_signs T chainID t vals h E \<longleftrightarrow>
     (\<exists>A \<subseteq> {..<length vals}. validators.quorum vals \<le> validators.power vals A \<and>
        (\<forall>i \<in> A. signs T chainID t h E (vals ! i)))"

lemma light_quorum_signs:
  assumes "votable s" and "matching T chainID c (Proposers s)"
    and "VerifyCommitLight T chainID (cmDataHash c) c s = Return (s', None)"
  shows "quorum_signs T chainID PrecommitType (Proposers s) (cmDataHash c) (commit_votes c)"
proof -
  obtain n where n: "n \<le> length (Proposers s)"
    "validators.quorum (Proposers s) \<le> validators.power (Proposers s) (for_block c n)"
    "\<forall>j \<in> for_block c n. sig_good T chainID c (Proposers s) j"
    using VerifyCommitLight_ok [OF assms(1,2)] assms(3) by auto
  have "length (cmSignatures c) = length (Proposers s)" using assms(2) by (simp add: matching_def)
  then have "signs T chainID PrecommitType (cmDataHash c) (commit_votes c) (Proposers s ! i)"
    if "i \<in> for_block c n" for i
    using n(1,3) that by (intro sig_good_signs) (auto simp: for_block_def)
  then show ?thesis
    using for_block_subset [OF n(1), of c] n(2)
    unfolding quorum_signs_def by (intro exI [of _ "for_block c n"]) simp
qed

lemma majority_quorum_signs:
  assumes "vote_history T chainID t s vs" and "votable s" and "vsMaj23 vs = Some h"
  shows "quorum_signs T chainID t (Proposers s) h (ballots vs)"
proof -
  from vote_history_inv [OF assms(1,2)] have inv: "core_inv T vs" and
    f: "vsChainID vs = chainID" "vsSignedMsgType vs = t" "members vs = Proposers s"
    by (simp_all add: vote_inv_def)
  from majority_signers [OF inv assms(3)] obtain A where A: "A \<subseteq> {..<length (Proposers s)}"
    "validators.quorum (Proposers s) \<le> validators.power (Proposers s) A"
    "\<forall>i \<in> A. signed_for T chainID t (Proposers s) h (ballots vs) i" unfolding f by (elim exE conjE) (rule that)
  then show ?thesis
    unfolding quorum_signs_def by (intro exI [of _ A]) (simp add: signed_for_signs)
qed

text \<open>Validators with more than a third of the power signed for both hashes, and the votes show it.\<close>

definition double_signers :: "'pk tm \<Rightarrow> bytes \<Rightarrow> SignedMsgType \<Rightarrow> 'pk Proposer list \<Rightarrow> DataHash \<times> Vote set \<Rightarrow>
    DataHash \<times> Vote set \<Rightarrow> bool" where
  "double_signers T chainID t vals p q \<longleftrightarrow>
     (\<exists>A \<subseteq> {..<length vals}. power_sum vals < 3 * validators.power vals A \<and>
        (\<forall>i \<in> A. signs T chainID t (fst p) (snd p) (vals ! i) \<and> signs T chainID t (fst q) (snd q) (vals ! i)))"

lemma quorums_double_sign:
  assumes "powers_ok vals" and "quorum_signs T chainID t vals h1 E1" and "quorum_signs T chainID t vals h2 E2"
  shows "double_signers T chainID t vals (h1, E1) (h2, E2)"
proof -
  obtain A B where
    A: "A \<subseteq> {..<length vals}" "validators.quorum vals \<le> validators.power vals A"
      "\<forall>i \<in> A. signs T chainID t h1 E1 (vals ! i)" and
    B: "B \<subseteq> {..<length vals}" "validators.quorum vals \<le> validators.power vals B"
      "\<forall>i \<in> B. signs T chainID t h2 E2 (vals ! i)"
    using assms(2,3) unfolding quorum_signs_def by blast
  have "power_sum vals < 3 * validators.power vals (A \<inter> B)"
    using assms(1) A(1,2) B(1,2) by (intro validators.quorum_intersection)
  then show ?thesis unfolding double_signers_def using A B by (intro exI [of _ "A \<inter> B"]) auto
qed

section \<open>The check against a trusted set\<close>

text \<open>\<open>trusted_signs\<close>: validators of the set with more than \<open>needed\<close> of the power signed.\<close>

definition trusted_signs :: "'pk tm \<Rightarrow> bytes \<Rightarrow> 'pk Proposer list \<Rightarrow> Commit \<Rightarrow> int \<Rightarrow> bool" where
  "trusted_signs T chainID vals c needed \<longleftrightarrow>
     (\<exists>A \<subseteq> {..<length vals}. needed < validators.power vals A \<and>
        (\<forall>i \<in> A. signs T chainID PrecommitType (cmDataHash c) (commit_votes c) (vals ! i)))"

lemma trusting_tally:
  assumes powers: "powers_ok vals" and A: "A \<subseteq> {..<length vals}" and k: "k < length vals" "k \<notin> A"
  shows "i64_add (validators.power vals A) (VotingPower (vals ! k)) = validators.power vals (insert k A)"
proof -
  have sub: "insert k A \<subseteq> {..<length vals}" using A k(1) by simp
  have "0 \<le> validators.power vals (insert k A)" "validators.power vals (insert k A) \<le> power_sum vals"
    using validators.power_nonneg [OF powers sub] validators.power_le_total [OF powers sub] by auto
  then show ?thesis
    using validators.power_insert [OF A k(2)] powers_okD(4) [OF powers]
    by (simp add: i64_exact is_i64_iff MaxTotalVotingPower_eq)
qed

text \<open>One signature of a validator that has not been counted: a bad one ends the check, a good one
  counts its power, and ends the check when that is enough.\<close>

lemma trusting_sig_new:
  assumes ck: "commit_checkable T chainID c" and powers: "powers_ok (Proposers s)"
    and pk: "PubKey v = Some pk" and g: "GetByAddress s (csValidatorAddress cs) = (int k, Some v)"
    and k: "k < length (Proposers s)" "Proposers s ! k = v" "k \<notin> A" and A: "A \<subseteq> {..<length (Proposers s)}"
    and new: "seen (int k) = None" and i: "i < length (cmSignatures c)" "cmSignatures c ! i = cs" and block: "ForBlock cs"
  shows "verify_trusting_sigs T chainID c s needed i (cs # css) seen (validators.power (Proposers s) A) =
    (if \<not> signed_by T chainID pk (sig_vote c i cs) then Return (Inl (WrongSignature i (csSignature cs)))
     else if needed < validators.power (Proposers s) (insert k A) then Return (Inr None)
     else verify_trusting_sigs T chainID c s needed (Suc i) css (seen(int k \<mapsto> i))
       (validators.power (Proposers s) (insert k A)))"
proof -
  have "check_sig T chainID c v i cs = Return (signed_by T chainID pk (sig_vote c i cs))"
    using i ForBlock_not_Absent [OF block] pk by (intro check_sig_ok [OF ck]) simp_all
  then show ?thesis
    using trusting_tally [OF powers A k(1,3)] k(2) block g new by (simp del: fun_upd_apply)
qed

lemma trusting_sig_step:
  assumes ck: "commit_checkable T chainID c" and powers: "powers_ok (Proposers s)"
    and keys: "\<forall>v \<in> set (Proposers s). PubKey v \<noteq> None" and len: "length (Proposers s) < 2 ^ 31"
    and i: "i < length (cmSignatures c)" "cmSignatures c ! i = cs" and A: "A \<subseteq> {..<length (Proposers s)}"
    and seen: "dom seen = int ` A"
  fixes needed css
  defines "run \<equiv> verify_trusting_sigs T chainID c s needed i (cs # css) seen (validators.power (Proposers s) A)"
  obtains (skip) "run = verify_trusting_sigs T chainID c s needed (Suc i) css seen (validators.power (Proposers s) A)"
  | (refused) e where "run = Return (Inl e)"
  | (counted) k where "k < length (Proposers s)"
      and "signs T chainID PrecommitType (cmDataHash c) (commit_votes c) (Proposers s ! k)"
      and "run = (if needed < validators.power (Proposers s) (insert k A) then Return (Inr None)
        else verify_trusting_sigs T chainID c s needed (Suc i) css (seen(int k \<mapsto> i))
          (validators.power (Proposers s) (insert k A)))"
proof -
  obtain valIdx val where g: "GetByAddress s (csValidatorAddress cs) = (valIdx, val)" by fastforce
  show ?thesis
  proof (cases "ForBlock cs \<and> val \<noteq> None")
    case False
    then show ?thesis using skip g by (cases val) (auto simp: run_def)
  next
    case True
    then obtain v where block: "ForBlock cs" and v: "val = Some v" by blast
    obtain k where k: "k < length (Proposers s)" "valIdx = int k" "Proposers s ! k = v"
      using find_address_index [of "Proposers s" "csValidatorAddress cs" 0 valIdx v] g v len
      by (auto simp: GetByAddress_def)
    show ?thesis
    proof (cases "seen valIdx")
      case (Some j)
      then show ?thesis using refused block g v by (simp add: run_def)
    next
      case None
      then have new: "seen (int k) = None" and kA: "k \<notin> A" using seen k(2) by (simp, metis domIff imageI)
      obtain pk where pk: "PubKey v = Some pk" using keys k nth_mem [OF k(1)] by auto
      note eq = trusting_sig_new
        [where seen = seen and i = i and k = k, OF ck powers pk g [unfolded k(2) v] k(1,3) kA A new i block, of needed css]
      have "signed_by T chainID pk (sig_vote c i cs) \<Longrightarrow>
          signs T chainID PrecommitType (cmDataHash c) (commit_votes c) (Proposers s ! k)"
        using i k(3) pk block by (intro commit_signs [of c i _ pk]) simp_all
      then show ?thesis
        using eq refused counted [OF k(1)]
        by (cases "signed_by T chainID pk (sig_vote c i cs)") (simp_all add: run_def del: fun_upd_apply)
    qed
  qed
qed

lemma verify_trusting_sigs_ok:
  assumes ck: "commit_checkable T chainID c" and powers: "powers_ok (Proposers s)"
    and keys: "\<forall>v \<in> set (Proposers s). PubKey v \<noteq> None" and len: "length (Proposers s) < 2 ^ 31"
    and "drop i (cmSignatures c) = css" and "A \<subseteq> {..<length (Proposers s)}"
    and "\<forall>j \<in> A. signs T chainID PrecommitType (cmDataHash c) (commit_votes c) (Proposers s ! j)"
    and "dom seen = int ` A"
  shows "\<exists>r. verify_trusting_sigs T chainID c s needed i css seen (validators.power (Proposers s) A) = Return r \<and>
    (r = Inr None \<longrightarrow> trusted_signs T chainID (Proposers s) c needed)"
  using assms(5-8)
proof (induction css arbitrary: i A seen)
  case Nil
  then show ?case by simp
next
  case (Cons cs css)
  have d: "i < length (cmSignatures c)" "cmSignatures c ! i = cs" "drop (Suc i) (cmSignatures c) = css"
    using drop_Cons_nth [OF Cons.prems(1)] by simp_all
  show ?case
  proof (rule trusting_sig_step [OF ck powers keys len d(1,2) Cons.prems(2,4), of needed css])
    assume "verify_trusting_sigs T chainID c s needed i (cs # css) seen (validators.power (Proposers s) A) =
      verify_trusting_sigs T chainID c s needed (Suc i) css seen (validators.power (Proposers s) A)"
    then show ?thesis using Cons.IH [OF d(3) Cons.prems(2-4)] by (simp only:)
  next
    fix e assume "verify_trusting_sigs T chainID c s needed i (cs # css) seen (validators.power (Proposers s) A) =
      Return (Inl e)"
    then show ?thesis by (simp only:) simp
  next
    fix k
    assume k: "k < length (Proposers s)"
      "signs T chainID PrecommitType (cmDataHash c) (commit_votes c) (Proposers s ! k)"
      and run: "verify_trusting_sigs T chainID c s needed i (cs # css) seen (validators.power (Proposers s) A) =
        (if needed < validators.power (Proposers s) (insert k A) then Return (Inr None)
         else verify_trusting_sigs T chainID c s needed (Suc i) css (seen(int k \<mapsto> i))
           (validators.power (Proposers s) (insert k A)))"
    have sub: "insert k A \<subseteq> {..<length (Proposers s)}" using Cons.prems(2) k(1) by simp
    have signs: "\<forall>j \<in> insert k A. signs T chainID PrecommitType (cmDataHash c) (commit_votes c) (Proposers s ! j)"
      using Cons.prems(3) k(2) by simp
    show ?thesis
    proof (cases "needed < validators.power (Proposers s) (insert k A)")
      case True
      then have "trusted_signs T chainID (Proposers s) c needed"
        unfolding trusted_signs_def using sub signs by blast
      then show ?thesis unfolding run using True by simp
    next
      case False
      have "dom (seen(int k \<mapsto> i)) = int ` insert k A" using Cons.prems(4) by auto
      from Cons.IH [OF d(3) sub signs this] show ?thesis
        unfolding run using False by (simp only: if_False)
    qed
  qed
qed

lemma VerifyCommitLightTrusting_ok:
  assumes ok: "votable s" and ck: "commit_checkable T chainID c"
    and keys: "\<forall>v \<in> set (Proposers s). PubKey v \<noteq> None" and len: "length (Proposers s) < 2 ^ 31"
    and num: "0 \<le> Numerator f" "Numerator f < 2 ^ 63" and den: "0 < Denominator f" "Denominator f < 2 ^ 63"
  shows "\<exists>s' err. VerifyCommitLightTrusting T chainID c f s = Return (s', err) \<and>
    (err = None \<longrightarrow> trusted_signs T chainID (Proposers s) c
       (power_sum (Proposers s) * Numerator f div Denominator f))"
proof -
  let ?vals = "Proposers s" and ?T = "power_sum (Proposers s)" and ?n = "Numerator f" and ?d = "Denominator f"
  have powers: "powers_ok ?vals" using ok by (simp add: votable_def)
  have total: "TotalVotingPower s = Return (cached s, ?T)"
    using ok by (intro TotalVotingPower_ok) (simp_all add: votable_def)
  have bounds: "0 \<le> ?T" "is_i64 ?T" using powers_okD(3) [OF powers] powers_ok_i64(2) [OF powers] by auto
  have wraps: "wrap64 ?n = ?n" "wrap64 ?d = ?d" "is_i64 ?n" "is_i64 ?d"
    using num den by (simp_all add: is_i64_iff)
  have mul: "safeMul ?T ?n = (if \<bar>?T * ?n\<bar> \<le> MaxInt64 then (?T * ?n, False) else (0, True))"
    using bounds wraps by (intro safeMul_spec) (auto simp: MinInt64_def)
  show ?thesis
  proof (cases "\<bar>?T * ?n\<bar> \<le> MaxInt64")
    case False
    then show ?thesis using den total wraps mul by (simp add: VerifyCommitLightTrusting_def)
  next
    case True
    have "0 \<le> ?T * ?n" using bounds(1) num(1) by (rule mult_nonneg_nonneg)
    then have needed: "i64_quo (?T * ?n) ?d = ?T * ?n div ?d"
      using True den by (intro i64_quo_nonneg) (auto simp: is_i64_iff MaxInt64_def)
    obtain r where r: "verify_trusting_sigs T chainID c (cached s) (?T * ?n div ?d) 0
        (cmSignatures c) Map.empty 0 = Return r"
      "r = Inr None \<longrightarrow> trusted_signs T chainID ?vals c (?T * ?n div ?d)"
      using verify_trusting_sigs_ok [of T chainID c "cached s" 0 "cmSignatures c" "{}" Map.empty
          "?T * ?n div ?d"] ck powers keys len by auto
    then show ?thesis
      using True den total wraps mul needed
      by (auto simp: VerifyCommitLightTrusting_def split: sum.splits option.splits)
  qed
qed

end
