(* ===== verification/Con_CommitVotes.thy ===== *)
theory Con_CommitVotes
  imports Con_CommitProofs
begin

text \<open>
  From votes to commits and back: when nobody double signs, the canonical votes of a vote
  set are the votes added, in whatever order, and the recorded majority is the hash with
  more than two thirds of them; the commit made of a majority passes verification, and
  replaying a commit gives the majority back.
\<close>

section \<open>The canonical votes decide the majority\<close>

definition voted_for :: "Vote option list \<Rightarrow> DataHash \<Rightarrow> nat set" where
  "voted_for votes h =
     {i. i < length votes \<and> (case votes ! i of None \<Rightarrow> False | Some v \<Rightarrow> vDataHash v = h)}"

lemma voted_for_iff:
  "i \<in> voted_for votes h \<longleftrightarrow> i < length votes \<and> (\<exists>v. votes ! i = Some v \<and> vDataHash v = h)"
  by (auto simp: voted_for_def split: option.splits)

lemma voted_for_subset: "voted_for votes h \<subseteq> {..<length votes}"
  by (auto simp: voted_for_def)

text \<open>The recorded majority holds a quorum of the canonical votes.\<close>

lemma majority_canonical:
  assumes core: "core_inv T vs" and maj: "vsMaj23 vs = Some h"
  shows "validators.quorum (members vs) \<le> validators.power (members vs) (voted_for (vsVotes vs) h)"
proof -
  obtain bv where bv: "vsVotesByBlock vs (Key h) = Some bv" "validators.quorum (members vs) \<le> bvSum bv"
    "\<forall>i < length (bvVotes bv). bvVotes bv ! i \<noteq> None \<longrightarrow> vsVotes vs ! i = bvVotes bv ! i"
    using core_invD(7) [OF core] maj by (auto simp: majority_ok_def)
  note block = core_invD(6) [OF core bv(1)]
  have len: "length (bvVotes bv) = length (vsVotes vs)" "length (vsVotes vs) = length (members vs)"
    using block_okD(2) [OF block] core_invD(4) [OF core] by simp_all
  have "voters (bvVotes bv) \<subseteq> voted_for (vsVotes vs) h"
  proof
    fix i assume "i \<in> voters (bvVotes bv)"
    then obtain v where i: "i < length (bvVotes bv)" and v: "bvVotes bv ! i = Some v"
      by (auto simp: voters_def)
    moreover have "vDataHash v = h" using block_okD(3) [OF block _ v] i len by simp
    ultimately show "i \<in> voted_for (vsVotes vs) h" using bv(3) len by (auto simp: voted_for_iff)
  qed
  then have "validators.power (members vs) (voters (bvVotes bv)) \<le>
      validators.power (members vs) (voted_for (vsVotes vs) h)"
    using voted_for_subset [of "vsVotes vs" h] len(2)
    by (intro validators.power_mono core_invD(1) [OF core]) simp_all
  then show ?thesis using bv(2) block_okD(4) [OF block] by simp
qed

lemma canonical_majority:
  assumes inv: "vote_inv T vs"
    and q: "validators.quorum (members vs) \<le> validators.power (members vs) (voted_for (vsVotes vs) h)"
  shows "vsMaj23 vs = Some h"
proof (cases "vsMaj23 vs")
  case (Some h')
  show ?thesis
  proof (rule ccontr)
    assume "vsMaj23 vs \<noteq> Some h"
    then have "voted_for (vsVotes vs) h \<inter> voted_for (vsVotes vs) h' = {}"
      using Some by (auto simp: voted_for_iff)
    then show False
      using validators.disjoint_quorums [OF core_invD(1) [OF vote_invD(1) [OF inv]] _ _ _ q
          majority_canonical [OF vote_invD(1) [OF inv] Some]]
        voted_for_subset [of "vsVotes vs"] core_invD(4) [OF vote_invD(1) [OF inv]] by metis
  qed
next
  case None
  note core = vote_invD(1) [OF inv]
  let ?A = "voted_for (vsVotes vs) h"
  have len: "length (vsVotes vs) = length (members vs)" by (rule core_invD(4) [OF core])
  have tracked: "\<exists>b. vsVotesByBlock vs (Key h) = Some b \<and> i \<in> voters (bvVotes b)" if i: "i \<in> ?A" for i
  proof -
    obtain v where v: "i < length (vsVotes vs)" "vsVotes vs ! i = Some v" "vDataHash v = h"
      using i by (auto simp: voted_for_iff)
    then obtain b where b: "vsVotesByBlock vs (Key h) = Some b" "bvVotes b ! i = Some v"
      using vote_invD(2) [OF inv v(1)] None by (auto simp: backed_iff)
    then show ?thesis
      using v(1) block_okD(2) [OF core_invD(6) [OF core b(1)]] len by (auto simp: voters_def)
  qed
  have "?A \<noteq> {}"
    using q quorum_pos [OF core_invD(1) [OF core]] by auto
  then obtain b where b: "vsVotesByBlock vs (Key h) = Some b" using tracked by blast
  note block = core_invD(6) [OF core b]
  have "?A \<subseteq> voters (bvVotes b)" using tracked b by auto
  then have "validators.power (members vs) ?A \<le> bvSum b"
    using voters_subset [of "bvVotes b"] block_okD(2,4) [OF block]
    by (simp add: validators.power_mono [OF core_invD(1) [OF core]])
  moreover have "bvSum b < validators.quorum (members vs)"
    using core_invD(7) [OF core] None b by (simp add: majority_ok_def)
  ultimately show ?thesis using q by simp
qed

section \<open>Adding votes without conflicts\<close>

text \<open>No tracked vote differs from the canonical one.\<close>

definition calm :: "'pk VoteSet \<Rightarrow> bool" where
  "calm vs \<longleftrightarrow> (\<forall>k bv j. vsVotesByBlock vs k = Some bv \<longrightarrow> j < length (bvVotes bv) \<longrightarrow>
     bvVotes bv ! j \<noteq> None \<longrightarrow> vsVotes vs ! j = bvVotes bv ! j)"

lemma calm_new: "calm (NewVoteSet chainID t s)"
  by (simp add: calm_def NewVoteSet_def)

lemma unknown_fresh:
  assumes core: "core_inv T vs" and i: "i < length (members vs)" and none: "vsVotes vs ! i = None"
  shows "unknown_vote vs i vote"
proof -
  have "bvVotes bv ! i = None" if "vsVotesByBlock vs k = Some bv" for k bv
    using block_okD(2,5) [OF core_invD(6) [OF core that]] i none by (auto simp: voters_def)
  then show ?thesis using none by (simp add: unknown_vote_def)
qed

lemma calm_tracked:
  assumes calm: "calm vs" and same: "vsVotes w = vsVotes vs"
    and held: "vsVotesByBlock w = (vsVotesByBlock vs)(k \<mapsto> bv)"
    and bv: "\<And>j. j < length (bvVotes bv) \<Longrightarrow> bvVotes bv ! j \<noteq> None \<Longrightarrow> vsVotes vs ! j = bvVotes bv ! j"
  shows "calm w"
  using assms unfolding calm_def by (simp split: if_splits)

lemma track_calm:
  assumes core: "core_inv T vs" and good: "good_in T vs i vote"
    and bv: "block_ok T vs (Key (vDataHash vote)) bv" and bvi: "bvVotes bv ! i = None"
    and voted: "vsVotes vs ! i = Some vote"
    and known: "vsVotesByBlock vs (Key (vDataHash vote)) = Some bv \<or>
      vsVotesByBlock vs (Key (vDataHash vote)) = None \<and> bv = newBlockVotes p (length (members vs))"
    and calm: "calm vs"
  shows "\<exists>vs'. track_vote vote (Key (vDataHash vote)) (VotingPower (members vs ! i)) bv vs = Return vs' \<and>
    vsVotes vs' = vsVotes vs \<and> calm vs'"
proof -
  let ?k = "Key (vDataHash vote)"
  let ?bv' = "counted vote i (VotingPower (members vs ! i)) bv"
  let ?vs1 = "tracked_as vs ?k ?bv'"
  have len: "length (bvVotes bv) = length (vsVotes vs)" "i < length (vsVotes vs)"
    using block_okD(2) [OF bv] core_invD(4) [OF core] good by (simp_all add: good_vote_def)
  have voted': "i \<in> voters (vsVotes vs)" using voted len by (simp add: voters_def)
  have known': "vsVotesByBlock vs ?k = Some bv \<or> vsVotesByBlock vs ?k = None \<and> bvSum bv = 0"
    using known newBlockVotes_ok(2) by auto
  from track_vote_ok [OF core good bv bvi voted' known' voted] obtain ws where
    run: "track_vote vote ?k (VotingPower (members vs ! i)) bv vs =
      Return (if vsMaj23 vs = None \<and> validators.quorum (members vs) \<le> bvSum ?bv'
              then ?vs1\<lparr>vsMaj23 := Some (vDataHash vote), vsVotes := ws\<rparr> else ?vs1)"
    and ws: "length ws = length (vsVotes vs)" "\<forall>j < length (vsVotes vs). ws ! j =
      (if bvVotes ?bv' ! j \<noteq> None then bvVotes ?bv' ! j else vsVotes vs ! j)" by blast
  have old: "vsVotes vs ! j = bvVotes bv ! j" if "j < length (vsVotes vs)" "bvVotes bv ! j \<noteq> None" for j
    using known
  proof
    assume "vsVotesByBlock vs ?k = Some bv"
    then show ?thesis using calm that len by (simp add: calm_def)
  next
    assume "vsVotesByBlock vs ?k = None \<and> bv = newBlockVotes p (length (members vs))"
    then show ?thesis using that len by (simp add: newBlockVotes_ok)
  qed
  have same: "vsVotes vs ! j = bvVotes ?bv' ! j" if "j < length (vsVotes vs)" "bvVotes ?bv' ! j \<noteq> None" for j
    using that old voted len by (cases "j = i") (simp_all add: counted_def)
  then have ws': "ws = vsVotes vs" using ws by (intro nth_equalityI) simp_all
  have votes1: "vsVotes ?vs1 = vsVotes vs" by (simp add: tracked_as_def)
  have calm1: "calm w" if "vsVotes w = vsVotes vs"
    "vsVotesByBlock w = (vsVotesByBlock vs)(?k \<mapsto> ?bv')" for w :: "'a VoteSet"
  proof (rule calm_tracked [OF calm that])
    have "length (bvVotes ?bv') = length (vsVotes vs)" using len by (simp add: counted_def)
    then show "vsVotes vs ! j = bvVotes ?bv' ! j" if "j < length (bvVotes ?bv')" "bvVotes ?bv' ! j \<noteq> None" for j
      using that by (intro same) simp_all
  qed
  show ?thesis
  proof (cases "vsMaj23 vs = None \<and> validators.quorum (members vs) \<le> bvSum ?bv'")
    case True
    have "calm (?vs1\<lparr>vsMaj23 := Some (vDataHash vote), vsVotes := ws\<rparr>)"
      by (rule calm1) (simp_all add: ws' tracked_as_def)
    then show ?thesis using run True ws' by simp
  next
    case False
    have "calm ?vs1" by (rule calm1) (simp_all add: tracked_as_def)
    then show ?thesis using run False votes1 by auto
  qed
qed


lemma good_verified:
  assumes "good_in T vs i vote"
  shows "Vote_Verify T vote (vsChainID vs) (PubKey (members vs ! i)) = Return None"
proof -
  obtain k where k: "PubKey (members vs ! i) = Some k" "PubKey_Address T k = vValidatorAddress vote"
    "signed_by T (vsChainID vs) k vote"
    using assms by (auto simp: good_vote_def split: option.splits)
  then show ?thesis
    using assms Vote_Verify_eq [where T = T and v = vote and chainID = "vsChainID vs" and k = k]
    by (simp add: good_vote_def)
qed

lemma addVerified_fresh:
  assumes inv: "vote_inv T vs" and good: "good_in T vs i vote" and none: "vsVotes vs ! i = None"
    and calm: "calm vs"
  shows "\<exists>vs'. VoteSet_addVerifiedVote vote (Key (vDataHash vote)) (VotingPower (members vs ! i)) vs =
      Return (vs', True, None) \<and> vsVotes vs' = (vsVotes vs)[i := Some vote] \<and> calm vs'"
proof -
  let ?k = "Key (vDataHash vote)" and ?p = "VotingPower (members vs ! i)"
  note core = vote_invD(1) [OF inv]
  have i: "i < length (members vs)" "length (vsVotes vs) = length (members vs)"
    using good core_invD(4) [OF core] by (simp_all add: good_vote_def)
  note unk = unknown_fresh [OF core i(1) none, of vote]
  from record_vote_ok [OF core good unk] obtain vs1 where
    rec: "record_vote vote ?k ?p vs = Return (vs1, None)" and core1: "core_inv T vs1"
    and votes1: "vsVotes vs1 = (vsVotes vs)[i := Some vote]"
    and same1: "vsVotesByBlock vs1 = vsVotesByBlock vs" "vsValSet vs1 = vsValSet vs"
      "vsChainID vs1 = vsChainID vs" "vsSignedMsgType vs1 = vsSignedMsgType vs"
    using none by auto
  have empty: "bvVotes bv ! i = None" if "vsVotesByBlock vs k = Some bv" for k bv
    using block_okD(2,5) [OF core_invD(6) [OF core that]] i none by (auto simp: voters_def)
  have calm1: "calm vs1"
    unfolding calm_def votes1 same1
  proof (intro allI impI)
    fix k bv j assume bv: "vsVotesByBlock vs k = Some bv" "j < length (bvVotes bv)" "bvVotes bv ! j \<noteq> None"
    then have "vsVotes vs ! j = bvVotes bv ! j" using calm by (simp add: calm_def)
    then show "(vsVotes vs)[i := Some vote] ! j = bvVotes bv ! j"
      using empty [OF bv(1)] bv(3) by (cases "j = i") simp_all
  qed
  have good1: "good_in T vs1 i vote" using good by (simp add: same1)
  have voted: "vsVotes vs1 ! i = Some vote" using i votes1 by simp
  note track = track_calm [OF core1 good1 _ _ voted _ calm1]
  show ?thesis
  proof (cases "vsVotesByBlock vs ?k")
    case (Some bv)
    have "block_ok T vs1 ?k bv" using core_invD(6) [OF core1] Some by (simp add: same1)
    from track [OF this empty [OF Some]] obtain vs' where
      "track_vote vote ?k ?p bv vs1 = Return vs'" "vsVotes vs' = vsVotes vs1" "calm vs'"
      using Some by (auto simp: same1)
    then show ?thesis using rec Some votes1 by (simp add: VoteSet_addVerifiedVote_def same1)
  next
    case None
    let ?bv = "newBlockVotes False (length (members vs1))"
    have "bvVotes ?bv ! i = None" using i same1 by (simp add: newBlockVotes_ok)
    from track [OF newBlockVotes_ok(1) this] obtain vs' where
      "track_vote vote ?k ?p ?bv vs1 = Return vs'" "vsVotes vs' = vsVotes vs1" "calm vs'"
      using None by (auto simp: same1)
    then show ?thesis using rec None votes1 by (simp add: VoteSet_addVerifiedVote_def same1 Size_def)
  qed
qed

lemma AddVote_fresh:
  assumes inv: "vote_inv T vs" and good: "good_in T vs i vote" and none: "vsVotes vs ! i = None"
    and calm: "calm vs"
  shows "\<exists>vs'. VoteSet_AddVote T (Some vote) (Some vs) = Return (vs', True, None) \<and>
    vote_inv T vs' \<and> extends vs vs' \<and> vsVotes vs' = (vsVotes vs)[i := Some vote] \<and> calm vs' \<and>
    (vsMaj23 vs' \<noteq> None \<longrightarrow> vsDone vs')"
proof -
  note core = vote_invD(1) [OF inv]
  have adr: "addressed vs vote i" using good by (simp add: good_in_iff)
  then have "i < length (members vs)" by (simp add: addressed_def)
  from unknown_fresh [OF core this none, of vote] have new: "known_vote vs i (vDataHash vote) = None"
    by (simp add: unknown_iff)
  from addVerified_fresh [OF inv good none calm] obtain w where
    w: "VoteSet_addVerifiedVote vote (Key (vDataHash vote)) (VotingPower (members vs ! i)) vs =
      Return (w, True, None)" "vsVotes w = (vsVotes vs)[i := Some vote]" "calm w" by blast
  let ?vs' = "if vsMaj23 w \<noteq> None then w\<lparr>vsDone := True\<rparr> else w"
  have run: "VoteSet_AddVote T (Some vote) (Some vs) = Return (?vs', True, None)"
    using addVote_addressed [OF core adr] new good_verified [OF good] w(1)
    by (simp add: VoteSet_AddVote_def)
  moreover have "calm ?vs'" using w(3) by (simp add: calm_def)
  moreover have "vsVotes ?vs' = (vsVotes vs)[i := Some vote]" using w(2) by simp
  ultimately show ?thesis using AddVote_keeps [OF inv run] by auto
qed

section \<open>The commit of a majority\<close>

text \<open>What \<open>MakeCommit\<close> writes for a canonical vote.\<close>

definition commit_entry :: "'pk tm \<Rightarrow> DataHash \<Rightarrow> Vote option \<Rightarrow> CommitSig" where
  "commit_entry T h entry =
     (case entry of
        None \<Rightarrow> NewCommitSigAbsent
      | Some v \<Rightarrow>
          if IsComplete T (vDataHash v) \<and> vDataHash v \<noteq> h then NewCommitSigAbsent
          else \<lparr>csDataHashFlag = (if IsComplete T (vDataHash v) then DataHashFlagCommit else DataHashFlagNil),
                csValidatorAddress = vValidatorAddress v, csTimestamp = vTimestamp v,
                csSignature = vSignature v\<rparr>)"

lemma Absent_NewCommitSigAbsent [simp]: "Absent NewCommitSigAbsent" "\<not> ForBlock NewCommitSigAbsent"
  by (simp_all add: NewCommitSigAbsent_def Absent_def ForBlock_def flag_defs)

definition made_commit :: "'pk tm \<Rightarrow> DataHash \<Rightarrow> 'pk VoteSet \<Rightarrow> Commit" where
  "made_commit T h vs = NewCommit h (map (commit_entry T h) (vsVotes vs))"

lemma MakeCommit_ok:
  assumes core: "core_inv T vs" and "vsSignedMsgType vs = PrecommitType" and "vsMaj23 vs = Some h"
  shows "MakeCommit T vs = Return (made_commit T h vs)"
proof -
  let ?f = "\<lambda>v. obind (Vote_CommitSig T v) (\<lambda>commitSig.
     if ForBlock commitSig then
       (case v of None \<Rightarrow> Panic NilDereference
        | Some w \<Rightarrow> if \<not> DataHash_Equals (vDataHash w) h then Return NewCommitSigAbsent else Return commitSig)
     else Return commitSig)"
  have "?f entry = Return (commit_entry T h entry)" if mem: "entry \<in> set (vsVotes vs)" for entry
  proof (cases entry)
    case None
    then show ?thesis by (simp add: Vote_CommitSig_def commit_entry_def)
  next
    case (Some v)
    obtain i where "i < length (vsVotes vs)" "vsVotes vs ! i = entry"
      using mem unfolding in_set_conv_nth by blast
    then have "good_in T vs i v"
      using Some core_invD(3) [OF core] unfolding slots_ok_def by blast
    then have "hash_ok T (vDataHash v)" unfolding good_vote_def by blast
    from Vote_CommitSig_Some [OF this] show ?thesis
      unfolding Some commit_entry_def option.case
      by (cases "IsComplete T (vDataHash v)"; cases "vDataHash v = h")
        (simp_all add: ForBlock_def flag_defs)
  qed
  then have "omap ?f (vsVotes vs) = Return (map (commit_entry T h) (vsVotes vs))"
    by (rule omap_Return)
  then show ?thesis
    unfolding MakeCommit_def made_commit_def assms(2,3) option.case by simp
qed

lemma commit_entry_vote:
  assumes good: "good_vote T chainID PrecommitType vals i v" and a: "\<not> Absent (commit_entry T h (Some v))"
    and c: "cmDataHash c = h"
  shows "sig_vote c i (commit_entry T h (Some v)) = v"
    "sig_hash c (commit_entry T h (Some v)) = vDataHash v"
    "ForBlock (commit_entry T h (Some v)) \<longleftrightarrow> IsComplete T (vDataHash v)"
proof -
  let ?cs = "commit_entry T h (Some v)"
  have kept: "\<not> (IsComplete T (vDataHash v) \<and> vDataHash v \<noteq> h)"
  proof
    assume "IsComplete T (vDataHash v) \<and> vDataHash v \<noteq> h"
    then have "commit_entry T h (Some v) = NewCommitSigAbsent" by (simp add: commit_entry_def)
    then show False using a by simp
  qed
  have entry: "?cs = \<lparr>csDataHashFlag = (if IsComplete T (vDataHash v) then DataHashFlagCommit
      else DataHashFlagNil), csValidatorAddress = vValidatorAddress v, csTimestamp = vTimestamp v,
      csSignature = vSignature v\<rparr>"
    unfolding commit_entry_def option.case by (rule if_not_P [OF kept])
  show b: "ForBlock ?cs \<longleftrightarrow> IsComplete T (vDataHash v)"
    by (simp add: entry ForBlock_def flag_defs)
  have "hash_ok T (vDataHash v)" using good by (simp add: good_vote_def)
  then have "vDataHash v = DataHash_zero" if "\<not> IsComplete T (vDataHash v)"
    using that by (auto simp: IsZero_def DataHash_zero_def)
  then show hash: "sig_hash c ?cs = vDataHash v" using kept b c by (auto simp: sig_hash_def)
  show "sig_vote c i ?cs = v"
    unfolding sig_vote_def hash unfolding entry using good
    by (cases v) (simp add: vote_for_def good_vote_def)
qed

lemma made_commit_nth:
  assumes "i < length (vsVotes vs)"
  shows "cmSignatures (made_commit T h vs) ! i = commit_entry T h (vsVotes vs ! i)"
  using assms by (simp add: made_commit_def NewCommit_def)

lemma made_commit_simps [simp]:
  "cmDataHash (made_commit T h vs) = h" "length (cmSignatures (made_commit T h vs)) = length (vsVotes vs)"
  by (simp_all add: made_commit_def NewCommit_def)

text \<open>A signature of the commit that is there is the canonical vote.\<close>

lemma made_commit_sig:
  assumes core: "core_inv T vs" and t: "vsSignedMsgType vs = PrecommitType" and i: "i < length (vsVotes vs)"
    and a: "\<not> Absent (cmSignatures (made_commit T h vs) ! i)"
  shows "\<exists>v. vsVotes vs ! i = Some v \<and> good_in T vs i v \<and>
    sig_vote (made_commit T h vs) i (cmSignatures (made_commit T h vs) ! i) = v \<and>
    sig_hash (made_commit T h vs) (cmSignatures (made_commit T h vs) ! i) = vDataHash v \<and>
    (ForBlock (cmSignatures (made_commit T h vs) ! i) \<longleftrightarrow> IsComplete T (vDataHash v))"
proof -
  note nth = made_commit_nth [OF i, of T h]
  obtain v where v: "vsVotes vs ! i = Some v"
    using a unfolding nth by (cases "vsVotes vs ! i") (simp_all add: commit_entry_def)
  have good: "good_in T vs i v" using core_invD(3) [OF core] i v unfolding slots_ok_def by blast
  show ?thesis
    using v good commit_entry_vote [OF good [unfolded t] a [unfolded nth v]
      made_commit_simps(1) [of T h vs]] nth
    by simp
qed

lemma commit_entry_flag:
  "csDataHashFlag (commit_entry T h e) \<in> {DataHashFlagAbsent, DataHashFlagCommit, DataHashFlagNil}"
  by (cases e) (simp_all add: commit_entry_def NewCommitSigAbsent_def)

lemma made_commit_checkable:
  assumes core: "core_inv T vs" and t: "vsSignedMsgType vs = PrecommitType"
    and len: "length (members vs) < 2 ^ 31"
  shows "commit_checkable T (vsChainID vs) (made_commit T h vs)"
proof -
  let ?c = "made_commit T h vs"
  have "sig_checkable T (vsChainID vs) ?c (cmSignatures ?c ! i)" if i: "i < length (vsVotes vs)" for i
    unfolding sig_checkable_def
  proof (intro conjI impI)
    show "csDataHashFlag (cmSignatures ?c ! i) \<in> {DataHashFlagAbsent, DataHashFlagCommit, DataHashFlagNil}"
      unfolding made_commit_nth [OF i] by (rule commit_entry_flag)
    assume a: "\<not> Absent (cmSignatures ?c ! i)"
    from made_commit_sig [OF core t i a] obtain v where v: "good_in T vs i v"
      "sig_vote ?c i (cmSignatures ?c ! i) = v" "sig_hash ?c (cmSignatures ?c ! i) = vDataHash v" by blast
    then show "hash_ok T (sig_hash ?c (cmSignatures ?c ! i))" by (simp add: good_vote_def)
    show "marshals T (vsChainID vs) (sig_vote ?c 0 (cmSignatures ?c ! i))"
      using v(1,2) marshals_sig_vote [of T "vsChainID vs" ?c i "cmSignatures ?c ! i"]
      by (simp add: good_vote_def)
  qed
  then show ?thesis
    using len core_invD(4) [OF core] by (simp add: commit_checkable_def list_all_length)
qed

lemma good_sig_good:
  assumes "good_vote T chainID PrecommitType vals i (sig_vote c i (cmSignatures c ! i))"
  shows "sig_good T chainID c vals i"
  using assms by (auto simp: good_vote_def sig_good_def split: option.splits)

lemma made_commit_proves:
  assumes core: "core_inv T vs" and t: "vsSignedMsgType vs = PrecommitType" and maj: "vsMaj23 vs = Some h"
  shows "commit_proves T (vsChainID vs) (made_commit T h vs) (members vs) \<longleftrightarrow> IsComplete T h"
proof -
  let ?c = "made_commit T h vs" and ?n = "length (members vs)"
  have len: "length (vsVotes vs) = ?n" by (rule core_invD(4) [OF core])
  note powers = core_invD(1) [OF core]
  have good: "sig_good T (vsChainID vs) ?c (members vs) i"
    if "i < ?n" "\<not> Absent (cmSignatures ?c ! i)" for i
    using made_commit_sig [OF core t _ that(2)] that(1) len good_sig_good [of T "vsChainID vs" "members vs" i ?c] t
    by auto
  show ?thesis
  proof
    assume "IsComplete T h"
    have "voted_for (vsVotes vs) h \<subseteq> for_block ?c ?n"
    proof
      fix i assume "i \<in> voted_for (vsVotes vs) h"
      then obtain v where i: "i < length (vsVotes vs)" "vsVotes vs ! i = Some v" "vDataHash v = h"
        by (auto simp: voted_for_iff)
      then have "ForBlock (cmSignatures ?c ! i)"
        using \<open>IsComplete T h\<close> by (simp add: made_commit_nth commit_entry_def ForBlock_def)
      then show "i \<in> for_block ?c ?n" using i(1) len by (simp add: for_block_def)
    qed
    then have "validators.power (members vs) (voted_for (vsVotes vs) h) \<le>
        validators.power (members vs) (for_block ?c ?n)"
      using for_block_subset [of ?n ?n ?c] by (intro validators.power_mono powers) simp_all
    then show "commit_proves T (vsChainID vs) ?c (members vs)"
      using majority_canonical [OF core maj] good
      by (simp add: commit_proves_def validators.quorum_iff)
  next
    assume "commit_proves T (vsChainID vs) ?c (members vs)"
    then have "power_sum (members vs) * 2 < 3 * validators.power (members vs) (for_block ?c ?n)"
      by (simp add: commit_proves_def)
    then have "for_block ?c ?n \<noteq> {}"
      using validators.total_nonneg [OF powers] by auto
    then obtain i where "i < ?n" "ForBlock (cmSignatures ?c ! i)" by (auto simp: for_block_def)
    then have b: "i < length (vsVotes vs)" "ForBlock (commit_entry T h (vsVotes vs ! i))"
      using len by (simp_all add: made_commit_nth)
    then obtain v where "vsVotes vs ! i = Some v"
      by (cases "vsVotes vs ! i") (simp_all add: commit_entry_def)
    then show "IsComplete T h"
      using b(2) by (auto simp: commit_entry_def ForBlock_def flag_defs NewCommitSigAbsent_def split: if_splits)
  qed
qed

section \<open>Replaying a commit\<close>

definition replayed :: "Commit \<Rightarrow> nat \<Rightarrow> Vote option list" where
  "replayed c k = map (\<lambda>j. if j < k \<and> \<not> Absent (cmSignatures c ! j)
     then Some (sig_vote c j (cmSignatures c ! j)) else None) [0..<length (cmSignatures c)]"

lemma length_replayed [simp]: "length (replayed c k) = length (cmSignatures c)"
  by (simp add: replayed_def)

lemma nth_replayed:
  "j < length (cmSignatures c) \<Longrightarrow> replayed c k ! j =
     (if j < k \<and> \<not> Absent (cmSignatures c ! j) then Some (sig_vote c j (cmSignatures c ! j)) else None)"
  by (simp add: replayed_def)

lemma replayed_Suc:
  assumes "k < length (cmSignatures c)"
  shows "replayed c (Suc k) =
    (if Absent (cmSignatures c ! k) then replayed c k
     else (replayed c k)[k := Some (sig_vote c k (cmSignatures c ! k))])"
  using assms by (intro nth_equalityI) (auto simp: nth_replayed nth_list_update less_Suc_eq)

text \<open>Every signature that is there is a good vote of the validator at its index.\<close>

definition replayable :: "'pk tm \<Rightarrow> bytes \<Rightarrow> Commit \<Rightarrow> 'pk Proposer list \<Rightarrow> bool" where
  "replayable T chainID c vals \<longleftrightarrow> length (cmSignatures c) = length vals \<and> length vals < 2 ^ 31 \<and>
     (\<forall>i < length vals. csDataHashFlag (cmSignatures c ! i) \<in>
        {DataHashFlagAbsent, DataHashFlagCommit, DataHashFlagNil}) \<and>
     (\<forall>i < length vals. \<not> Absent (cmSignatures c ! i) \<longrightarrow>
        good_vote T chainID PrecommitType vals i (sig_vote c i (cmSignatures c ! i)))"

definition replay_state :: "'pk tm \<Rightarrow> bytes \<Rightarrow> Commit \<Rightarrow> 'pk Proposer list \<Rightarrow> nat \<Rightarrow> 'pk VoteSet \<Rightarrow> bool"
where
  "replay_state T chainID c vals k vs \<longleftrightarrow> vote_inv T vs \<and> calm vs \<and> vsChainID vs = chainID \<and>
     vsSignedMsgType vs = PrecommitType \<and> members vs = vals \<and> vsVotes vs = replayed c k"

lemma add_commit_votes_ok:
  assumes r: "replayable T chainID c vals" and "drop k (cmSignatures c) = css"
    and "replay_state T chainID c vals k vs" and "k \<le> length vals"
  shows "\<exists>vs'. add_commit_votes T c k css vs = Return vs' \<and> replay_state T chainID c vals (length vals) vs'"
  using assms(2-4)
proof (induction css arbitrary: k vs)
  case Nil
  then have "k = length vals" using r by (simp add: replayable_def)
  then show ?case using Nil by simp
next
  case (Cons cs css)
  note d = drop_Cons_nth [OF Cons.prems(1)]
  have k: "k < length vals" using d r by (simp add: replayable_def)
  have css: "drop (Suc k) (cmSignatures c) = css" using d by simp
  note st = Cons.prems(2) [unfolded replay_state_def]
  show ?case
  proof (cases "Absent cs")
    case True
    then have "replay_state T chainID c vals (Suc k) vs"
      using st d by (simp add: replay_state_def replayed_Suc)
    from Cons.IH [OF css this] k True show ?thesis by simp
  next
    case False
    let ?v = "sig_vote c k cs"
    have "\<not> Absent (cmSignatures c ! k)" using False d by simp
    then have "good_vote T chainID PrecommitType vals k (sig_vote c k (cmSignatures c ! k))"
      using r k by (simp add: replayable_def)
    then have good: "good_in T vs k ?v" using d st by simp
    have none: "vsVotes vs ! k = None" using st k d by (simp add: nth_replayed)
    from AddVote_fresh [OF _ good none] st obtain vs1 where
      add: "VoteSet_AddVote T (Some ?v) (Some vs) = Return (vs1, True, None)" and
      inv1: "vote_inv T vs1" "extends vs vs1" "vsVotes vs1 = (vsVotes vs)[k := Some ?v]" "calm vs1"
      by blast
    have "replay_state T chainID c vals (Suc k) vs1"
      using inv1 st d False by (simp add: replay_state_def extends_def replayed_Suc)
    from Cons.IH [OF css this] k obtain vs' where vs': "add_commit_votes T c (Suc k) css vs1 = Return vs'"
      "replay_state T chainID c vals (length vals) vs'" by auto
    have idx: "wrap32 (int k) = int k" using r k by (simp add: replayable_def)
    have "Commit_GetVote c (int k) = Return ?v"
      using d r k by (intro Commit_GetVote_sig) (auto simp: replayable_def)
    then show ?thesis using False add vs' idx by simp
  qed
qed

lemma CommitToVoteSet_ok:
  assumes r: "replayable T chainID c (Proposers s)" and ok: "votable s"
  shows "\<exists>vs. CommitToVoteSet T chainID c s = Return vs \<and>
    replay_state T chainID c (Proposers s) (length (Proposers s)) vs"
proof -
  let ?vs = "NewVoteSet chainID PrecommitType s"
  have "vote_inv T ?vs" using ok by (intro NewVoteSet_inv) (simp_all add: votable_def)
  moreover have "replayed c 0 = replicate (length (Proposers s)) None"
    using r by (intro nth_equalityI) (simp_all add: replayable_def nth_replayed)
  ultimately have "replay_state T chainID c (Proposers s) 0 ?vs"
    using calm_new [of chainID PrecommitType s] by (simp add: replay_state_def) (simp add: NewVoteSet_def Size_def)
  from add_commit_votes_ok [OF r _ this] show ?thesis by (auto simp: CommitToVoteSet_def)
qed

lemma replay_majority:
  assumes st: "replay_state T chainID c vals (length vals) vs" and r: "replayable T chainID c vals"
    and p: "commit_proves T chainID c vals"
  shows "vsMaj23 vs = Some (cmDataHash c)"
proof (rule canonical_majority)
  let ?n = "length vals"
  have f: "vote_inv T vs" "members vs = vals" "vsVotes vs = replayed c ?n" "length (cmSignatures c) = ?n"
    using st r by (simp_all add: replay_state_def replayable_def)
  show "vote_inv T vs" by (rule f(1))
  have "for_block c ?n \<subseteq> voted_for (vsVotes vs) (cmDataHash c)"
  proof
    fix i assume "i \<in> for_block c ?n"
    then have i: "i < ?n" "ForBlock (cmSignatures c ! i)" by (simp_all add: for_block_def)
    then show "i \<in> voted_for (vsVotes vs) (cmDataHash c)"
      using f ForBlock_not_Absent [OF i(2)]
      by (simp add: voted_for_iff nth_replayed sig_vote_def vote_for_def sig_hash_def)
  qed
  moreover have "powers_ok vals" using core_invD(1) [OF vote_invD(1) [OF f(1)]] f(2) by simp
  ultimately have "validators.power vals (for_block c ?n) \<le>
      validators.power vals (voted_for (vsVotes vs) (cmDataHash c))"
    using voted_for_subset [of "vsVotes vs"] f by (intro validators.power_mono) simp_all
  then show "validators.quorum (members vs) \<le>
      validators.power (members vs) (voted_for (vsVotes vs) (cmDataHash c))"
    using p f(2) by (simp add: commit_proves_def validators.quorum_iff)
qed

end
