(* ===== verification/Con_CommitSafety.thy ===== *)
theory Con_CommitSafety
  imports Con_CommitVotes
begin

text \<open>
  The contract of commits and vote sets together: when a commit passes, what passing proves,
  and that commits and majorities that disagree expose double signers; that the commit of a
  majority passes and replays to the same majority; that votes decide by their hashes alone,
  in any order.
\<close>

text \<open>A validator set and a commit that the checks can process: every validator has a key.\<close>

definition verifiable :: "'pk tm \<Rightarrow> bytes \<Rightarrow> Commit \<Rightarrow> 'pk ProposerSet \<Rightarrow> bool" where
  "verifiable T chainID c s \<longleftrightarrow> votable s \<and> commit_checkable T chainID c \<and>
     (\<forall>v \<in> set (Proposers s). PubKey v \<noteq> None)"

lemma verifiable_matching:
  "verifiable T chainID c s \<Longrightarrow> length (cmSignatures c) = length (Proposers s) \<Longrightarrow>
    matching T chainID c (Proposers s)"
  by (simp add: verifiable_def matching_def votable_def)

lemma DataHash_wrap [simp]: "\<lparr>Hash = d\<rparr> = h \<longleftrightarrow> d = Hash h"
  by (cases h) auto

lemma VerifyCommit_length:
  "VerifyCommit T chainID data c s = Return (s', None) \<Longrightarrow>
    length (cmSignatures c) = length (Proposers s) \<and> Hash (cmDataHash c) = data"
  by (auto simp: VerifyCommit_def Let_def Size_def split: if_splits)

lemma VerifyCommitLight_length:
  "VerifyCommitLight T chainID h c s = Return (s', None) \<Longrightarrow>
    length (cmSignatures c) = length (Proposers s) \<and> cmDataHash c = h"
  by (auto simp: VerifyCommitLight_def Size_def split: if_splits)

lemma light_signs:
  assumes "verifiable T chainID c s" and "VerifyCommitLight T chainID h c s = Return (s', None)"
  shows "quorum_signs T chainID PrecommitType (Proposers s) h (commit_votes c)"
  using assms light_quorum_signs [of s T chainID c s'] VerifyCommitLight_length [OF assms(2)]
    verifiable_matching [OF assms(1)]
  by (auto simp: verifiable_def)

section \<open>Samples\<close>

text \<open>A commit of the strong validator of \<open>sample_set\<close>.\<close>

definition strong_commit :: "8 word \<Rightarrow> Commit" where
  "strong_commit h = NewCommit \<lparr>Hash = [h]\<rparr>
     [NewCommitSigForBlock (vSignature (sample_vote [2] 0 [h])) [2] 5, NewCommitSigAbsent]"

lemma strong_commit_verifiable: "verifiable sample_tm [9] (strong_commit h) sample_set"
proof -
  have "commit_checkable sample_tm [9] (strong_commit h)"
    by (simp add: commit_checkable_def strong_commit_def NewCommit_def sig_checkable_def
        NewCommitSigForBlock_def NewCommitSigAbsent_def Absent_def ForBlock_def flag_defs sig_hash_def
        sig_vote_def vote_for_def sample_simps)
  then show ?thesis
    using sample_set_votable by (simp add: verifiable_def) (simp add: sample_set_def)
qed

lemma strong_commit_accepted:
  "VerifyCommit sample_tm [9] [7] (strong_commit 7) sample_set = Return (cached sample_set, None)"
  "VerifyCommit sample_tm [9] [8] (strong_commit 8) sample_set = Return (cached sample_set, None)"
  by code_simp+

section \<open>Properties\<close>

text \<open>C22: what \<open>VerifyCommit\<close> decides on a commit that can be checked: the flags are known, its
  hash is empty or as long as a hash, its votes marshal, and the validators' keys are set
  (\<open>verifiable\<close>). On any other commit it may panic. On these it does not panic, leaves
  the validators alone, and accepts exactly the commits with one entry per validator, for the
  given data, whose signatures all verify and whose signatures for the data have more than
  two thirds of the power.\<close>

theorem VerifyCommit_spec:
  assumes "verifiable T chainID c s"
  shows "\<exists>s' err. VerifyCommit T chainID data c s = Return (s', err) \<and> Proposers s' = Proposers s \<and>
    (err = None \<longleftrightarrow> length (cmSignatures c) = length (Proposers s) \<and> Hash (cmDataHash c) = data \<and>
       commit_proves T chainID c (Proposers s))"
proof (cases "length (cmSignatures c) = length (Proposers s) \<and> Hash (cmDataHash c) = data")
  case True
  then show ?thesis
    using VerifyCommit_ok [of s T chainID c data] assms verifiable_matching [OF assms]
    by (auto simp: verifiable_def)
next
  case False
  then have "\<exists>err. VerifyCommit T chainID data c s = Return (s, Some err)"
    by (auto simp: VerifyCommit_def Size_def Let_def)
  then show ?thesis using False by auto
qed

theorem VerifyCommit_spec_witness:
  "commit_proves sample_tm [9] (strong_commit 7) (Proposers sample_set)"
  using VerifyCommit_spec [OF strong_commit_verifiable [of 7], of "[7]"] strong_commit_accepted(1) by auto

text \<open>C23: the light check accepts whatever the full check accepts, with the same result, and
  its acceptance still proves that validators with more than two thirds of the power signed.\<close>

theorem VerifyCommitLight_agrees:
  assumes "verifiable T chainID c s"
  shows "(VerifyCommit T chainID data c s = Return (s', None) \<longrightarrow>
      VerifyCommitLight T chainID \<lparr>Hash = data\<rparr> c s = Return (s', None)) \<and>
    (VerifyCommitLight T chainID h c s = Return (s', None) \<longrightarrow>
      quorum_signs T chainID PrecommitType (Proposers s) h (commit_votes c))"
proof (intro conjI impI)
  assume full: "VerifyCommit T chainID data c s = Return (s', None)"
  note len = VerifyCommit_length [OF full]
  note m = verifiable_matching [OF assms conjunct1 [OF len]]
  have ok: "votable s" using assms by (simp add: verifiable_def)
  have "commit_proves T chainID c (Proposers s)" "s' = cached s"
    using VerifyCommit_ok [OF ok m conjunct2 [OF len]] full by auto
  moreover have "cmDataHash c = \<lparr>Hash = data\<rparr>" using len by (cases "cmDataHash c") simp
  ultimately show "VerifyCommitLight T chainID \<lparr>Hash = data\<rparr> c s = Return (s', None)"
    using VerifyCommitLight_ok [OF ok m] by auto
next
  assume "VerifyCommitLight T chainID h c s = Return (s', None)"
  then show "quorum_signs T chainID PrecommitType (Proposers s) h (commit_votes c)" using assms by (intro light_signs)
qed

theorem VerifyCommitLight_agrees_witness:
  "VerifyCommitLight sample_tm [9] \<lparr>Hash = [7]\<rparr> (strong_commit 7) sample_set =
      Return (cached sample_set, None) \<and>
   quorum_signs sample_tm [9] PrecommitType (Proposers sample_set) \<lparr>Hash = [7]\<rparr> (commit_votes (strong_commit 7))"
  using VerifyCommitLight_agrees [OF strong_commit_verifiable [of 7]] strong_commit_accepted(1) by blast

text \<open>C24: accountable safety of commits. If two commits for different hashes pass even the light
  check against sets with the same validators, the commits show that validators with more than
  a third of the power signed precommits for both hashes.\<close>

theorem commits_double_sign:
  assumes "verifiable T chainID c1 s1" and "verifiable T chainID c2 s2"
    and "Proposers s1 = Proposers s2" and "h1 \<noteq> h2"
    and "VerifyCommitLight T chainID h1 c1 s1 = Return (s1', None)"
    and "VerifyCommitLight T chainID h2 c2 s2 = Return (s2', None)"
  shows "double_signers T chainID PrecommitType (Proposers s1) (h1, commit_votes c1) (h2, commit_votes c2)"
  using light_signs [OF assms(1,5)] light_signs [OF assms(2,6)] assms(1,3)
  by (intro quorums_double_sign) (simp_all add: verifiable_def votable_def)

theorem commits_double_sign_witness:
  "double_signers sample_tm [9] PrecommitType (Proposers sample_set)
     (\<lparr>Hash = [7]\<rparr>, commit_votes (strong_commit 7)) (\<lparr>Hash = [8]\<rparr>, commit_votes (strong_commit 8))"
proof (rule commits_double_sign [OF strong_commit_verifiable [of 7] strong_commit_verifiable [of 8]])
  show "VerifyCommitLight sample_tm [9] \<lparr>Hash = [7]\<rparr> (strong_commit 7) sample_set =
      Return (cached sample_set, None)"
    "VerifyCommitLight sample_tm [9] \<lparr>Hash = [8]\<rparr> (strong_commit 8) sample_set =
      Return (cached sample_set, None)" by code_simp+
qed simp_all

text \<open>C25: commits and vote sets agree: a commit that passes and a recorded precommit majority
  for another hash expose double signers too.\<close>

theorem commit_against_votes:
  assumes "verifiable T chainID c s" and "VerifyCommitLight T chainID h1 c s = Return (s', None)"
    and "vote_history T chainID PrecommitType s2 vs" and "votable s2"
    and "Proposers s = Proposers s2" and "vsMaj23 vs = Some h2" and "h1 \<noteq> h2"
  shows "double_signers T chainID PrecommitType (Proposers s) (h1, commit_votes c) (h2, ballots vs)"
  using light_signs [OF assms(1,2)] majority_quorum_signs [OF assms(3,4,6)] assms(4,5)
  by (intro quorums_double_sign) (simp_all add: votable_def)

theorem commit_against_votes_witness:
  "\<exists>vs :: bytes VoteSet. double_signers sample_tm [9] PrecommitType (Proposers sample_set)
     (\<lparr>Hash = [7]\<rparr>, commit_votes (strong_commit 7)) (\<lparr>Hash = [8]\<rparr>, ballots vs)"
proof -
  obtain vs where vs: "vsMaj23 vs = Some \<lparr>Hash = [8]\<rparr>"
    "vote_history sample_tm [9] PrecommitType sample_set vs" using sample_vote_8 by blast
  have "VerifyCommitLight sample_tm [9] \<lparr>Hash = [7]\<rparr> (strong_commit 7) sample_set =
      Return (cached sample_set, None)" by code_simp
  from commit_against_votes [OF strong_commit_verifiable this vs(2) sample_set_votable refl vs(1)]
  show ?thesis by (intro exI [of _ vs]) simp
qed

text \<open>C26: the check against a trusted set that may differ from the signing one. On a commit that
  can be checked, and with the terms of the trust level below \<open>2 ^ 63\<close>, it does not panic (a
  product that overflows is an error, a level without denominator too), and it accepts only if
  validators of the trusted set with more than that share of its power, each counted once,
  signed for the commit's hash.\<close>

theorem VerifyCommitLightTrusting_sound:
  assumes "verifiable T chainID c s" and "length (Proposers s) < 2 ^ 31"
    and "0 \<le> Numerator f" "Numerator f < 2 ^ 63" "0 \<le> Denominator f" "Denominator f < 2 ^ 63"
  shows "\<exists>s' err. VerifyCommitLightTrusting T chainID c f s = Return (s', err) \<and>
    (err = None \<longrightarrow> 0 < Denominator f \<and>
       (\<exists>A \<subseteq> {..<length (Proposers s)}.
          power_sum (Proposers s) * Numerator f < Denominator f * validators.power (Proposers s) A \<and>
          (\<forall>i \<in> A. signs T chainID PrecommitType (cmDataHash c) (commit_votes c) (Proposers s ! i))))"
proof (cases "Denominator f = 0")
  case True
  then show ?thesis by (simp add: VerifyCommitLightTrusting_def)
next
  case False
  then have den: "0 < Denominator f" using assms(5) by simp
  have share: "t div Denominator f < p \<longleftrightarrow> t < Denominator f * p" for t p
    using den int_div_less_iff [OF den, of t p] by (simp add: mult.commute)
  from VerifyCommitLightTrusting_ok [OF _ _ _ assms(2-4) den assms(6)] assms(1) show ?thesis
    using den unfolding verifiable_def trusted_signs_def share by blast
qed

theorem VerifyCommitLightTrusting_sound_witness:
  "VerifyCommitLightTrusting sample_tm [9] (strong_commit 7) \<lparr>Numerator = 1, Denominator = 3\<rparr> sample_set =
      Return (cached sample_set, None) \<and>
   (\<exists>A \<subseteq> {..<2}. power_sum (Proposers sample_set) < 3 * validators.power (Proposers sample_set) A \<and>
      (\<forall>i \<in> A. signs sample_tm [9] PrecommitType \<lparr>Hash = [7]\<rparr> (commit_votes (strong_commit 7))
         (Proposers sample_set ! i)))"
proof -
  have run: "VerifyCommitLightTrusting sample_tm [9] (strong_commit 7) \<lparr>Numerator = 1, Denominator = 3\<rparr>
      sample_set = Return (cached sample_set, None)" by code_simp
  have facts: "length (Proposers sample_set) = 2" "cmDataHash (strong_commit 7) = \<lparr>Hash = [7]\<rparr>"
    by (simp_all add: sample_set_def strong_commit_def NewCommit_def)
  show ?thesis
    using run VerifyCommitLightTrusting_sound [OF strong_commit_verifiable [of 7],
        of "\<lparr>Numerator = 1, Denominator = 3\<rparr>"] unfolding facts by simp
qed

lemma MakeCommit_verifies_lemma:
  assumes "vote_history T chainID PrecommitType s vs" and "votable s"
    and "\<forall>v \<in> set (Proposers s). PubKey v \<noteq> None" and "length (Proposers s) < 2 ^ 31"
    and "vsMaj23 vs = Some h"
  shows "\<exists>c err. MakeCommit T vs = Return c \<and> cmDataHash c = h \<and>
    VerifyCommit T chainID (Hash h) c s = Return (cached s, err) \<and> (err = None \<longleftrightarrow> IsComplete T h)"
proof -
  let ?c = "made_commit T h vs"
  from vote_history_inv [OF assms(1,2)] have core: "core_inv T vs" and
    f: "vsChainID vs = chainID" "vsSignedMsgType vs = PrecommitType" "members vs = Proposers s"
    by (simp_all add: vote_inv_def)
  have "verifiable T chainID ?c s"
    using made_commit_checkable [OF core f(2), of h] assms(2-4) f by (simp add: verifiable_def)
  then have m: "matching T chainID ?c (Proposers s)"
    using core_invD(4) [OF core] f by (intro verifiable_matching) simp_all
  show ?thesis
    using VerifyCommit_ok [OF assms(2) m, of "Hash h"] made_commit_proves [OF core f(2) assms(5)]
      MakeCommit_ok [OF core f(2) assms(5)] f by (intro exI [of _ ?c]) simp
qed

text \<open>C27: the commit made of a majority of precommits passes verification for the majority's
  data. A majority for nil makes a commit too, but that one is rejected.\<close>

theorem MakeCommit_verifies:
  assumes "vote_history T chainID PrecommitType s vs" and "votable s"
    and "\<forall>v \<in> set (Proposers s). PubKey v \<noteq> None" and "length (Proposers s) < 2 ^ 31"
    and "vsMaj23 vs = Some h"
  shows "\<exists>c err. MakeCommit T vs = Return c \<and> cmDataHash c = h \<and>
    VerifyCommit T chainID (Hash h) c s = Return (cached s, err) \<and> (err = None \<longleftrightarrow> IsComplete T h)"
  using assms by (rule MakeCommit_verifies_lemma)

theorem MakeCommit_verifies_witness:
  "\<exists>vs c. vsMaj23 vs = Some \<lparr>Hash = [7]\<rparr> \<and> MakeCommit sample_tm vs = Return c \<and>
    VerifyCommit sample_tm [9] [7] c sample_set = Return (cached sample_set, None)"
proof -
  obtain vs where vs: "vsMaj23 vs = Some \<lparr>Hash = [7]\<rparr>"
    "vote_history sample_tm [9] PrecommitType sample_set vs" using sample_vote_7 by blast
  have keys: "\<forall>v \<in> set (Proposers sample_set). PubKey v \<noteq> None" "length (Proposers sample_set) < 2 ^ 31"
    "IsComplete sample_tm \<lparr>Hash = [7]\<rparr>"
    by (simp_all add: sample_set_def sample_simps)
  from MakeCommit_verifies [OF vs(2) sample_set_votable keys(1,2) vs(1)] keys(3) vs(1) show ?thesis
    by (elim exE conjE) (intro exI conjI; simp)
qed

text \<open>C28: replaying a commit. The commit of a majority, taken as votes and added to a new vote
  set, is accepted vote by vote; the new set records the same majority, holds the votes the
  commit shows, and makes the same commit again.\<close>

theorem CommitToVoteSet_MakeCommit:
  assumes "vote_history T chainID PrecommitType s vs" and "votable s"
    and "length (Proposers s) < 2 ^ 31" and "vsMaj23 vs = Some h" and "IsComplete T h"
  shows "\<exists>c vs'. MakeCommit T vs = Return c \<and> CommitToVoteSet T chainID c s = Return vs' \<and>
    vsMaj23 vs' = Some h \<and> MakeCommit T vs' = Return c \<and>
    (\<forall>i < length (Proposers s). vsVotes vs' ! i =
       (if Absent (cmSignatures c ! i) then None else vsVotes vs ! i))"
proof -
  let ?c = "made_commit T h vs"
  from vote_history_inv [OF assms(1,2)] have core: "core_inv T vs" and
    f: "vsChainID vs = chainID" "vsSignedMsgType vs = PrecommitType" "members vs = Proposers s"
    by (simp_all add: vote_inv_def)
  have len: "length (vsVotes vs) = length (Proposers s)" using core_invD(4) [OF core] f by simp
  have flag: "csDataHashFlag (cmSignatures ?c ! i) \<in> {DataHashFlagAbsent, DataHashFlagCommit, DataHashFlagNil}"
    if "i < length (Proposers s)" for i
    using that len made_commit_nth [of i vs T h] commit_entry_flag by metis
  note sig = made_commit_sig [OF core f(2)]
  have r: "replayable T chainID ?c (Proposers s)"
    using flag sig len assms(3) f by (fastforce simp: replayable_def)
  from CommitToVoteSet_ok [OF r assms(2)] obtain vs' where
    run: "CommitToVoteSet T chainID ?c s = Return vs'" and
    st: "replay_state T chainID ?c (Proposers s) (length (Proposers s)) vs'" by blast
  have maj: "vsMaj23 vs' = Some h"
    using replay_majority [OF st r] made_commit_proves [OF core f(2) assms(4)] assms(5) f by simp
  have votes: "vsVotes vs' ! i = (if Absent (cmSignatures ?c ! i) then None else vsVotes vs ! i)"
    if i: "i < length (Proposers s)" for i
    using st i len sig [of i h] by (auto simp: replay_state_def nth_replayed)
  have len': "length (vsVotes vs') = length (Proposers s)" using st len by (simp add: replay_state_def)
  have "commit_entry T h (vsVotes vs' ! i) = commit_entry T h (vsVotes vs ! i)"
    if i: "i < length (Proposers s)" for i
  proof (cases "Absent (cmSignatures ?c ! i)")
    case False
    then show ?thesis using votes [OF i] by simp
  next
    case True
    have "commit_entry T h (vsVotes vs ! i) = NewCommitSigAbsent"
      using True i len by (auto simp: made_commit_nth commit_entry_def Absent_def flag_defs split: option.splits if_splits)
    then show ?thesis using votes [OF i] True by (simp add: commit_entry_def)
  qed
  then have "map (commit_entry T h) (vsVotes vs') = map (commit_entry T h) (vsVotes vs)"
    using len len' by (intro nth_equalityI) simp_all
  then have "made_commit T h vs' = ?c" by (simp add: made_commit_def)
  moreover have "core_inv T vs'" "vsSignedMsgType vs' = PrecommitType"
    using st by (simp_all add: replay_state_def vote_inv_def)
  ultimately have "MakeCommit T vs' = Return ?c" using MakeCommit_ok [of T vs' h] maj by simp
  then show ?thesis
    using run maj votes MakeCommit_ok [OF core f(2) assms(4)] by (intro exI [of _ ?c] exI [of _ vs']) simp
qed

theorem CommitToVoteSet_MakeCommit_witness:
  "\<exists>vs c vs'. vsMaj23 vs = Some \<lparr>Hash = [7]\<rparr> \<and> MakeCommit sample_tm vs = Return c \<and>
    CommitToVoteSet sample_tm [9] c sample_set = Return vs' \<and> vsMaj23 vs' = Some \<lparr>Hash = [7]\<rparr>"
proof -
  obtain vs where vs: "vsMaj23 vs = Some \<lparr>Hash = [7]\<rparr>"
    "vote_history sample_tm [9] PrecommitType sample_set vs" using sample_vote_7 by blast
  have keys: "length (Proposers sample_set) < 2 ^ 31" "IsComplete sample_tm \<lparr>Hash = [7]\<rparr>"
    by (simp_all add: sample_set_def sample_simps)
  from CommitToVoteSet_MakeCommit [OF vs(2) sample_set_votable keys(1) vs(1) keys(2)] vs(1) show ?thesis
    by (elim exE conjE) (intro exI conjI; simp)
qed

text \<open>C29: the canonical votes decide. Whatever conflicts and claims a vote set has seen, it
  records a majority for a hash exactly when its canonical votes for that hash, which are
  what a commit is made of, hold more than two thirds of the power.\<close>

theorem majority_iff_canonical:
  assumes "vote_history T chainID t s vs" and "votable s"
  shows "vsMaj23 vs = Some h \<longleftrightarrow>
    power_sum (Proposers s) * 2 < 3 * validators.power (Proposers s) (voted_for (vsVotes vs) h)"
proof -
  from vote_history_inv [OF assms] have inv: "vote_inv T vs" and m: "members vs = Proposers s" by simp_all
  then show ?thesis
    using majority_canonical [OF vote_invD(1) [OF inv]] canonical_majority [OF inv]
    unfolding validators.quorum_iff [symmetric] by metis
qed

theorem majority_iff_canonical_witness:
  "\<exists>vs :: bytes VoteSet. vsMaj23 vs = Some \<lparr>Hash = [7]\<rparr> \<and>
    4 * 2 < 3 * validators.power (Proposers sample_set) (voted_for (vsVotes vs) \<lparr>Hash = [7]\<rparr>)"
proof -
  obtain vs where vs: "vsMaj23 vs = Some \<lparr>Hash = [7]\<rparr>"
    "vote_history sample_tm [9] PrecommitType sample_set vs" using sample_vote_7 by blast
  have total: "power_sum (Proposers sample_set) = 4" by (simp add: sample_set_def)
  have "4 * 2 < 3 * validators.power (Proposers sample_set) (voted_for (vsVotes vs) \<lparr>Hash = [7]\<rparr>)"
    using vs(1) majority_iff_canonical [OF vs(2) sample_set_votable, of "\<lparr>Hash = [7]\<rparr>"]
    unfolding total by (rule iffD1 [rotated])
  with vs(1) show ?thesis by (intro exI [of _ vs] conjI)
qed

section \<open>Honest votes\<close>

text \<open>One vote each of different validators, all verified.\<close>

definition honest_votes :: "'pk tm \<Rightarrow> bytes \<Rightarrow> SignedMsgType \<Rightarrow> 'pk Proposer list \<Rightarrow> Vote list \<Rightarrow> bool" where
  "honest_votes T chainID t vals vts \<longleftrightarrow> distinct (map vValidatorIndex vts) \<and>
     (\<forall>v \<in> set vts. good_vote T chainID t vals (nat (vValidatorIndex v)) v)"

fun slots_of :: "Vote list \<Rightarrow> Vote option list \<Rightarrow> Vote option list" where
  "slots_of [] votes = votes"
| "slots_of (v # vts) votes = slots_of vts (votes[nat (vValidatorIndex v) := Some v])"

lemma add_each_honest:
  assumes "vote_inv T vs" and "calm vs" and "honest_votes T (vsChainID vs) (vsSignedMsgType vs) (members vs) vts"
    and "\<forall>v \<in> set vts. vsVotes vs ! nat (vValidatorIndex v) = None"
  shows "\<exists>vs'. add_each T vts vs = Return vs' \<and> vote_inv T vs' \<and> extends vs vs' \<and>
    vsVotes vs' = slots_of vts (vsVotes vs) \<and>
    (vts \<noteq> [] \<and> vsMaj23 vs' \<noteq> None \<longrightarrow> vsDone vs')"
  using assms
proof (induction vts arbitrary: vs)
  case Nil
  then show ?case by simp
next
  case (Cons v vts)
  let ?i = "nat (vValidatorIndex v)"
  have good: "good_in T vs ?i v" and none: "vsVotes vs ! ?i = None"
    using Cons.prems by (simp_all add: honest_votes_def)
  from AddVote_fresh [OF Cons.prems(1) good none Cons.prems(2)] obtain vs1 where
    add: "VoteSet_AddVote T (Some v) (Some vs) = Return (vs1, True, None)" and
    one: "vote_inv T vs1" "extends vs vs1" "vsVotes vs1 = (vsVotes vs)[?i := Some v]" "calm vs1"
      "vsMaj23 vs1 \<noteq> None \<longrightarrow> vsDone vs1" by blast
  have honest: "honest_votes T (vsChainID vs1) (vsSignedMsgType vs1) (members vs1) vts"
    using Cons.prems(3) one(2) by (simp add: honest_votes_def extends_def)
  have "?i \<noteq> nat (vValidatorIndex w)" if "w \<in> set vts" for w
  proof -
    have "vValidatorIndex w = int (nat (vValidatorIndex w))" "vValidatorIndex v = int ?i"
      using Cons.prems(3) that unfolding honest_votes_def good_vote_def by auto
    moreover have "vValidatorIndex w \<noteq> vValidatorIndex v"
      using Cons.prems(3) imageI [OF that, of vValidatorIndex] by (auto simp: honest_votes_def)
    ultimately show ?thesis by metis
  qed
  then have free: "\<forall>w \<in> set vts. vsVotes vs1 ! nat (vValidatorIndex w) = None"
    using Cons.prems(4) one(3) by simp
  from Cons.IH [OF one(1,4) honest free] obtain vs' where
    rest: "add_each T vts vs1 = Return vs'" "vote_inv T vs'" "extends vs1 vs'"
      "vsVotes vs' = slots_of vts (vsVotes vs1)" "vts \<noteq> [] \<and> vsMaj23 vs' \<noteq> None \<longrightarrow> vsDone vs'" by blast
  have "vsMaj23 vs' \<noteq> None \<longrightarrow> vsDone vs'"
    using rest one(5) by (cases vts) auto
  then show ?case using add rest one extends_trans [OF one(2) rest(3)] by simp
qed

abbreviation slot :: "Vote \<Rightarrow> nat" where
  "slot v \<equiv> nat (vValidatorIndex v)"

lemma length_slots_of [simp]: "length (slots_of vts votes) = length votes"
  by (induction vts arbitrary: votes) simp_all

lemma slots_of_iff:
  assumes "distinct (map slot vts)" and "\<forall>v \<in> set vts. slot v < length votes"
  shows "slots_of vts votes ! i = Some v \<longleftrightarrow>
    v \<in> set vts \<and> slot v = i \<or> i \<notin> slot ` set vts \<and> votes ! i = Some v"
  using assms
proof (induction vts arbitrary: votes)
  case (Cons w vts)
  have "slots_of (w # vts) votes ! i = Some v \<longleftrightarrow>
      v \<in> set vts \<and> slot v = i \<or> i \<notin> slot ` set vts \<and> votes[slot w := Some w] ! i = Some v"
    using Cons.IH [of "votes[slot w := Some w]"] Cons.prems by simp
  moreover have "slot w \<notin> slot ` set vts" "slot w < length votes" using Cons.prems by simp_all
  ultimately show ?case by (cases "slot w = i") (auto simp: image_iff)
qed simp

lemma honest_slots:
  assumes "honest_votes T chainID t vals vts"
  shows "distinct (map slot vts)" "\<forall>v \<in> set vts. slot v < length vals"
proof -
  have nonneg: "vValidatorIndex v = int (slot v)" if "v \<in> set vts" for v
    using assms that unfolding honest_votes_def good_vote_def by blast
  have "inj_on nat (vValidatorIndex ` set vts)"
  proof (rule inj_onI, elim imageE)
    fix x y v w assume "nat x = nat y" and "x = vValidatorIndex v" "v \<in> set vts"
      and "y = vValidatorIndex w" "w \<in> set vts"
    then show "x = y" using nonneg by metis
  qed
  moreover have "distinct (map vValidatorIndex vts)" using assms by (simp add: honest_votes_def)
  ultimately have "distinct (map nat (map vValidatorIndex vts))" unfolding distinct_map by simp
  then show "distinct (map slot vts)" by (simp add: comp_def)
  show "\<forall>v \<in> set vts. slot v < length vals"
    using assms unfolding honest_votes_def good_vote_def by blast
qed

definition power_for :: "'pk Proposer list \<Rightarrow> Vote list \<Rightarrow> DataHash \<Rightarrow> int" where
  "power_for vals vts h = validators.power vals (slot ` {v \<in> set vts. vDataHash v = h})"

text \<open>C30: liveness and order. Verified votes of different validators are all added, in any
  order, and end in the same canonical votes; the majority is the hash with more than two
  thirds of the power among them, and it is signalled.\<close>

theorem honest_votes_decide:
  assumes "votable s" and "honest_votes T chainID t (Proposers s) vts"
  shows "\<exists>vs. add_each T vts (NewVoteSet chainID t s) = Return vs \<and>
    (\<forall>i < length (Proposers s). \<forall>v. vsVotes vs ! i = Some v \<longleftrightarrow> v \<in> set vts \<and> slot v = i) \<and>
    (vsMaj23 vs = Some h \<longleftrightarrow> power_sum (Proposers s) * 2 < 3 * power_for (Proposers s) vts h) \<and>
    (vsMaj23 vs = Some h \<longrightarrow> vsDone vs)"
proof -
  let ?vs = "NewVoteSet chainID t s" and ?vals = "Proposers s"
  have start: "vote_inv T ?vs" "vsChainID ?vs = chainID" "vsSignedMsgType ?vs = t" "members ?vs = ?vals"
    "vsVotes ?vs = replicate (length ?vals) None" "vsMaj23 ?vs = None"
    using assms(1) NewVoteSet_inv [of s T chainID t]
    by (simp_all add: votable_def NewVoteSet_def Size_def)
  note slots = honest_slots [OF assms(2)]
  have free: "\<forall>v \<in> set vts. vsVotes ?vs ! slot v = None" using slots(2) start(5) by simp
  from add_each_honest [OF start(1) calm_new _ free] assms(2) start(2-4) obtain vs where
    vs: "add_each T vts ?vs = Return vs" "vote_inv T vs" "extends ?vs vs"
      "vsVotes vs = slots_of vts (vsVotes ?vs)" "vts \<noteq> [] \<and> vsMaj23 vs \<noteq> None \<longrightarrow> vsDone vs" by auto
  have votes: "vsVotes vs ! i = Some v \<longleftrightarrow> v \<in> set vts \<and> slot v = i" if "i < length ?vals" for i v
    using that slots slots_of_iff [OF slots(1), of "replicate (length ?vals) None" i v] vs(4) start(5) by simp
  have len: "length (vsVotes vs) = length ?vals" using vs(4) start(5) by simp
  have "i \<in> voted_for (vsVotes vs) h \<longleftrightarrow> (\<exists>v \<in> set vts. vDataHash v = h \<and> slot v = i)" for i
    using votes len slots(2) unfolding voted_for_iff by metis
  then have "voted_for (vsVotes vs) h = slot ` {v \<in> set vts. vDataHash v = h}"
    unfolding set_eq_iff image_iff Bex_def mem_Collect_eq by metis
  moreover have "members vs = ?vals" using vs(3) start(4) by (simp add: extends_def)
  ultimately have maj: "vsMaj23 vs = Some h \<longleftrightarrow> power_sum ?vals * 2 < 3 * power_for ?vals vts h"
    using majority_canonical [OF vote_invD(1) [OF vs(2)], of h] canonical_majority [OF vs(2), of h]
    unfolding power_for_def validators.quorum_iff [symmetric] by metis
  have "vsDone vs" if "vsMaj23 vs = Some h"
  proof -
    have "vts \<noteq> []"
    proof
      assume "vts = []"
      then have "power_sum ?vals * 2 < 0" using that maj by (simp add: power_for_def)
      then show False using validators.total_nonneg [of ?vals] assms(1) by (simp add: votable_def)
    qed
    then show ?thesis using vs(5) that by simp
  qed
  then show ?thesis using vs(1) votes maj by blast
qed

theorem honest_votes_decide_witness:
  "\<exists>vs. add_each sample_tm [sample_vote [1] 1 [8], sample_vote [2] 0 [7]] sample_start = Return vs \<and>
    vsMaj23 vs = Some \<lparr>Hash = [7]\<rparr> \<and> vsDone vs"
proof -
  let ?vts = "[sample_vote [1] 1 [8], sample_vote [2] 0 [7]]"
  have honest: "honest_votes sample_tm [9] PrecommitType (Proposers sample_set) ?vts"
    by (simp add: honest_votes_def good_vote_def sample_vote_def sample_simps sample_set_def Let_def)
  have "vDataHash (sample_vote k i h) = \<lparr>Hash = h\<rparr>" "slot (sample_vote k i h) = nat i" for k i h
    by (simp_all add: sample_vote_def Let_def)
  then have "{v \<in> set ?vts. vDataHash v = \<lparr>Hash = [7]\<rparr>} = {sample_vote [2] 0 [7]}"
    "slot (sample_vote [2] 0 [7]) = 0" by auto
  then have "slot ` {v \<in> set ?vts. vDataHash v = \<lparr>Hash = [7]\<rparr>} = {0}" by simp
  then have "power_for (Proposers sample_set) ?vts \<lparr>Hash = [7]\<rparr> = 3"
    by (simp add: power_for_def validators.power_def sample_set_def)
  moreover have "power_sum (Proposers sample_set) = 4" by (simp add: sample_set_def)
  ultimately show ?thesis
    using honest_votes_decide [OF sample_set_votable honest, of "\<lparr>Hash = [7]\<rparr>"] by auto
qed

end
