(* ===== verification/Con_Proposal.thy ===== *)
theory Con_Proposal
  imports Con_DataHash
begin

text \<open>
  \<^verbatim>\<open>src/concord/proposal.go\<close>: proposals, their validation, sign bytes and protobuf form. The
  current time is an argument. The proposed data stands where a block hash would: the
  canonical proposal reads it as a data hash.
\<close>

record Proposal =
  prType :: SignedMsgType
  prRound :: int
  prPOLRound :: int
  prTimestamp :: time
  prSignature :: bytes
  prData :: bytes

definition NewProposal :: "time \<Rightarrow> int \<Rightarrow> int \<Rightarrow> bytes \<Rightarrow> Proposal" where
  "NewProposal now round polRound data =
     \<lparr>prType = ProposalType, prRound = round, prPOLRound = polRound, prTimestamp = now,
      prSignature = [], prData = data\<rparr>"

datatype proposal_error =
    InvalidProposalType | NegativeRound | NegativePOLRound | ProposalSignatureMissing
  | ProposalSignatureTooBig | NilProposal

definition Proposal_ValidateBasic :: "'pk tm \<Rightarrow> Proposal \<Rightarrow> proposal_error option" where
  "Proposal_ValidateBasic T p =
     (if prType p \<noteq> ProposalType then Some InvalidProposalType
      else if prRound p < 0 then Some NegativeRound
      else if prPOLRound p < -1 then Some NegativePOLRound
      else if length (prSignature p) = 0 then Some ProposalSignatureMissing
      else if length (prSignature p) > MaxSignatureSize T then Some ProposalSignatureTooBig
      else None)"

definition ProposalSignBytes :: "'pk tm \<Rightarrow> bytes \<Rightarrow> pb_Proposal \<Rightarrow> bytes outcome" where
  "ProposalSignBytes T chainID p =
     obind (CanonicalizeProposal T chainID p) (\<lambda>pb.
       case MarshalDelimitedProposal T pb of None \<Rightarrow> Panic PanicMarshal | Some bz \<Rightarrow> Return bz)"

definition Proposal_ToProto :: "Proposal option \<Rightarrow> pb_Proposal" where
  "Proposal_ToProto proposal =
     (case proposal of
        None \<Rightarrow> pb_Proposal_zero
      | Some p \<Rightarrow>
          \<lparr>ppType = prType p, ppRound = prRound p, ppPolRound = prPOLRound p, ppData = prData p,
           ppTimestamp = prTimestamp p, ppSignature = prSignature p\<rparr>)"

definition ProposalFromProto :: "'pk tm \<Rightarrow> pb_Proposal option \<Rightarrow> proposal_error + Proposal" where
  "ProposalFromProto T pp =
     (case pp of
        None \<Rightarrow> Inl NilProposal
      | Some pp \<Rightarrow>
          let p = \<lparr>prType = ppType pp, prRound = ppRound pp, prPOLRound = ppPolRound pp,
                   prTimestamp = ppTimestamp pp, prSignature = ppSignature pp, prData = ppData pp\<rparr>
          in case Proposal_ValidateBasic T p of Some err \<Rightarrow> Inl err | None \<Rightarrow> Inr p)"

section \<open>Facts\<close>

lemma Proposal_ValidateBasic_ok:
  "Proposal_ValidateBasic T p = None \<longleftrightarrow> prType p = ProposalType \<and> 0 \<le> prRound p \<and> -1 \<le> prPOLRound p \<and>
     prSignature p \<noteq> [] \<and> length (prSignature p) \<le> MaxSignatureSize T"
  by (auto simp: Proposal_ValidateBasic_def)

lemma Proposal_eta [simp]:
  "\<lparr>prType = prType p, prRound = prRound p, prPOLRound = prPOLRound p, prTimestamp = prTimestamp p,
    prSignature = prSignature p, prData = prData p\<rparr> = p"
  by (cases p) simp

interpretation proposal_wire: wire "\<lambda>p. Proposal_ToProto (Some p)" "\<lambda>p. ProposalFromProto T (Some p)"
  "\<lambda>p. Proposal_ValidateBasic T p = None" "\<lambda>p. p" for T
  by unfold_locales
    (auto simp: ProposalFromProto_def Proposal_ToProto_def Let_def split: option.splits)

definition canonical_proposal :: "bytes \<Rightarrow> Proposal \<Rightarrow> CanonicalProposal" where
  "canonical_proposal chainID p =
     \<lparr>cpType = ProposalType, cpHeight = 0, cpRound = 0, cpPOLRound = 0,
      cpDataHash = canonical_hash \<lparr>Hash = prData p\<rparr>, cpTimestamp = prTimestamp p, cpChainID = chainID\<rparr>"

text \<open>The data can stand for a hash, and the marshaller accepts the message.\<close>

definition proposal_checkable :: "'pk tm \<Rightarrow> bytes \<Rightarrow> Proposal \<Rightarrow> bool" where
  "proposal_checkable T chainID p \<longleftrightarrow> hash_ok T \<lparr>Hash = prData p\<rparr> \<and>
     MarshalDelimitedProposal T (canonical_proposal chainID p) \<noteq> None"

definition proposal_bytes :: "'pk tm \<Rightarrow> bytes \<Rightarrow> Proposal \<Rightarrow> bytes" where
  "proposal_bytes T chainID p = the (MarshalDelimitedProposal T (canonical_proposal chainID p))"

lemma ProposalSignBytes_eq:
  "ProposalSignBytes T chainID (Proposal_ToProto (Some p)) =
     (if \<not> hash_ok T \<lparr>Hash = prData p\<rparr> then Panic PanicDataHash
      else if proposal_checkable T chainID p then Return (proposal_bytes T chainID p)
      else Panic PanicMarshal)"
  by (auto simp: ProposalSignBytes_def CanonicalizeProposal_def Proposal_ToProto_def CanonicalizeDataHash_eq
      proposal_checkable_def proposal_bytes_def canonical_proposal_def)

section \<open>Properties\<close>

text \<open>C32: proposals on the wire: a proposal decodes from its encoding exactly when it is valid,
  and a decoded proposal encodes to the very message it came from.\<close>

theorem Proposal_roundtrip:
  "(ProposalFromProto T (Some (Proposal_ToProto (Some p))) = Inr p \<longleftrightarrow> Proposal_ValidateBasic T p = None) \<and>
   (\<forall>pp. ProposalFromProto T (Some pp) = Inr p \<longrightarrow>
      Proposal_ValidateBasic T p = None \<and> Proposal_ToProto (Some p) = pp)"
  using proposal_wire.decode_iff_valid [of T p] proposal_wire.decode_valid [of T _ p]
    proposal_wire.encode_decode [of T _ p] by blast

definition sample_proposal :: Proposal where
  "sample_proposal = (NewProposal 5 0 0 [7])\<lparr>prSignature := [2, 0x20, 5, 1, 1, 7, 9]\<rparr>"

theorem Proposal_roundtrip_witness:
  "ProposalFromProto sample_tm (Some (Proposal_ToProto (Some sample_proposal))) = Inr sample_proposal"
proof -
  have "Proposal_ValidateBasic sample_tm sample_proposal = None"
    by (simp add: Proposal_ValidateBasic_ok sample_proposal_def NewProposal_def MaxSignatureSize_def)
  then show ?thesis using Proposal_roundtrip [of sample_tm sample_proposal] by blast
qed

text \<open>C33: what a proposer's signature binds. The sign bytes exist exactly for data that is empty
  or as long as a hash, otherwise asking for them panics; with an injective marshaller they
  bind data, time and chain. The round and the proof-of-lock round are not bound.\<close>

theorem ProposalSignBytes_binding:
  assumes "marshal_injective (MarshalDelimitedProposal T)"
    and "ProposalSignBytes T chain1 (Proposal_ToProto (Some p1)) = Return bz"
  shows "(prData p1 = [] \<or> length (prData p1) = tmhash_Size T) \<and>
    (ProposalSignBytes T chain2 (Proposal_ToProto (Some p2)) = Return bz \<longleftrightarrow>
       prData p1 = prData p2 \<and> prTimestamp p1 = prTimestamp p2 \<and> chain1 = chain2)"
proof -
  have ok1: "hash_ok T \<lparr>Hash = prData p1\<rparr>" "proposal_checkable T chain1 p1" "bz = proposal_bytes T chain1 p1"
    using assms(2) unfolding ProposalSignBytes_eq by (auto split: if_splits)
  have same: "canonical_proposal chain1 p1 = canonical_proposal chain2 p2 \<longleftrightarrow>
      prData p1 = prData p2 \<and> prTimestamp p1 = prTimestamp p2 \<and> chain1 = chain2"
    by (auto simp: canonical_proposal_def canonical_hash_inj)
  have "prData p1 = [] \<or> length (prData p1) = tmhash_Size T"
    using ok1(1) by (auto simp: IsZero_def IsComplete_def)
  moreover have "canonical_proposal chain1 p1 = canonical_proposal chain2 p2"
    if "ProposalSignBytes T chain2 (Proposal_ToProto (Some p2)) = Return bz"
  proof -
    have "proposal_checkable T chain2 p2" "bz = proposal_bytes T chain2 p2"
      using that unfolding ProposalSignBytes_eq by (auto split: if_splits)
    then have "MarshalDelimitedProposal T (canonical_proposal chain1 p1) =
        MarshalDelimitedProposal T (canonical_proposal chain2 p2)"
      "MarshalDelimitedProposal T (canonical_proposal chain1 p1) \<noteq> None"
      using ok1(2,3) by (auto simp: proposal_checkable_def proposal_bytes_def)
    then show ?thesis using assms(1) unfolding marshal_injective_def by blast
  qed
  moreover have "ProposalSignBytes T chain2 (Proposal_ToProto (Some p2)) = Return bz"
    if "prData p1 = prData p2" "canonical_proposal chain1 p1 = canonical_proposal chain2 p2"
    using ok1 that unfolding ProposalSignBytes_eq
    by (simp add: proposal_checkable_def proposal_bytes_def)
  ultimately show ?thesis using same by blast
qed

theorem ProposalSignBytes_binding_witness:
  "ProposalSignBytes sample_tm [9] (Proposal_ToProto (Some sample_proposal)) = Return [0x20, 5, 1, 1, 7, 9] \<and>
   ProposalSignBytes sample_tm [9] (Proposal_ToProto (Some (sample_proposal\<lparr>prRound := 3\<rparr>))) =
     Return [0x20, 5, 1, 1, 7, 9]"
proof -
  have run: "ProposalSignBytes sample_tm [9] (Proposal_ToProto (Some sample_proposal)) =
      Return [0x20, 5, 1, 1, 7, 9]" by code_simp
  show ?thesis
    using run ProposalSignBytes_binding [OF sample_tm_injective(2) run, of "[9]" "sample_proposal\<lparr>prRound := 3\<rparr>"]
    by simp
qed

end
