(* ===== verification/Con_PrivValidator.thy ===== *)
theory Con_PrivValidator
  imports Con_Vote Con_Proposal Con_Proposer
begin

text \<open>
  \<^verbatim>\<open>src/concord/priv_validator.go\<close>: the interface of a private validator and its mock
  implementations. A value of the Go interface is a record of its methods; signing stores the
  signature in the message it is given, so a method returns the message, or \<open>None\<close> for an
  error. Private keys are third-party code (\<open>PrivKeys\<close>).
\<close>

record 'pk PrivProposer =
  GetPubKey :: "'pk option"
  SignVote :: "bytes \<Rightarrow> pb_Vote \<Rightarrow> pb_Vote option outcome"
  SignProposal :: "bytes \<Rightarrow> pb_Proposal \<Rightarrow> pb_Proposal option outcome"

record ('sk, 'pk) PrivKeys =
  PrivKey_PubKey :: "'sk \<Rightarrow> 'pk"
  PrivKey_Sign :: "'sk \<Rightarrow> bytes \<Rightarrow> bytes option"

text \<open>\<open>PrivValidatorsByAddress.Less\<close> panics when a key cannot be read.\<close>

definition PrivValidatorsByAddress :: "'pk tm \<Rightarrow> 'pk PrivProposer \<Rightarrow> 'pk PrivProposer \<Rightarrow> bool outcome"
where
  "PrivValidatorsByAddress T pvi pvj =
     (case GetPubKey pvi of
        None \<Rightarrow> Panic PanicPubKey
      | Some ki \<Rightarrow>
          (case GetPubKey pvj of
             None \<Rightarrow> Panic PanicPubKey
           | Some kj \<Rightarrow> Return (bytes_Compare (PubKey_Address T ki) (PubKey_Address T kj) = -1)))"

section \<open>The mock validator\<close>

record 'sk MockPV =
  PrivKey :: 'sk
  breakProposalSigning :: bool
  breakVoteSigning :: bool

text \<open>The key of \<open>ed25519.GenPrivKey()\<close> is an argument.\<close>

definition NewMockPV :: "'sk \<Rightarrow> 'sk MockPV" where
  "NewMockPV key = \<lparr>PrivKey = key, breakProposalSigning = False, breakVoteSigning = False\<rparr>"

definition NewMockPVWithParams :: "'sk \<Rightarrow> bool \<Rightarrow> bool \<Rightarrow> 'sk MockPV" where
  "NewMockPVWithParams privKey breakProposal breakVote =
     \<lparr>PrivKey = privKey, breakProposalSigning = breakProposal, breakVoteSigning = breakVote\<rparr>"

definition MockPV_GetPubKey :: "('sk, 'pk) PrivKeys \<Rightarrow> 'sk MockPV \<Rightarrow> 'pk option" where
  "MockPV_GetPubKey K pv = Some (PrivKey_PubKey K (PrivKey pv))"

text \<open>The bytes of "incorrect-chain-id".\<close>

definition incorrect_chain_id :: bytes where
  "incorrect_chain_id =
     [0x69, 0x6e, 0x63, 0x6f, 0x72, 0x72, 0x65, 0x63, 0x74, 0x2d, 0x63, 0x68, 0x61, 0x69, 0x6e, 0x2d,
      0x69, 0x64]"

definition MockPV_SignVote :: "'pk tm \<Rightarrow> ('sk, 'pk) PrivKeys \<Rightarrow> 'sk MockPV \<Rightarrow> bytes \<Rightarrow> pb_Vote \<Rightarrow>
    pb_Vote option outcome" where
  "MockPV_SignVote T K pv chainID vote =
     (let useChainID = (if breakVoteSigning pv then incorrect_chain_id else chainID)
      in obind (VoteSignBytes T useChainID vote) (\<lambda>signBytes.
        case PrivKey_Sign K (PrivKey pv) signBytes of
          None \<Rightarrow> Return None
        | Some sig \<Rightarrow> Return (Some (vote\<lparr>pvSignature := sig\<rparr>))))"

definition MockPV_SignProposal :: "'pk tm \<Rightarrow> ('sk, 'pk) PrivKeys \<Rightarrow> 'sk MockPV \<Rightarrow> bytes \<Rightarrow> pb_Proposal \<Rightarrow>
    pb_Proposal option outcome" where
  "MockPV_SignProposal T K pv chainID proposal =
     (let useChainID = chainID
      in obind (ProposalSignBytes T useChainID proposal) (\<lambda>signBytes.
        case PrivKey_Sign K (PrivKey pv) signBytes of
          None \<Rightarrow> Return None
        | Some sig \<Rightarrow> Return (Some (proposal\<lparr>ppSignature := sig\<rparr>))))"

definition ExtractIntoValidator :: "'pk tm \<Rightarrow> ('sk, 'pk) PrivKeys \<Rightarrow> 'sk MockPV \<Rightarrow> int \<Rightarrow> 'pk Proposer outcome"
where
  "ExtractIntoValidator T K pv votingPower =
     (case MockPV_GetPubKey K pv of
        None \<Rightarrow> Panic NilDereference
      | Some pubKey \<Rightarrow> Return
          \<lparr>Address = PubKey_Address T pubKey, PubKey = Some pubKey, VotingPower = votingPower,
           ProposerPriority = 0\<rparr>)"

definition mock :: "'pk tm \<Rightarrow> ('sk, 'pk) PrivKeys \<Rightarrow> 'sk MockPV \<Rightarrow> 'pk PrivProposer" where
  "mock T K pv =
     \<lparr>GetPubKey = MockPV_GetPubKey K pv, SignVote = MockPV_SignVote T K pv,
      SignProposal = MockPV_SignProposal T K pv\<rparr>"

definition DisableChecks :: "'sk MockPV \<Rightarrow> 'sk MockPV" where
  "DisableChecks pv = pv"

text \<open>\<open>ErroringMockPV\<close> embeds a \<open>MockPV\<close> and overrides both signing methods.\<close>

definition ErroringMockPV_SignVote :: "'sk MockPV \<Rightarrow> bytes \<Rightarrow> pb_Vote \<Rightarrow> pb_Vote option outcome" where
  "ErroringMockPV_SignVote pv chainID vote = Return None"

definition ErroringMockPV_SignProposal :: "'sk MockPV \<Rightarrow> bytes \<Rightarrow> pb_Proposal \<Rightarrow> pb_Proposal option outcome"
where
  "ErroringMockPV_SignProposal pv chainID proposal = Return None"

definition NewErroringMockPV :: "'sk \<Rightarrow> 'sk MockPV" where
  "NewErroringMockPV key = NewMockPVWithParams key False False"

definition erroring :: "('sk, 'pk) PrivKeys \<Rightarrow> 'sk MockPV \<Rightarrow> 'pk PrivProposer" where
  "erroring K pv =
     \<lparr>GetPubKey = MockPV_GetPubKey K pv, SignVote = ErroringMockPV_SignVote pv,
      SignProposal = ErroringMockPV_SignProposal pv\<rparr>"

section \<open>The contract of a signer\<close>

text \<open>The sign bytes do not depend on the signature.\<close>

lemma ProposalSignBytes_signature [simp]:
  "ProposalSignBytes T chainID (q\<lparr>ppSignature := sig\<rparr>) = ProposalSignBytes T chainID q"
  by (simp add: ProposalSignBytes_def CanonicalizeProposal_def)

lemma VoteSignBytes_signature [simp]:
  "VoteSignBytes T chainID (v\<lparr>pvSignature := sig\<rparr>) = VoteSignBytes T chainID v"
  by (simp add: VoteSignBytes_def CanonicalizeVote_def)

text \<open>
  What the consensus code needs of a \<open>PrivProposer\<close> it trusts (\<open>honest\<close>): a signing call
  that returns a message has changed nothing but its signature, and the validator's public
  key verifies that signature on the message's sign bytes for the chain.
\<close>

locale signer =
  fixes T :: "'pk tm"
    and honest :: "'pv \<Rightarrow> bool"
    and priv :: "'pv \<Rightarrow> 'pk PrivProposer"
  assumes vote_signed: "honest p \<Longrightarrow> GetPubKey (priv p) = Some k \<Longrightarrow>
      SignVote (priv p) chainID v = Return (Some v') \<Longrightarrow>
      \<exists>sig bz. v' = v\<lparr>pvSignature := sig\<rparr> \<and> VoteSignBytes T chainID v = Return bz \<and> VerifySignature T k bz sig"
    and proposal_signed: "honest p \<Longrightarrow> GetPubKey (priv p) = Some k \<Longrightarrow>
      SignProposal (priv p) chainID q = Return (Some q') \<Longrightarrow>
      \<exists>sig bz. q' = q\<lparr>ppSignature := sig\<rparr> \<and> ProposalSignBytes T chainID q = Return bz \<and> VerifySignature T k bz sig"
begin

lemma signed_vote_verifies:
  assumes "honest p" and "GetPubKey (priv p) = Some k" and "vValidatorAddress v = PubKey_Address T k"
    and "SignVote (priv p) chainID (vote_pb v) = Return (Some v')"
  shows "Vote_Verify T (v\<lparr>vSignature := pvSignature v'\<rparr>) chainID (Some k) = Return None"
proof -
  let ?w = "v\<lparr>vSignature := pvSignature v'\<rparr>"
  obtain bz where bz: "VoteSignBytes T chainID (vote_pb v) = Return bz"
    "VerifySignature T k bz (pvSignature v')" using vote_signed [OF assms(1,2,4)] by auto
  have "VoteSignBytes T chainID (vote_pb ?w) = VoteSignBytes T chainID (vote_pb v)"
    by (simp add: VoteSignBytes_def CanonicalizeVote_def Vote_ToProto_def)
  then show ?thesis
    using bz assms(3) by (simp add: Vote_Verify_def Vote_ToProto_def)
qed

lemma signed_proposal_verifies:
  assumes "honest p" and "GetPubKey (priv p) = Some k"
    and "SignProposal (priv p) chainID q = Return (Some q')"
  shows "\<exists>bz. ProposalSignBytes T chainID q' = Return bz \<and> VerifySignature T k bz (ppSignature q')"
proof -
  obtain sig bz where "q' = q\<lparr>ppSignature := sig\<rparr>" "ProposalSignBytes T chainID q = Return bz"
    "VerifySignature T k bz sig" using proposal_signed [OF assms] by blast
  then show ?thesis by simp
qed

end

text \<open>What a key pair promises: a signature by the private key verifies under its public key.\<close>

definition keys_sound :: "'pk tm \<Rightarrow> ('sk, 'pk) PrivKeys \<Rightarrow> bool" where
  "keys_sound T K \<longleftrightarrow> (\<forall>sk m sig. PrivKey_Sign K sk m = Some sig \<longrightarrow>
     VerifySignature T (PrivKey_PubKey K sk) m sig)"

interpretation mock: signer T "\<lambda>pv. keys_sound T K \<and> \<not> breakVoteSigning pv" "mock T K" for T K
  by unfold_locales
    (auto simp: mock_def MockPV_GetPubKey_def MockPV_SignVote_def MockPV_SignProposal_def keys_sound_def
      Let_def split: option.splits)

interpretation erroring: signer T "\<lambda>pv. True" "erroring K" for T K
  by unfold_locales (auto simp: erroring_def ErroringMockPV_SignVote_def ErroringMockPV_SignProposal_def)

text \<open>A signer that also never fails to sign a vote that has sign bytes.\<close>

locale working_signer = signer +
  assumes vote_returns: "honest p \<Longrightarrow> VoteSignBytes T chainID v = Return bz \<Longrightarrow>
    \<exists>v'. SignVote (priv p) chainID v = Return (Some v')"
begin

lemma signs_vote:
  assumes "honest p" and "GetPubKey (priv p) = Some k" and "vValidatorAddress v = PubKey_Address T k"
    and "hash_ok T (vDataHash v)" and "marshals T chainID v"
  shows "\<exists>v'. SignVote (priv p) chainID (vote_pb v) = Return (Some v') \<and>
    Vote_Verify T (v\<lparr>vSignature := pvSignature v'\<rparr>) chainID (Some k) = Return None"
proof -
  have "VoteSignBytes T chainID (vote_pb v) = Return (sign_bytes T chainID v)"
    using VoteSignBytes_pb [of T chainID v] assms(4,5) by simp
  from vote_returns [OF assms(1) this] show ?thesis
    using signed_vote_verifies [OF assms(1-3)] by blast
qed

end

definition keys_work :: "'pk tm \<Rightarrow> ('sk, 'pk) PrivKeys \<Rightarrow> bool" where
  "keys_work T K \<longleftrightarrow> keys_sound T K \<and> (\<forall>sk m. PrivKey_Sign K sk m \<noteq> None)"

lemma mock_vote_returns:
  assumes "keys_work T K" and "\<not> breakVoteSigning p" and "VoteSignBytes T chainID v = Return bz"
  shows "\<exists>v'. SignVote (mock T K p) chainID v = Return (Some v')"
proof -
  obtain sig where "PrivKey_Sign K (PrivKey p) bz = Some sig"
    using assms(1) by (auto simp: keys_work_def)
  then show ?thesis using assms by (simp add: mock_def MockPV_SignVote_def)
qed

interpretation working: working_signer T "\<lambda>pv. keys_work T K \<and> \<not> breakVoteSigning pv" "mock T K" for T K
  by unfold_locales
    (rule mock.vote_signed mock.proposal_signed mock_vote_returns; (assumption | simp add: keys_work_def))+

section \<open>Samples\<close>

text \<open>The key pairs that go with \<open>sample_tm\<close>: a private key is its own public key.\<close>

definition sample_keys :: "(bytes, bytes) PrivKeys" where
  "sample_keys = \<lparr>PrivKey_PubKey = (\<lambda>sk. sk), PrivKey_Sign = (\<lambda>sk m. Some (sk @ m))\<rparr>"

lemma sample_keys_sound: "keys_sound sample_tm sample_keys"
  by (simp add: keys_sound_def sample_keys_def sample_tm_def)

abbreviation sample_priv :: "bytes \<Rightarrow> bytes PrivProposer" where
  "sample_priv k \<equiv> mock sample_tm sample_keys (NewMockPV k)"

section \<open>Properties\<close>

text \<open>The mock validator signs what it is asked to: unless its vote signing is broken, a vote
  it signs verifies under its own key, and a proposal it signs does so whatever its flags
  say, the flag that should break proposal signing included. Signing a vote whose hash is
  neither empty nor complete panics.\<close>

theorem MockPV_signs:
  assumes "keys_sound T K" and "\<And>sk m. PrivKey_Sign K sk m \<noteq> None"
    and "vValidatorAddress v = PubKey_Address T (PrivKey_PubKey K (PrivKey pv))"
  shows "(\<not> breakVoteSigning pv \<longrightarrow> hash_ok T (vDataHash v) \<longrightarrow> marshals T chainID v \<longrightarrow>
      (\<exists>v'. MockPV_SignVote T K pv chainID (vote_pb v) = Return (Some v') \<and>
        Vote_Verify T (v\<lparr>vSignature := pvSignature v'\<rparr>) chainID (MockPV_GetPubKey K pv) = Return None)) \<and>
    (\<not> hash_ok T (vDataHash v) \<longrightarrow> MockPV_SignVote T K pv chainID (vote_pb v) = Panic PanicDataHash) \<and>
    (proposal_checkable T chainID q \<longrightarrow>
      (\<exists>q' bz. MockPV_SignProposal T K pv chainID (Proposal_ToProto (Some q)) = Return (Some q') \<and>
        ProposalSignBytes T chainID q' = Return bz \<and>
        VerifySignature T (PrivKey_PubKey K (PrivKey pv)) bz (ppSignature q')))"
proof (intro conjI impI)
  assume "\<not> breakVoteSigning pv" "hash_ok T (vDataHash v)" "marshals T chainID v"
  then show "\<exists>v'. MockPV_SignVote T K pv chainID (vote_pb v) = Return (Some v') \<and>
      Vote_Verify T (v\<lparr>vSignature := pvSignature v'\<rparr>) chainID (MockPV_GetPubKey K pv) = Return None"
    using working.signs_vote [of T K pv "PrivKey_PubKey K (PrivKey pv)" v chainID] assms
    by (simp add: keys_work_def mock_def MockPV_GetPubKey_def)
next
  assume "\<not> hash_ok T (vDataHash v)"
  then show "MockPV_SignVote T K pv chainID (vote_pb v) = Panic PanicDataHash"
    using VoteSignBytes_pb [of T _ v] by (simp add: MockPV_SignVote_def Let_def)
next
  assume q: "proposal_checkable T chainID q"
  let ?q = "Proposal_ToProto (Some q)"
  have bz: "ProposalSignBytes T chainID ?q = Return (proposal_bytes T chainID q)"
    using q unfolding ProposalSignBytes_eq by (auto simp: proposal_checkable_def)
  obtain sig where sig: "PrivKey_Sign K (PrivKey pv) (proposal_bytes T chainID q) = Some sig"
    using assms(2) by auto
  then have run: "MockPV_SignProposal T K pv chainID ?q = Return (Some (?q\<lparr>ppSignature := sig\<rparr>))"
    using bz by (simp add: MockPV_SignProposal_def)
  have "ProposalSignBytes T chainID (?q\<lparr>ppSignature := sig\<rparr>) = Return (proposal_bytes T chainID q)"
    using bz by simp
  then show "\<exists>q' bz. MockPV_SignProposal T K pv chainID ?q = Return (Some q') \<and>
      ProposalSignBytes T chainID q' = Return bz \<and>
      VerifySignature T (PrivKey_PubKey K (PrivKey pv)) bz (ppSignature q')"
    using run sig assms(1) by (auto simp: keys_sound_def)
qed

theorem MockPV_signs_witness:
  "\<exists>v' q'. MockPV_SignVote sample_tm sample_keys (NewMockPV [2]) [9] (vote_pb (sample_vote [2] 0 [7])) =
      Return (Some v') \<and>
    MockPV_SignProposal sample_tm sample_keys (NewMockPVWithParams [2] True False) [9]
      (Proposal_ToProto (Some sample_proposal)) = Return (Some q')"
proof -
  let ?v = "sample_vote [2] 0 [7]"
  have signs: "PrivKey_Sign sample_keys sk m \<noteq> None" for sk m by (simp add: sample_keys_def)
  have adr: "vValidatorAddress ?v = PubKey_Address sample_tm (PrivKey_PubKey sample_keys (PrivKey pv))"
    if "PrivKey pv = [2]" for pv :: "bytes MockPV"
    using that by (simp add: sample_vote_def sample_simps sample_keys_def Let_def)
  have v: "hash_ok sample_tm (vDataHash ?v)" "marshals sample_tm [9] ?v"
    by (simp_all add: sample_vote_def sample_simps Let_def)
  have q: "proposal_checkable sample_tm [9] sample_proposal"
    by (simp add: proposal_checkable_def sample_proposal_def NewProposal_def canonical_proposal_def sample_simps)
  have "\<not> breakVoteSigning (NewMockPV [2])" by (simp add: NewMockPV_def)
  then show ?thesis
    using MockPV_signs [OF sample_keys_sound signs adr, of "NewMockPV [2]" "[9]"] v
      MockPV_signs [OF sample_keys_sound signs adr, of "NewMockPVWithParams [2] True False" "[9]" sample_proposal] q
    by (simp add: NewMockPV_def NewMockPVWithParams_def) blast
qed

end
