(* ===== verification/Con_TestUtil.thy ===== *)
theory Con_TestUtil
  imports Con_CommitSafety Con_PrivValidator
begin

text \<open>
  \<^verbatim>\<open>src/concord/test_util.go\<close>: signing and adding the votes of all validators and making
  the commit of them, and making one vote. The parameters the code does not read (\<open>height\<close>,
  \<open>round\<close>) are left out.
\<close>

datatype util_error = CannotGetPubKey | CannotSign | CannotAdd vote_error

definition signAddVote :: "'pk tm \<Rightarrow> 'pk PrivProposer \<Rightarrow> Vote \<Rightarrow> 'pk VoteSet \<Rightarrow>
    ('pk VoteSet \<times> bool \<times> util_error option) outcome" where
  "signAddVote T privVal vote voteSet =
     (case Vote_ToProto (Some vote) of
        None \<Rightarrow> Panic NilDereference
      | Some v \<Rightarrow>
          obind (SignVote privVal (vsChainID voteSet) v) (\<lambda>signed. case signed of
            None \<Rightarrow> Return (voteSet, False, Some CannotSign)
          | Some v \<Rightarrow>
              obind (VoteSet_AddVote T (Some (vote\<lparr>vSignature := pvSignature v\<rparr>)) (Some voteSet))
                (\<lambda>(voteSet, added, err). Return (voteSet, added, map_option CannotAdd err))))"

fun sign_all :: "'pk tm \<Rightarrow> DataHash \<Rightarrow> time \<Rightarrow> nat \<Rightarrow> 'pk PrivProposer list \<Rightarrow> 'pk VoteSet \<Rightarrow>
    ('pk VoteSet \<times> util_error option) outcome" where
  "sign_all T dataHash now i [] voteSet = Return (voteSet, None)"
| "sign_all T dataHash now i (p # ps) voteSet =
     (case GetPubKey p of
        None \<Rightarrow> Return (voteSet, Some CannotGetPubKey)
      | Some pubKey \<Rightarrow>
          let vote = \<lparr>vType = PrecommitType, vDataHash = dataHash, vTimestamp = now,
                      vValidatorAddress = PubKey_Address T pubKey, vValidatorIndex = wrap32 (int i),
                      vSignature = []\<rparr>
          in obind (signAddVote T p vote voteSet) (\<lambda>(voteSet, _, err). case err of
               Some e \<Rightarrow> Return (voteSet, Some e)
             | None \<Rightarrow> sign_all T dataHash now (Suc i) ps voteSet))"

text \<open>The function \<open>MakeCommit\<close> of the test helpers.\<close>

definition MakeCommit_signed :: "'pk tm \<Rightarrow> DataHash \<Rightarrow> 'pk VoteSet \<Rightarrow> 'pk PrivProposer list \<Rightarrow> time \<Rightarrow>
    ('pk VoteSet \<times> (util_error + Commit)) outcome" where
  "MakeCommit_signed T dataHash voteSet validators now =
     obind (sign_all T dataHash now 0 validators voteSet) (\<lambda>(voteSet, err). case err of
       Some e \<Rightarrow> Return (voteSet, Inl e)
     | None \<Rightarrow> obind (MakeCommit T voteSet) (\<lambda>c. Return (voteSet, Inr c)))"

definition MakeVote :: "'pk tm \<Rightarrow> DataHash \<Rightarrow> 'pk ProposerSet \<Rightarrow> 'pk PrivProposer \<Rightarrow> bytes \<Rightarrow> time \<Rightarrow>
    (util_error + Vote) outcome" where
  "MakeVote T dataHash valSet privVal chainID now =
     (case GetPubKey privVal of
        None \<Rightarrow> Return (Inl CannotGetPubKey)
      | Some pubKey \<Rightarrow>
          let addr = PubKey_Address T pubKey;
              (idx, _) = GetByAddress valSet addr;
              vote = \<lparr>vType = PrecommitType, vDataHash = dataHash, vTimestamp = now,
                      vValidatorAddress = addr, vValidatorIndex = idx, vSignature = []\<rparr>
          in (case Vote_ToProto (Some vote) of
                None \<Rightarrow> Panic NilDereference
              | Some v \<Rightarrow>
                  obind (SignVote privVal chainID v) (\<lambda>signed. case signed of
                    None \<Rightarrow> Return (Inl CannotSign)
                  | Some v \<Rightarrow> Return (Inr (vote\<lparr>vSignature := pvSignature v\<rparr>)))))"

section \<open>All validators sign\<close>

text \<open>Mock validators whose keys are those of the set, in its order.\<close>

definition mocks_of :: "'pk tm \<Rightarrow> ('sk, 'pk) PrivKeys \<Rightarrow> 'sk MockPV list \<Rightarrow> 'pk Proposer list \<Rightarrow> bool" where
  "mocks_of T K pvs vals \<longleftrightarrow> length pvs = length vals \<and> (\<forall>i < length vals.
     \<not> breakVoteSigning (pvs ! i) \<and> PubKey (vals ! i) = Some (PrivKey_PubKey K (PrivKey (pvs ! i))) \<and>
     Address (vals ! i) = PubKey_Address T (PrivKey_PubKey K (PrivKey (pvs ! i))) \<and> Address (vals ! i) \<noteq> [])"

text \<open>The same for any signers, in the terms of their contract.\<close>

definition signers_of :: "('pv \<Rightarrow> bool) \<Rightarrow> ('pv \<Rightarrow> 'pk PrivProposer) \<Rightarrow> 'pk tm \<Rightarrow> 'pv list \<Rightarrow>
    'pk Proposer list \<Rightarrow> bool" where
  "signers_of honest priv T pvs vals \<longleftrightarrow> length pvs = length vals \<and> (\<forall>i < length vals.
     honest (pvs ! i) \<and> (\<exists>k. GetPubKey (priv (pvs ! i)) = Some k \<and> PubKey (vals ! i) = Some k \<and>
       Address (vals ! i) = PubKey_Address T k \<and> Address (vals ! i) \<noteq> []))"

lemma mocks_signers:
  "keys_work T K \<Longrightarrow> mocks_of T K pvs vals \<Longrightarrow>
     signers_of (\<lambda>pv. keys_work T K \<and> \<not> breakVoteSigning pv) (mock T K) T pvs vals"
  by (auto simp: mocks_of_def signers_of_def mock_def MockPV_GetPubKey_def)

definition signed_state :: "'pk tm \<Rightarrow> bytes \<Rightarrow> DataHash \<Rightarrow> 'pk Proposer list \<Rightarrow> nat \<Rightarrow> 'pk VoteSet \<Rightarrow> bool"
where
  "signed_state T chainID h vals k vs \<longleftrightarrow> vote_inv T vs \<and> calm vs \<and> vsChainID vs = chainID \<and>
     vsSignedMsgType vs = PrecommitType \<and> members vs = vals \<and>
     (\<forall>i < length vals. if i < k then \<exists>v. vsVotes vs ! i = Some v \<and> vDataHash v = h
        else vsVotes vs ! i = None)"

context working_signer
begin

lemma sign_all_ok:
  assumes signers: "signers_of honest priv T pvs vals" and len: "length vals < 2 ^ 31"
    and h: "hash_ok T h" and m: "\<And>v. vType v = PrecommitType \<Longrightarrow> vDataHash v = h \<Longrightarrow> vTimestamp v = now \<Longrightarrow>
      marshals T chainID v"
    and "drop k pvs = ps" and "signed_state T chainID h vals k vs" and "k \<le> length vals"
    and "vote_history T chainID PrecommitType s vs"
  shows "\<exists>vs'. sign_all T h now k (map priv ps) vs = Return (vs', None) \<and>
    signed_state T chainID h vals (length vals) vs' \<and> vote_history T chainID PrecommitType s vs'"
  using assms(5-8)
proof (induction ps arbitrary: k vs)
  case Nil
  then have "k = length vals" using signers by (simp add: signers_of_def)
  then show ?case using Nil by auto
next
  case (Cons p ps)
  note d = drop_Cons_nth [OF Cons.prems(1)]
  have k: "k < length vals" using d signers by (simp add: signers_of_def)
  note st = Cons.prems(2) [unfolded signed_state_def]
  from signers k d obtain pk where p: "honest p" "GetPubKey (priv p) = Some pk" "PubKey (vals ! k) = Some pk"
    "Address (vals ! k) = PubKey_Address T pk" "Address (vals ! k) \<noteq> []" by (auto simp: signers_of_def)
  let ?v = "\<lparr>vType = PrecommitType, vDataHash = h, vTimestamp = now,
    vValidatorAddress = PubKey_Address T pk, vValidatorIndex = int k, vSignature = []\<rparr>"
  have marsh: "marshals T chainID (?v\<lparr>vSignature := sg\<rparr>)" for sg by (intro m) simp_all
  obtain v' where v': "SignVote (priv p) chainID (vote_pb ?v) = Return (Some v')"
    "Vote_Verify T (?v\<lparr>vSignature := pvSignature v'\<rparr>) chainID (Some pk) = Return None"
    using signs_vote [OF p(1,2), of ?v chainID] h marsh [of "[]"] by auto
  let ?w = "?v\<lparr>vSignature := pvSignature v'\<rparr>"
  have signed: "signed_by T chainID pk ?w"
    using v'(2) Vote_Verify_None [OF v'(2)] by simp
  have good: "good_in T vs k ?w"
    using st k p h marsh signed by (simp add: good_vote_def)
  have none: "vsVotes vs ! k = None" using st k by simp
  from AddVote_fresh [OF _ good none] st obtain vs1 where
    add: "VoteSet_AddVote T (Some ?w) (Some vs) = Return (vs1, True, None)" and
    one: "vote_inv T vs1" "extends vs vs1" "vsVotes vs1 = (vsVotes vs)[k := Some ?w]" "calm vs1" by blast
  have "length (vsVotes vs) = length vals"
    using core_invD(4) [OF vote_invD(1)] st by blast
  then have "signed_state T chainID h vals (Suc k) vs1"
    using one st k by (auto simp: signed_state_def extends_def nth_list_update less_Suc_eq)
  moreover have "vote_history T chainID PrecommitType s vs1"
    using vote_history.voted [OF Cons.prems(4) add] .
  ultimately obtain vs' where rest: "sign_all T h now (Suc k) (map priv ps) vs1 = Return (vs', None)"
    "signed_state T chainID h vals (length vals) vs'" "vote_history T chainID PrecommitType s vs'"
    using Cons.IH [of "Suc k" vs1] d k by auto
  obtain pv where pv: "Vote_ToProto (Some ?v) = Some pv" by (simp add: Vote_ToProto_def)
  have "signAddVote T (priv p) ?v vs = Return (vs1, True, None)"
    using v'(1) add pv st by (simp add: signAddVote_def)
  moreover have "wrap32 (int k) = int k" using k len by simp
  ultimately show ?case using rest p(2) by simp
qed

lemma signed_commit_verifies:
  assumes "signers_of honest priv T pvs (Proposers s)" and "length (Proposers s) < 2 ^ 31"
    and "votable s" and "0 < power_sum (Proposers s)" and "IsComplete T h"
    and "\<And>v. vType v = PrecommitType \<Longrightarrow> vDataHash v = h \<Longrightarrow> vTimestamp v = now \<Longrightarrow> marshals T chainID v"
  shows "\<exists>vs c. MakeCommit_signed T h (NewVoteSet chainID PrecommitType s) (map priv pvs) now =
      Return (vs, Inr c) \<and> cmDataHash c = h \<and>
    VerifyCommit T chainID (Hash h) c s = Return (cached s, None)"
proof -
  let ?vals = "Proposers s" and ?vs = "NewVoteSet chainID PrecommitType s"
  have "signed_state T chainID h ?vals 0 ?vs"
    using NewVoteSet_inv [of s T chainID PrecommitType] calm_new [of chainID PrecommitType s] assms(3)
    by (simp add: signed_state_def votable_def) (simp add: NewVoteSet_def Size_def)
  from sign_all_ok [OF assms(1,2) disjI2 [OF assms(5)] assms(6) _ this _ opened] obtain vs where
    run: "sign_all T h now 0 (map priv pvs) ?vs = Return (vs, None)" and
    st: "signed_state T chainID h ?vals (length ?vals) vs" and
    hist: "vote_history T chainID PrecommitType s vs" by auto
  have inv: "vote_inv T vs" and m: "members vs = ?vals" using st by (simp_all add: signed_state_def)
  have "length (vsVotes vs) = length ?vals" using core_invD(4) [OF vote_invD(1) [OF inv]] m by simp
  then have "voted_for (vsVotes vs) h = {..<length ?vals}"
    using st by (auto simp: voted_for_iff signed_state_def)
  then have "validators.quorum (members vs) \<le> validators.power (members vs) (voted_for (vsVotes vs) h)"
    using m assms(4) by (simp add: validators.power_total validators.quorum_iff)
  then have maj: "vsMaj23 vs = Some h" by (rule canonical_majority [OF inv])
  have "\<forall>v \<in> set ?vals. PubKey v \<noteq> None"
    using assms(1) by (fastforce simp: signers_of_def in_set_conv_nth)
  from MakeCommit_verifies_lemma [OF hist assms(3) this assms(2) maj] obtain c err where
    c: "MakeCommit T vs = Return c" "cmDataHash c = h"
    "VerifyCommit T chainID (Hash h) c s = Return (cached s, err)" "err = None \<longleftrightarrow> IsComplete T h"
    by (elim exE conjE) (rule that)
  then show ?thesis using run assms(5) by (simp add: MakeCommit_signed_def)
qed

end

text \<open>C35: composition of signing, voting, committing and verifying. Working mock validators with
  the keys of a set all sign a complete hash; every signed vote is added, the commit is made,
  and it passes \<open>VerifyCommit\<close> for that hash.\<close>

theorem MakeCommit_signed_verifies:
  assumes "keys_work T K" and "mocks_of T K pvs (Proposers s)" and "length (Proposers s) < 2 ^ 31"
    and "votable s" and "0 < power_sum (Proposers s)" and "IsComplete T h"
    and "\<And>v. vType v = PrecommitType \<Longrightarrow> vDataHash v = h \<Longrightarrow> vTimestamp v = now \<Longrightarrow> marshals T chainID v"
  shows "\<exists>vs c. MakeCommit_signed T h (NewVoteSet chainID PrecommitType s) (map (mock T K) pvs) now =
      Return (vs, Inr c) \<and> cmDataHash c = h \<and>
    VerifyCommit T chainID (Hash h) c s = Return (cached s, None)"
  using mocks_signers [OF assms(1,2)] assms(3-) by (rule working.signed_commit_verifies)

theorem MakeCommit_signed_verifies_witness:
  "\<exists>vs c. MakeCommit_signed sample_tm \<lparr>Hash = [7]\<rparr> sample_start [sample_priv [2], sample_priv [1]] 5 =
      Return (vs, Inr c) \<and>
    VerifyCommit sample_tm [9] [7] c sample_set = Return (cached sample_set, None)"
proof -
  have "keys_work sample_tm sample_keys"
    using sample_keys_sound by (simp add: keys_work_def) (simp add: sample_keys_def)
  moreover have "mocks_of sample_tm sample_keys [NewMockPV [2], NewMockPV [1]] (Proposers sample_set)"
    by (auto simp: mocks_of_def sample_set_def sample_tm_def sample_keys_def NewMockPV_def less_Suc_eq)
  moreover have "length (Proposers sample_set) < 2 ^ 31" "0 < power_sum (Proposers sample_set)"
    "IsComplete sample_tm \<lparr>Hash = [7]\<rparr>" by (simp_all add: sample_set_def sample_simps)
  moreover have "marshals sample_tm [9] v"
    if "vType v = PrecommitType" "vDataHash v = \<lparr>Hash = [7]\<rparr>" "vTimestamp v = 5" for v
    using that by (simp add: sample_simps)
  ultimately show ?thesis
    using MakeCommit_signed_verifies [of sample_tm sample_keys "[NewMockPV [2], NewMockPV [1]]" sample_set
        "\<lparr>Hash = [7]\<rparr>" 5 "[9]"] sample_set_votable by auto
qed

end
