(* ===== verification/Con_Random.thy ===== *)
theory Con_Random
  imports Con_SetHistory Con_TestUtil
begin

text \<open>
  \<open>RandValidator\<close> of \<^verbatim>\<open>src/concord/proposer.go\<close> and \<open>RandValidatorSet\<close> of \<^verbatim>\<open>proposer_set.go\<close>: a set
  of validators with fresh keys and their mock private validators. The keys that
  \<open>ed25519.GenPrivKey()\<close> returns and the number of \<open>tmrand.Uint32()\<close> are arguments.
\<close>

definition RandValidator :: "'pk tm \<Rightarrow> ('sk, 'pk) PrivKeys \<Rightarrow> 'sk \<Rightarrow> int \<Rightarrow> bool \<Rightarrow> int \<Rightarrow>
    ('pk Proposer \<times> 'pk PrivProposer) outcome" where
  "RandValidator T K key rand32 randPower minPower =
     (let privVal = NewMockPV key;
          votePower = (if randPower then i64_add minPower rand32 else minPower)
      in case MockPV_GetPubKey K privVal of
           None \<Rightarrow> Panic PanicPubKey
         | Some pubKey \<Rightarrow> Return (NewValidator T pubKey votePower, mock T K privVal))"

text \<open>The number of validators is that of the keys.\<close>

definition RandValidatorSet :: "'pk tm \<Rightarrow> ('sk, 'pk) PrivKeys \<Rightarrow> 'sk list \<Rightarrow> int \<Rightarrow>
    ('pk ProposerSet \<times> 'pk PrivProposer list) outcome" where
  "RandValidatorSet T K keys votingPower =
     obind (omap (\<lambda>key. RandValidator T K key 0 False votingPower) keys) (\<lambda>pairs.
     obind (sort_checked (PrivValidatorsByAddress T) (map snd pairs)) (\<lambda>privValidators.
     obind (NewValidatorSet (map fst pairs)) (\<lambda>s.
       Return (s, privValidators))))"

section \<open>The validators and their keys\<close>

definition key_address :: "'pk tm \<Rightarrow> ('sk, 'pk) PrivKeys \<Rightarrow> 'sk \<Rightarrow> bytes" where
  "key_address T K key = PubKey_Address T (PrivKey_PubKey K key)"

abbreviation key_validator :: "'pk tm \<Rightarrow> ('sk, 'pk) PrivKeys \<Rightarrow> int \<Rightarrow> 'sk \<Rightarrow> 'pk Proposer" where
  "key_validator T K p key \<equiv> NewValidator T (PrivKey_PubKey K key) p"

interpretation by_key: go_key "\<lambda>x y. key_address T K x < key_address T K y" "key_address T K" for T K
  by (rule go_keyI) simp

definition sorted_keys :: "'pk tm \<Rightarrow> ('sk, 'pk) PrivKeys \<Rightarrow> 'sk list \<Rightarrow> 'sk list" where
  "sorted_keys T K keys = sort_Sort (\<lambda>x y. key_address T K x < key_address T K y) keys"

lemma key_validator_fields [simp]:
  "Address (key_validator T K p key) = key_address T K key"
  "PubKey (key_validator T K p key) = Some (PrivKey_PubKey K key)"
  "VotingPower (key_validator T K p key) = p"
  by (simp_all add: NewValidator_def key_address_def)

lemma RandValidator_eq [simp]:
  "RandValidator T K key rand32 False p = Return (key_validator T K p key, mock T K (NewMockPV key))"
  by (simp add: RandValidator_def MockPV_GetPubKey_def NewMockPV_def Let_def)

lemma sorted_mocks:
  "sort_checked (PrivValidatorsByAddress T) (map (\<lambda>key. mock T K (NewMockPV key)) keys) =
     Return (map (\<lambda>key. mock T K (NewMockPV key)) (sorted_keys T K keys))"
proof -
  let ?adr = "\<lambda>p. PubKey_Address T (the (GetPubKey p))"
  have "sort_checked (PrivValidatorsByAddress T) (map (\<lambda>key. mock T K (NewMockPV key)) keys) =
      Return (sort_Sort (\<lambda>p q. ?adr p < ?adr q) (map (\<lambda>key. mock T K (NewMockPV key)) keys))"
    by (rule sort_checked_Return)
      (auto simp: PrivValidatorsByAddress_def mock_def MockPV_GetPubKey_def)
  also have "sort_Sort (\<lambda>p q. ?adr p < ?adr q) (map (\<lambda>key. mock T K (NewMockPV key)) keys) =
      map (\<lambda>key. mock T K (NewMockPV key)) (sorted_keys T K keys)"
    by (simp add: sort_Sort_map sorted_keys_def key_address_def mock_def MockPV_GetPubKey_def NewMockPV_def)
  finally show ?thesis .
qed

lemma RandValidatorSet_eq:
  "RandValidatorSet T K keys p =
     obind (NewValidatorSet (map (key_validator T K p) keys)) (\<lambda>s.
       Return (s, map (\<lambda>key. mock T K (NewMockPV key)) (sorted_keys T K keys)))"
proof -
  have "omap (\<lambda>key. RandValidator T K key 0 False p) keys =
      Return (map (\<lambda>key. (key_validator T K p key, mock T K (NewMockPV key))) keys)"
    by (rule omap_Return) simp
  then show ?thesis by (simp add: RandValidatorSet_def comp_def sorted_mocks)
qed

lemma power_sum_equal: "power_sum (map (key_validator T K p) keys) = int (length keys) * p"
  by (induction keys) (simp_all add: algebra_simps)

definition good_keys :: "'pk tm \<Rightarrow> ('sk, 'pk) PrivKeys \<Rightarrow> 'sk list \<Rightarrow> int \<Rightarrow> bool" where
  "good_keys T K keys p \<longleftrightarrow> distinct ([] # map (key_address T K) keys) \<and> 0 < p \<and>
     int (length keys) * p \<le> MaxTotalVotingPower"

lemma acceptable_keys:
  assumes "keys \<noteq> []"
  shows "acceptable False [] (map (key_validator T K p) keys) \<longleftrightarrow> good_keys T K keys p"
proof -
  have "p \<le> MaxTotalVotingPower" if "0 < p" "int (length keys) * p \<le> MaxTotalVotingPower"
  proof -
    have "1 * p \<le> int (length keys) * p" using that(1) assms by (intro mult_right_mono) (cases keys; simp)+
    then show ?thesis using that(2) by simp
  qed
  moreover have "stake_sum [] (map (key_validator T K p) keys) = 0"
    by (induction keys) (simp_all add: power_of_def)
  moreover have "map (\<lambda>key. Address (key_validator T K p key)) keys = map (key_address T K) keys"
    by (rule map_cong) simp_all
  ultimately show ?thesis
    using assms power_sum_equal [of T K p keys]
    by (auto simp: acceptable_def changes_ok_def good_keys_def comp_def)
qed

text \<open>With keys whose addresses coincide or are empty, or a power that does not suit, the set
  cannot be made.\<close>

lemma RandValidatorSet_rejects:
  assumes "keys \<noteq> []" and "\<not> good_keys T K keys p"
  shows "RandValidatorSet T K keys p = Panic PanicCreateSet"
proof -
  have "\<not> acceptable False (Proposers empty_ProposerSet) (map (key_validator T K p) keys)"
    using assms(2) acceptable_keys [OF assms(1), of T K p] by (simp add: empty_ProposerSet_def)
  from updateWithChangeSet_rejects [OF steady_wf [OF steady_empty] _ this] assms(1)
  obtain s' err where
    "updateWithChangeSet (map (key_validator T K p) keys) False empty_ProposerSet = Return (s', Some err)"
    by auto
  then show ?thesis by (simp add: RandValidatorSet_eq NewValidatorSet_def)
qed

text \<open>All powers are equal, so the set is sorted by address, as the private validators are.\<close>

lemma random_stakes:
  assumes dist: "distinct (map (key_address T K) keys)" and p: "0 < p"
  shows "stakes_change Map.empty (map (key_validator T K p) keys) a = Some (pk, q) \<longleftrightarrow>
    q = p \<and> (\<exists>key \<in> set keys. key_address T K key = a \<and> Some (PrivKey_PubKey K key) = pk)"
proof -
  let ?valz = "map (key_validator T K p) keys"
  have vdist: "distinct (map Address ?valz)" using dist by (simp add: comp_def)
  have of_valz: "stakes ?valz a = Some (pk, q) \<longleftrightarrow>
      q = p \<and> (\<exists>key \<in> set keys. key_address T K key = a \<and> Some (PrivKey_PubKey K key) = pk)" for pk q
    unfolding stakes_Some [OF vdist] by auto
  have "stakes ?valz a \<noteq> Some (pk, 0)" for pk using of_valz [of pk 0] p by simp
  then have "stakes_change Map.empty ?valz a = stakes ?valz a"
    by (cases "stakes ?valz a") (auto simp: stakes_change_def split: prod.split)
  then show ?thesis using of_valz by simp
qed

text \<open>Validators made from keys, in the order of the keys' addresses, line up with the keys.\<close>

lemma random_aligned:
  assumes dist: "distinct (map (key_address T K) keys)"
    and adr: "map Address vs = map (key_address T K) (sorted_keys T K keys)"
    and member: "\<And>v. v \<in> set vs \<Longrightarrow> \<exists>key \<in> set keys. key_address T K key = Address v \<and>
      Some (PrivKey_PubKey K key) = PubKey v \<and> VotingPower v = p"
  shows "map PubKey vs = map (\<lambda>key. Some (PrivKey_PubKey K key)) (sorted_keys T K keys)"
    and "map VotingPower vs = map (\<lambda>key. p) (sorted_keys T K keys)"
proof -
  let ?sorted = "sorted_keys T K keys"
  have len: "length vs = length ?sorted" using adr by (metis length_map)
  have "PubKey (vs ! i) = Some (PrivKey_PubKey K (?sorted ! i)) \<and> VotingPower (vs ! i) = p"
    if i: "i < length ?sorted" for i
  proof -
    have "vs ! i \<in> set vs" using i len by simp
    from member [OF this] obtain key where key: "key \<in> set keys" "key_address T K key = Address (vs ! i)"
      "Some (PrivKey_PubKey K key) = PubKey (vs ! i)" "VotingPower (vs ! i) = p" by blast
    have "key_address T K key = key_address T K (?sorted ! i)" using key(2) adr i len by (metis nth_map)
    moreover have "?sorted ! i \<in> set keys" using nth_mem [OF i] by (simp add: sorted_keys_def)
    ultimately have "key = ?sorted ! i" using dist key(1) by (metis distinct_map inj_onD)
    then show ?thesis using key by simp
  qed
  then show "map PubKey vs = map (\<lambda>key. Some (PrivKey_PubKey K key)) ?sorted"
    "map VotingPower vs = map (\<lambda>key. p) ?sorted"
    using len by (simp_all add: list_eq_iff_nth_eq)
qed

lemma random_members:
  assumes "keys \<noteq> []" and "good_keys T K keys p"
  obtains s where "NewValidatorSet (map (key_validator T K p) keys) = Return s" "wf_set s"
    "map Address (Proposers s) = map (key_address T K) (sorted_keys T K keys)"
    "map PubKey (Proposers s) = map (\<lambda>key. Some (PrivKey_PubKey K key)) (sorted_keys T K keys)"
    "map VotingPower (Proposers s) = map (\<lambda>key. p) (sorted_keys T K keys)"
proof -
  let ?valz = "map (key_validator T K p) keys" and ?sorted = "sorted_keys T K keys"
  let ?adr = "key_address T K"
  have acc: "acceptable False [] ?valz" using acceptable_keys assms(1,2) by blast
  have dist: "distinct (map ?adr keys)" using assms(2) by (simp add: good_keys_def)
  from NewValidatorSet_returns [OF acc] assms(1) obtain s where
    s: "NewValidatorSet ?valz = Return s" "wf_set s" and
    st: "stakes (Proposers s) = stakes_change Map.empty ?valz" and
    by_power: "by_power.sorted_by (Proposers s)" by (auto simp: sound_def)
  have sdist: "distinct (map Address (Proposers s))" by (rule wf_setD(1) [OF s(2)])
  have "0 < p" using assms(2) by (simp add: good_keys_def)
  note stakes = random_stakes [OF dist this, folded st]
  have member: "\<exists>key \<in> set keys. ?adr key = Address v \<and> Some (PrivKey_PubKey K key) = PubKey v \<and>
      VotingPower v = p" if "v \<in> set (Proposers s)" for v
  proof -
    have "stakes (Proposers s) (Address v) = Some (PubKey v, VotingPower v)"
      using that stakes_Some [OF sdist] by blast
    then show ?thesis using stakes by blast
  qed
  have "set (map Address (Proposers s)) = set (map ?adr ?sorted)"
  proof -
    have "?adr key \<in> Address ` set (Proposers s)" if "key \<in> set keys" for key
    proof -
      have "stakes (Proposers s) (?adr key) = Some (Some (PrivKey_PubKey K key), p)"
        using that stakes by blast
      then show ?thesis unfolding stakes_Some [OF sdist] by (metis imageI)
    qed
    then show ?thesis using member by (force simp: sorted_keys_def)
  qed
  moreover have "sorted (map Address (Proposers s))"
    using by_power member
    by (auto simp: by_power.sorted_by_def ValidatorsByVotingPower_def sorted_wrt_map not_less
        intro: sorted_wrt_mono_rel [rotated] split: if_splits)
  moreover have "sorted (map ?adr ?sorted)"
    by (simp add: by_key.sort_Sort_key sorted_keys_def)
  moreover have "distinct (map ?adr ?sorted)" using dist by (simp add: sorted_keys_def)
  ultimately have adr: "map Address (Proposers s) = map ?adr ?sorted"
    using sdist by (intro sorted_distinct_set_unique) auto
  show ?thesis using s adr random_aligned [OF dist adr member] that by blast
qed

lemma random_mocks:
  assumes "map Address (Proposers s) = map (key_address T K) keys"
    and "map PubKey (Proposers s) = map (\<lambda>key. Some (PrivKey_PubKey K key)) keys"
    and "[] \<notin> key_address T K ` set keys"
  shows "mocks_of T K (map NewMockPV keys) (Proposers s)"
proof -
  have len: "length (Proposers s) = length keys" using assms(1) by (rule map_eq_imp_length_eq)
  have "Address (Proposers s ! i) = key_address T K (keys ! i) \<and>
      PubKey (Proposers s ! i) = Some (PrivKey_PubKey K (keys ! i)) \<and> key_address T K (keys ! i) \<noteq> []"
    if "i < length keys" for i
    using that assms len by (metis image_eqI nth_map nth_mem)
  then show ?thesis using len by (auto simp: mocks_of_def NewMockPV_def key_address_def)
qed

section \<open>Property\<close>

text \<open>C34: a random validator set is fit to run with. When the fresh keys have different and
  non-empty addresses, the equal powers are positive and their total is at most
  \<open>MaxTotalVotingPower\<close>, the set is made, its validators and the returned private validators come
  in the same order, and if all of these sign a complete hash the commit is made and passes
  \<open>VerifyCommit\<close>. For no validators at all the set is empty. In every other case
  \<open>RandValidatorSet\<close> panics. The number of validators is below \<open>2 ^ 31\<close>, as their indices are.\<close>

theorem RandValidatorSet_commits:
  assumes "keys_work T K" and "length keys < 2 ^ 31" and "IsComplete T h"
    and "\<forall>v. vType v = PrecommitType \<and> vDataHash v = h \<and> vTimestamp v = now \<longrightarrow> marshals T chainID v"
  shows "if keys = [] then RandValidatorSet T K keys p = Return (empty_ProposerSet, [])
    else if good_keys T K keys p
    then \<exists>s privs vs c. RandValidatorSet T K keys p = Return (s, privs) \<and>
      map GetPubKey privs = map PubKey (Proposers s) \<and> length privs = length keys \<and>
      MakeCommit_signed T h (NewVoteSet chainID PrecommitType s) privs now = Return (vs, Inr c) \<and>
      cmDataHash c = h \<and> VerifyCommit T chainID (Hash h) c s = Return (cached s, None)
    else RandValidatorSet T K keys p = Panic PanicCreateSet"
proof (cases "keys \<noteq> [] \<and> good_keys T K keys p")
  case True
  then have ne: "keys \<noteq> []" and good: "good_keys T K keys p" by simp_all
  let ?keys = "sorted_keys T K keys" and ?valz = "map (key_validator T K p) keys"
  let ?privs = "map (mock T K) (map NewMockPV ?keys)"
  have p: "0 < p" using good by (simp add: good_keys_def)
  obtain s where s: "NewValidatorSet ?valz = Return s" "wf_set s"
    "map Address (Proposers s) = map (key_address T K) ?keys"
    "map PubKey (Proposers s) = map (\<lambda>key. Some (PrivKey_PubKey K key)) ?keys"
    "map VotingPower (Proposers s) = map (\<lambda>key. p) ?keys"
    using random_members [OF ne good] .
  have mocks: "mocks_of T K (map NewMockPV ?keys) (Proposers s)"
    using good by (intro random_mocks s(3,4)) (simp add: good_keys_def sorted_keys_def)
  have len: "length (Proposers s) = length keys" "length ?keys = length keys"
    using map_eq_imp_length_eq [OF s(3)] by (simp_all add: sorted_keys_def)
  have "votable s" using wf_setD(2,3) [OF s(2)] by (simp add: votable_def)
  moreover have "0 < power_sum (Proposers s)"
    using s(5) p ne len by (simp add: map_replicate_const sum_list_replicate)
  moreover have "length (Proposers s) < 2 ^ 31" using assms(2) len by simp
  ultimately obtain vs c where
    "MakeCommit_signed T h (NewVoteSet chainID PrecommitType s) ?privs now = Return (vs, Inr c)"
    "cmDataHash c = h" "VerifyCommit T chainID (Hash h) c s = Return (cached s, None)"
    using working.signed_commit_verifies [OF mocks_signers [OF assms(1) mocks] _ _ _ assms(3), where chainID = chainID and now = now]
      assms(4) by blast
  moreover have "RandValidatorSet T K keys p = Return (s, ?privs)"
    by (simp add: RandValidatorSet_eq s(1) comp_def)
  moreover have "map GetPubKey ?privs = map PubKey (Proposers s)"
    using s(4) by (simp add: mock_def MockPV_GetPubKey_def NewMockPV_def)
  moreover have "length ?privs = length keys" using len by simp
  ultimately show ?thesis using ne good by auto
next
  case False
  have "RandValidatorSet T K [] p = Return (empty_ProposerSet, [])"
    by (simp add: RandValidatorSet_eq NewValidatorSet_def updateWithChangeSet_def sorted_keys_def sort_Sort_def)
  then show ?thesis using False RandValidatorSet_rejects [of keys T K p] by auto
qed

theorem RandValidatorSet_commits_witness:
  "(\<exists>s privs vs c. RandValidatorSet sample_tm sample_keys [[2], [3], [1]] 5 = Return (s, privs) \<and>
      map PubKey (Proposers s) = map GetPubKey privs \<and>
      MakeCommit_signed sample_tm \<lparr>Hash = [7]\<rparr> (NewVoteSet [9] PrecommitType s) privs 5 = Return (vs, Inr c) \<and>
      VerifyCommit sample_tm [9] [7] c s = Return (cached s, None)) \<and>
    RandValidatorSet sample_tm sample_keys [[2], [2]] 5 = Panic PanicCreateSet"
proof -
  have K: "keys_work sample_tm sample_keys"
    using sample_keys_sound by (simp add: keys_work_def) (simp add: sample_keys_def)
  have h: "IsComplete sample_tm \<lparr>Hash = [7]\<rparr>" by (simp add: sample_simps)
  have m: "\<forall>v. vType v = PrecommitType \<and> vDataHash v = \<lparr>Hash = [7]\<rparr> \<and> vTimestamp v = 5 \<longrightarrow>
      marshals sample_tm [9] v" by (simp add: sample_simps)
  let ?keys = "[[2], [3], [1]] :: bytes list" and ?twice = "[[2], [2]] :: bytes list"
  have good: "good_keys sample_tm sample_keys ?keys 5" and bad: "\<not> good_keys sample_tm sample_keys ?twice 5"
    by (simp_all add: good_keys_def key_address_def sample_tm_def sample_keys_def MaxTotalVotingPower_eq)
  have len: "length ?keys < 2 ^ 31" "length ?twice < 2 ^ 31" and ne: "?keys \<noteq> []" "?twice \<noteq> []" by simp_all
  from RandValidatorSet_commits [OF K len(1) h m, of 5, unfolded if_not_P [OF ne(1)] if_P [OF good]]
  obtain s privs vs c where
    "RandValidatorSet sample_tm sample_keys ?keys 5 = Return (s, privs)"
    "map GetPubKey privs = map PubKey (Proposers s)"
    "MakeCommit_signed sample_tm \<lparr>Hash = [7]\<rparr> (NewVoteSet [9] PrecommitType s) privs 5 = Return (vs, Inr c)"
    "VerifyCommit sample_tm [9] (Hash \<lparr>Hash = [7]\<rparr>) c s = Return (cached s, None)" by blast
  moreover from RandValidatorSet_commits [OF K len(2) h m, of 5, unfolded if_not_P [OF ne(2)] if_not_P [OF bad]]
  have "RandValidatorSet sample_tm sample_keys ?twice 5 = Panic PanicCreateSet" .
  ultimately show ?thesis unfolding DataHash.select_convs by metis
qed

end
