(* ===== verification/Go_Fmt.thy ===== *)
theory Go_Fmt
  imports Prelude
begin

text \<open>
  Decimal integers as \<open>%v\<close> and \<open>%d\<close> print them, for the messages the program formats from
  integers. Strings are lists of characters.
\<close>

definition digit :: "nat \<Rightarrow> char" where
  "digit n = char_of (48 + n mod 10)"

fun go_nat :: "nat \<Rightarrow> string" where
  "go_nat n = (if n < 10 then [digit n] else go_nat (n div 10) @ [digit n])"

declare go_nat.simps [simp del]

definition go_int :: "int \<Rightarrow> string" where
  "go_int i = (if i < 0 then ''-'' @ go_nat (nat (- i)) else go_nat (nat i))"

definition go_bool :: "bool \<Rightarrow> string" where
  "go_bool b = (if b then ''true'' else ''false'')"

text \<open>Reading the digits back, so that printing loses nothing.\<close>

definition digit_value :: "char \<Rightarrow> nat" where
  "digit_value c = of_char c - 48"

definition nat_value :: "string \<Rightarrow> nat" where
  "nat_value = foldl (\<lambda>acc c. acc * 10 + digit_value c) 0"

lemma digit_value_digit [simp]: "digit_value (digit n) = n mod 10"
  by (simp add: digit_value_def digit_def)

lemma nat_value_go_nat [simp]: "nat_value (go_nat n) = n"
proof (induction n rule: go_nat.induct)
  case (1 n)
  show ?case
  proof (cases "n < 10")
    case True
    then show ?thesis by (simp add: go_nat.simps [of n] nat_value_def)
  next
    case False
    then have "nat_value (go_nat (n div 10)) = n div 10" using 1 by simp
    then show ?thesis using False by (simp add: go_nat.simps [of n] nat_value_def)
  qed
qed

lemma go_nat_inj [simp]: "go_nat m = go_nat n \<longleftrightarrow> m = n"
  by (metis nat_value_go_nat)

lemma go_nat_digits: "c \<in> set (go_nat n) \<Longrightarrow> of_char c \<in> {48..57 :: nat}"
proof (induction n rule: go_nat.induct)
  case (1 n)
  then show ?case by (cases "n < 10") (auto simp: go_nat.simps [of n] digit_def)
qed

lemma go_nat_no_minus: "go_nat n \<noteq> CHR ''-'' # s"
proof
  assume "go_nat n = CHR ''-'' # s"
  then have "CHR ''-'' \<in> set (go_nat n)" by simp
  from go_nat_digits [OF this] show False by simp
qed

lemma go_int_inj [simp]: "go_int i = go_int j \<longleftrightarrow> i = j"
  using go_nat_no_minus by (auto simp: go_int_def) (metis go_nat_no_minus)+

end
