(* ===== verification/Con_Msgs.thy ===== *)
theory Con_Msgs
  imports Con_Vote Con_Commit Con_Proposal Go_Fmt
begin

text \<open>
  \<^verbatim>\<open>src/concord/msgs.go\<close>, \<^verbatim>\<open>msgs_serde.go\<close> and the step type of \<^verbatim>\<open>round_state.go\<close>: the messages
  of the consensus, their validation and their protobuf form. Pointers inside a message may
  be nil, and validating such a message panics. The size of a bit array is third-party code
  (\<open>sizeOf\<close>, defined on nil too).
\<close>

section \<open>Steps of a round\<close>

type_synonym RoundStepType = "8 word"

definition RoundStepNewHeight :: RoundStepType where "RoundStepNewHeight = 0x01"
definition RoundStepNewRound :: RoundStepType where "RoundStepNewRound = 0x02"
definition RoundStepPropose :: RoundStepType where "RoundStepPropose = 0x03"
definition RoundStepPrevote :: RoundStepType where "RoundStepPrevote = 0x04"
definition RoundStepPrevoteWait :: RoundStepType where "RoundStepPrevoteWait = 0x05"
definition RoundStepPrecommit :: RoundStepType where "RoundStepPrecommit = 0x06"
definition RoundStepPrecommitWait :: RoundStepType where "RoundStepPrecommitWait = 0x07"
definition RoundStepCommit :: RoundStepType where "RoundStepCommit = 0x08"

lemmas step_defs = RoundStepNewHeight_def RoundStepNewRound_def RoundStepPropose_def
  RoundStepPrevote_def RoundStepPrevoteWait_def RoundStepPrecommit_def RoundStepPrecommitWait_def
  RoundStepCommit_def

definition RoundStep_IsValid :: "RoundStepType \<Rightarrow> bool" where
  "RoundStep_IsValid rs \<longleftrightarrow> rs \<ge> 0x01 \<and> rs \<le> 0x08"

definition RoundStep_String :: "RoundStepType \<Rightarrow> string" where
  "RoundStep_String rs =
     (if rs = RoundStepNewHeight then ''RoundStepNewHeight''
      else if rs = RoundStepNewRound then ''RoundStepNewRound''
      else if rs = RoundStepPropose then ''RoundStepPropose''
      else if rs = RoundStepPrevote then ''RoundStepPrevote''
      else if rs = RoundStepPrevoteWait then ''RoundStepPrevoteWait''
      else if rs = RoundStepPrecommit then ''RoundStepPrecommit''
      else if rs = RoundStepPrecommitWait then ''RoundStepPrecommitWait''
      else if rs = RoundStepCommit then ''RoundStepCommit''
      else ''RoundStepUnknown'')"

section \<open>Messages\<close>

definition MaxVotesCount :: int where
  "MaxVotesCount = 10000"

record NewRoundStepMessage =
  nrsHeight :: int
  nrsRound :: int
  nrsStep :: RoundStepType
  nrsSecondsSinceStartTime :: int
  nrsLastCommitRound :: int

record NewValidBlockMessage =
  nvbHeight :: int
  nvbRound :: int
  nvbIsCommit :: bool

record ProposalMessage =
  pmProposal :: "Proposal option"

record ProposalPOLMessage =
  polHeight :: int
  polProposalPOLRound :: int
  polProposalPOL :: "BitArray option"

record VoteMessage =
  vmVote :: "Vote option"

record HasVoteMessage =
  hvHeight :: int
  hvRound :: int
  hvType :: SignedMsgType
  hvIndex :: int

record VoteSetMaj23Message =
  vsmHeight :: int
  vsmRound :: int
  vsmType :: SignedMsgType
  vsmDataHash :: DataHash

record VoteSetBitsMessage =
  vsbHeight :: int
  vsbRound :: int
  vsbType :: SignedMsgType
  vsbDataHash :: DataHash
  vsbVotes :: "BitArray option"

datatype msg_error =
    NegativeHeight | NegativeMsgRound | InvalidStep | InvalidLastCommitRound
  | NegativeProposalPOLRound | EmptyProposalPOL | ProposalPOLTooBig int | InvalidMsgType
  | NegativeIndex | WrongMsgDataHash hash_error | VotesTooBig int
  | MsgProposalError proposal_error | MsgVoteError vote_basic_error

definition NewRoundStepMessage_ValidateBasic :: "NewRoundStepMessage \<Rightarrow> msg_error option" where
  "NewRoundStepMessage_ValidateBasic m =
     (if nrsHeight m < 0 then Some NegativeHeight
      else if nrsRound m < 0 then Some NegativeMsgRound
      else if \<not> RoundStep_IsValid (nrsStep m) then Some InvalidStep
      else if nrsLastCommitRound m < -1 then Some InvalidLastCommitRound
      else None)"

datatype height_error =
    HeightTooLow int int | MustBeMinusOne int int | NegativeOnlyInitially int

definition ValidateHeight :: "NewRoundStepMessage \<Rightarrow> int \<Rightarrow> height_error option" where
  "ValidateHeight m initialHeight =
     (if nrsHeight m < initialHeight then Some (HeightTooLow (nrsHeight m) initialHeight)
      else if nrsHeight m = initialHeight \<and> nrsLastCommitRound m \<noteq> -1
      then Some (MustBeMinusOne (nrsLastCommitRound m) initialHeight)
      else if nrsHeight m > initialHeight \<and> nrsLastCommitRound m < 0
      then Some (NegativeOnlyInitially initialHeight)
      else None)"

definition NewRoundStepMessage_String :: "NewRoundStepMessage \<Rightarrow> string" where
  "NewRoundStepMessage_String m =
     ''[NewRoundStep H:'' @ go_int (nrsHeight m) @ '' R:'' @ go_int (nrsRound m) @ '' S:'' @
     RoundStep_String (nrsStep m) @ '' LCR:'' @ go_int (nrsLastCommitRound m) @ '']''"

definition NewValidBlockMessage_ValidateBasic :: "NewValidBlockMessage \<Rightarrow> msg_error option" where
  "NewValidBlockMessage_ValidateBasic m =
     (if nvbHeight m < 0 then Some NegativeHeight
      else if nvbRound m < 0 then Some NegativeMsgRound
      else None)"

definition NewValidBlockMessage_String :: "NewValidBlockMessage \<Rightarrow> string" where
  "NewValidBlockMessage_String m =
     ''[ValidBlockMessage H:'' @ go_int (nvbHeight m) @ '' R:'' @ go_int (nvbRound m) @ '' IsCommit:'' @
     go_bool (nvbIsCommit m) @ '']''"

definition ProposalMessage_ValidateBasic :: "'pk tm \<Rightarrow> ProposalMessage \<Rightarrow> msg_error option outcome" where
  "ProposalMessage_ValidateBasic T m =
     (case pmProposal m of
        None \<Rightarrow> Panic NilDereference
      | Some p \<Rightarrow> Return (map_option MsgProposalError (Proposal_ValidateBasic T p)))"

definition ProposalPOLMessage_ValidateBasic :: "(BitArray option \<Rightarrow> int) \<Rightarrow> ProposalPOLMessage \<Rightarrow>
    msg_error option" where
  "ProposalPOLMessage_ValidateBasic sizeOf m =
     (if polHeight m < 0 then Some NegativeHeight
      else if polProposalPOLRound m < 0 then Some NegativeProposalPOLRound
      else if sizeOf (polProposalPOL m) = 0 then Some EmptyProposalPOL
      else if sizeOf (polProposalPOL m) > MaxVotesCount
      then Some (ProposalPOLTooBig (sizeOf (polProposalPOL m)))
      else None)"

definition VoteMessage_ValidateBasic :: "'pk tm \<Rightarrow> VoteMessage \<Rightarrow> msg_error option outcome" where
  "VoteMessage_ValidateBasic T m =
     (case vmVote m of
        None \<Rightarrow> Panic NilDereference
      | Some v \<Rightarrow> Return (map_option MsgVoteError (Vote_ValidateBasic T v)))"

definition HasVoteMessage_ValidateBasic :: "HasVoteMessage \<Rightarrow> msg_error option" where
  "HasVoteMessage_ValidateBasic m =
     (if hvHeight m < 0 then Some NegativeHeight
      else if hvRound m < 0 then Some NegativeMsgRound
      else if \<not> IsVoteTypeValid (hvType m) then Some InvalidMsgType
      else if hvIndex m < 0 then Some NegativeIndex
      else None)"

definition VoteSetMaj23Message_ValidateBasic :: "'pk tm \<Rightarrow> VoteSetMaj23Message \<Rightarrow> msg_error option" where
  "VoteSetMaj23Message_ValidateBasic T m =
     (if vsmHeight m < 0 then Some NegativeHeight
      else if vsmRound m < 0 then Some NegativeMsgRound
      else if \<not> IsVoteTypeValid (vsmType m) then Some InvalidMsgType
      else case DataHash_ValidateBasic T (vsmDataHash m) of
        Some err \<Rightarrow> Some (WrongMsgDataHash err)
      | None \<Rightarrow> None)"

definition VoteSetBitsMessage_ValidateBasic :: "'pk tm \<Rightarrow> (BitArray option \<Rightarrow> int) \<Rightarrow> VoteSetBitsMessage \<Rightarrow>
    msg_error option" where
  "VoteSetBitsMessage_ValidateBasic T sizeOf m =
     (if vsbHeight m < 0 then Some NegativeHeight
      else if \<not> IsVoteTypeValid (vsbType m) then Some InvalidMsgType
      else case DataHash_ValidateBasic T (vsbDataHash m) of
        Some err \<Rightarrow> Some (WrongMsgDataHash err)
      | None \<Rightarrow>
          if sizeOf (vsbVotes m) > MaxVotesCount then Some (VotesTooBig (sizeOf (vsbVotes m)))
          else None)"

text \<open>The interface \<open>Message\<close> and its implementations.\<close>

datatype Message =
    IsNewRoundStep NewRoundStepMessage
  | IsNewValidBlock NewValidBlockMessage
  | IsProposal ProposalMessage
  | IsProposalPOL ProposalPOLMessage
  | IsVote VoteMessage
  | IsHasVote HasVoteMessage
  | IsVoteSetMaj23 VoteSetMaj23Message
  | IsVoteSetBits VoteSetBitsMessage

fun Message_ValidateBasic :: "'pk tm \<Rightarrow> (BitArray option \<Rightarrow> int) \<Rightarrow> Message \<Rightarrow> msg_error option outcome"
where
  "Message_ValidateBasic T sizeOf (IsNewRoundStep m) = Return (NewRoundStepMessage_ValidateBasic m)"
| "Message_ValidateBasic T sizeOf (IsNewValidBlock m) = Return (NewValidBlockMessage_ValidateBasic m)"
| "Message_ValidateBasic T sizeOf (IsProposal m) = ProposalMessage_ValidateBasic T m"
| "Message_ValidateBasic T sizeOf (IsProposalPOL m) = Return (ProposalPOLMessage_ValidateBasic sizeOf m)"
| "Message_ValidateBasic T sizeOf (IsVote m) = VoteMessage_ValidateBasic T m"
| "Message_ValidateBasic T sizeOf (IsHasVote m) = Return (HasVoteMessage_ValidateBasic m)"
| "Message_ValidateBasic T sizeOf (IsVoteSetMaj23 m) = Return (VoteSetMaj23Message_ValidateBasic T m)"
| "Message_ValidateBasic T sizeOf (IsVoteSetBits m) =
     Return (VoteSetBitsMessage_ValidateBasic T sizeOf m)"

section \<open>Protobuf form\<close>

text \<open>The oneof \<open>Sum\<close> of \<open>pb.Message\<close>; an unset oneof is nil.\<close>

datatype pb_Sum = Message_Proposal "pb_Proposal option" | Message_Vote "pb_Vote option"

record pb_Message =
  Sum :: "pb_Sum option"

datatype serde_error =
    NilMessage | NotRecognized | ProposalToProto proposal_error | VoteToProto vote_basic_error
  | InvalidMessage msg_error

definition MsgToProto :: "Message option \<Rightarrow> serde_error + pb_Message" where
  "MsgToProto msg =
     (case msg of
        None \<Rightarrow> Inl NilMessage
      | Some (IsProposal m) \<Rightarrow>
          Inr \<lparr>Sum = Some (Message_Proposal (Some (Proposal_ToProto (pmProposal m))))\<rparr>
      | Some (IsVote m) \<Rightarrow> Inr \<lparr>Sum = Some (Message_Vote (Vote_ToProto (vmVote m)))\<rparr>
      | Some _ \<Rightarrow> Inl NotRecognized)"

definition msg_of_sum :: "'pk tm \<Rightarrow> pb_Sum option \<Rightarrow> serde_error + Message" where
  "msg_of_sum T s =
     (case s of
        Some (Message_Proposal pp) \<Rightarrow>
          (case ProposalFromProto T pp of
             Inl err \<Rightarrow> Inl (ProposalToProto err)
           | Inr p \<Rightarrow> Inr (IsProposal \<lparr>pmProposal = Some p\<rparr>))
      | Some (Message_Vote pv) \<Rightarrow>
          (case VoteFromProto T pv of
             Inl err \<Rightarrow> Inl (VoteToProto err)
           | Inr v \<Rightarrow> Inr (IsVote \<lparr>vmVote = Some v\<rparr>))
      | None \<Rightarrow> Inl NotRecognized)"

definition MsgFromProto :: "'pk tm \<Rightarrow> (BitArray option \<Rightarrow> int) \<Rightarrow> pb_Message option \<Rightarrow>
    (serde_error + Message) outcome" where
  "MsgFromProto T sizeOf msg =
     (case msg of
        None \<Rightarrow> Return (Inl NilMessage)
      | Some m \<Rightarrow>
          (case msg_of_sum T (Sum m) of
             Inl err \<Rightarrow> Return (Inl err)
           | Inr pb \<Rightarrow>
               obind (Message_ValidateBasic T sizeOf pb) (\<lambda>err. case err of
                 Some e \<Rightarrow> Return (Inl (InvalidMessage e))
               | None \<Rightarrow> Return (Inr pb))))"

definition MustEncode :: "(pb_Message \<Rightarrow> bytes option) \<Rightarrow> Message option \<Rightarrow> bytes outcome" where
  "MustEncode Marshal msg =
     (case MsgToProto msg of
        Inl err \<Rightarrow> Panic PanicMarshal
      | Inr pb \<Rightarrow> (case Marshal pb of None \<Rightarrow> Panic PanicMarshal | Some enc \<Rightarrow> Return enc))"

section \<open>Facts\<close>

fun norm_sum :: "pb_Sum \<Rightarrow> pb_Sum" where
  "norm_sum (Message_Proposal pp) = Message_Proposal pp"
| "norm_sum (Message_Vote pv) = Message_Vote (map_option (\<lambda>v. v\<lparr>pvHeight := 0, pvRound := 0\<rparr>) pv)"

lemma ProposalFromProto_Some: "ProposalFromProto T pp = Inr p \<Longrightarrow> pp \<noteq> None"
  by (cases pp) (simp_all add: ProposalFromProto_def)

lemma VoteFromProto_Some: "VoteFromProto T pv = Inr v \<Longrightarrow> pv \<noteq> None"
  by (cases pv) (simp_all add: VoteFromProto_def)

text \<open>What decodes, and to what.\<close>

lemma MsgFromProto_Inr:
  "MsgFromProto T sizeOf (Some m) = Return (Inr msg) \<longleftrightarrow>
     (\<exists>pp p. Sum m = Some (Message_Proposal (Some pp)) \<and> ProposalFromProto T (Some pp) = Inr p \<and>
        msg = IsProposal \<lparr>pmProposal = Some p\<rparr>) \<or>
     (\<exists>pv v. Sum m = Some (Message_Vote (Some pv)) \<and> VoteFromProto T (Some pv) = Inr v \<and>
        msg = IsVote \<lparr>vmVote = Some v\<rparr>)"
proof (cases "Sum m")
  case (Some s)
  show ?thesis
  proof (cases s)
    case (Message_Proposal pp)
    show ?thesis
    proof (cases "ProposalFromProto T pp")
      case (Inr p)
      then obtain q where q: "pp = Some q" using ProposalFromProto_Some by blast
      then have "Proposal_ValidateBasic T p = None"
        using Inr proposal_wire.decode_valid [of T q p] by simp
      then show ?thesis
        using Some Message_Proposal Inr q
        by (auto simp: MsgFromProto_def msg_of_sum_def ProposalMessage_ValidateBasic_def)
    qed (use Some Message_Proposal in \<open>auto simp: MsgFromProto_def msg_of_sum_def\<close>)
  next
    case (Message_Vote pv)
    show ?thesis
    proof (cases "VoteFromProto T pv")
      case (Inr v)
      then obtain q where q: "pv = Some q" using VoteFromProto_Some by blast
      then have "Vote_ValidateBasic T v = None"
        using Inr vote_wire.decode_valid [of T q v] by simp
      then show ?thesis
        using Some Message_Vote Inr q
        by (auto simp: MsgFromProto_def msg_of_sum_def VoteMessage_ValidateBasic_def)
    qed (use Some Message_Vote in \<open>auto simp: MsgFromProto_def msg_of_sum_def\<close>)
  qed
qed (simp add: MsgFromProto_def msg_of_sum_def)

lemma MsgFromProto_returns: "\<exists>r. MsgFromProto T sizeOf m = Return r"
proof (cases m)
  case (Some p)
  show ?thesis
  proof (cases "msg_of_sum T (Sum p)")
    case (Inr msg)
    then obtain e where "Message_ValidateBasic T sizeOf msg = Return e"
      by (auto simp: msg_of_sum_def ProposalMessage_ValidateBasic_def VoteMessage_ValidateBasic_def
          split: option.splits pb_Sum.splits sum.splits)
    then show ?thesis using Some Inr by (cases e) (simp_all add: MsgFromProto_def)
  qed (simp add: Some MsgFromProto_def)
qed (simp add: MsgFromProto_def)

section \<open>Properties\<close>

text \<open>C36: consensus messages on the wire. Decoding never panics; a proposal or vote message that
  is valid survives encoding and decoding, other messages are refused by the encoder, and a
  decoded message is valid and encodes to the message it came from, up to the height and
  round of a vote.\<close>

theorem Message_roundtrip:
  "(\<exists>r. MsgFromProto T sizeOf mp = Return r) \<and>
   (\<forall>p. MsgToProto (Some msg) = Inr p \<longrightarrow> Message_ValidateBasic T sizeOf msg = Return None \<longrightarrow>
      MsgFromProto T sizeOf (Some p) = Return (Inr msg)) \<and>
   (\<forall>p. MsgFromProto T sizeOf (Some p) = Return (Inr msg) \<longrightarrow>
      Message_ValidateBasic T sizeOf msg = Return None \<and>
      MsgToProto (Some msg) = Inr (p\<lparr>Sum := map_option norm_sum (Sum p)\<rparr>))"
proof (intro conjI allI impI)
  fix p assume enc: "MsgToProto (Some msg) = Inr p" and ok: "Message_ValidateBasic T sizeOf msg = Return None"
  show "MsgFromProto T sizeOf (Some p) = Return (Inr msg)"
  proof (cases msg)
    case (IsProposal m)
    then obtain q where q: "pmProposal m = Some q" "Proposal_ValidateBasic T q = None"
      using ok by (auto simp: ProposalMessage_ValidateBasic_def split: option.splits)
    then show ?thesis
      using enc IsProposal proposal_wire.decode_encode [OF q(2)]
      by (cases m) (auto simp: MsgToProto_def MsgFromProto_Inr)
  next
    case (IsVote m)
    then obtain v where v: "vmVote m = Some v" "Vote_ValidateBasic T v = None"
      using ok by (auto simp: VoteMessage_ValidateBasic_def split: option.splits)
    obtain pv where pv: "Vote_ToProto (Some v) = Some pv" by (simp add: Vote_ToProto_def)
    then show ?thesis
      using enc IsVote v(1) vote_wire.decode_encode [OF v(2)]
      by (cases m) (auto simp: MsgToProto_def MsgFromProto_Inr)
  qed (use enc in \<open>simp_all add: MsgToProto_def\<close>)
next
  fix p assume dec: "MsgFromProto T sizeOf (Some p) = Return (Inr msg)"
  show "Message_ValidateBasic T sizeOf msg = Return None"
    using dec unfolding MsgFromProto_Inr
    by (auto simp: ProposalMessage_ValidateBasic_def VoteMessage_ValidateBasic_def
        dest: proposal_wire.decode_valid vote_wire.decode_valid)
  show "MsgToProto (Some msg) = Inr (p\<lparr>Sum := map_option norm_sum (Sum p)\<rparr>)"
    using dec unfolding MsgFromProto_Inr
  proof (elim disjE exE conjE)
    fix pp q assume a: "Sum p = Some (Message_Proposal (Some pp))" "ProposalFromProto T (Some pp) = Inr q"
      "msg = IsProposal \<lparr>pmProposal = Some q\<rparr>"
    then show ?thesis using proposal_wire.encode_decode [OF a(2)] by (simp add: MsgToProto_def)
  next
    fix pv v assume a: "Sum p = Some (Message_Vote (Some pv))" "VoteFromProto T (Some pv) = Inr v"
      "msg = IsVote \<lparr>vmVote = Some v\<rparr>"
    obtain w where "Vote_ToProto (Some v) = Some w" by (simp add: Vote_ToProto_def)
    then show ?thesis using a vote_wire.encode_decode [OF a(2)] by (simp add: MsgToProto_def)
  qed
qed (rule MsgFromProto_returns)

theorem Message_roundtrip_witness:
  "\<exists>p. MsgToProto (Some (IsVote \<lparr>vmVote = Some (sample_vote [2] 0 [7])\<rparr>)) = Inr p \<and>
    MsgFromProto sample_tm (\<lambda>_. 0) (Some p) = Return (Inr (IsVote \<lparr>vmVote = Some (sample_vote [2] 0 [7])\<rparr>))"
proof -
  let ?m = "IsVote \<lparr>vmVote = Some (sample_vote [2] 0 [7])\<rparr>"
  have ok: "Message_ValidateBasic sample_tm (\<lambda>_. 0) ?m = Return None"
    by (simp add: VoteMessage_ValidateBasic_def Vote_ValidateBasic_ok sample_vote_def sample_simps
        IsVoteTypeValid_def MaxSignatureSize_def Let_def)
  obtain p where p: "MsgToProto (Some ?m) = Inr p" by (simp add: MsgToProto_def)
  then show ?thesis using Message_roundtrip [of sample_tm "\<lambda>_. 0" _ ?m] ok by blast
qed

text \<open>Which step messages a peer may send: one that passes both checks for an initial height
  has a step of the round state machine, whose name is not that of an unknown step, and the
  round of its last commit is -1 exactly at the initial height and not negative above it;
  all such messages pass.\<close>

theorem NewRoundStep_accepted:
  "NewRoundStepMessage_ValidateBasic m = None \<and> ValidateHeight m initialHeight = None \<longleftrightarrow>
     0 \<le> nrsHeight m \<and> 0 \<le> nrsRound m \<and> RoundStep_String (nrsStep m) \<noteq> ''RoundStepUnknown'' \<and>
     initialHeight \<le> nrsHeight m \<and> -1 \<le> nrsLastCommitRound m \<and>
     (nrsLastCommitRound m = -1 \<longleftrightarrow> nrsHeight m = initialHeight)"
proof -
  have step: "RoundStep_IsValid rs \<longleftrightarrow> rs \<in> {0x01, 0x02, 0x03, 0x04, 0x05, 0x06, 0x07, 0x08}" for rs
  proof -
    have "RoundStep_IsValid rs \<longleftrightarrow> 1 \<le> unat rs \<and> unat rs \<le> 8"
      by (simp add: RoundStep_IsValid_def word_le_nat_alt)
    also have "\<dots> \<longleftrightarrow> unat rs \<in> {1, 2, 3, 4, 5, 6, 7, 8}" by auto
    also have "\<dots> \<longleftrightarrow> rs \<in> {0x01, 0x02, 0x03, 0x04, 0x05, 0x06, 0x07, 0x08}"
      by (simp add: word_unat_eq_iff)
    finally show ?thesis .
  qed
  have "RoundStep_IsValid rs \<longleftrightarrow> RoundStep_String rs \<noteq> ''RoundStepUnknown''" for rs
    unfolding step RoundStep_String_def step_defs by simp
  then show ?thesis
    by (auto simp: NewRoundStepMessage_ValidateBasic_def ValidateHeight_def)
qed

end
