(* ===== verification/Con_Round.thy ===== *)
theory Con_Round
  imports Con_CommitSafety Con_PrivValidator Con_Msgs
begin

text \<open>
  \<^verbatim>\<open>src/concord/round.go\<close> with \<open>encodeMsg\<close> of \<^verbatim>\<open>conciliator.go\<close>: one round of the protocol.

  A blocking call is split at its \<open>select\<close>. The part up to it is one function; the \<open>select\<close>
  is a function of the state that says \<open>Blocks\<close> when no case is ready. \<open>ctxDone\<close> tells
  whether the context is cancelled, and \<open>pick\<close> is the choice Go makes at random when both
  cases are ready. The proposal channel is a list of at most one element. A round keeps what
  it published in \<open>rTopic\<close>; pubsub, marshalling and the current time are parameters.

  The round and its two vote sets share one \<open>*ProposerSet\<close>, of which they only fill in the
  cached total and the cached proposer; in the model each keeps its own.
\<close>

text \<open>The libraries a node talks to. A Boolean is \<open>True\<close> when the call returns no error.\<close>

record net =
  Marshal :: "pb_Message \<Rightarrow> bytes option"
  Unmarshal :: "bytes \<Rightarrow> pb_Message option"
  Publish :: "bytes \<Rightarrow> bool"
  Join :: "bytes \<Rightarrow> bool"
  Subscribe :: "bytes \<Rightarrow> bool"
  RegisterTopicValidator :: "bytes \<Rightarrow> bool"

datatype 'a wait = Ready 'a | Blocks

datatype round_error =
    ErrContext | ErrSigning | ErrMarshalling | ErrUnknownMessage | ErrPublishing
  | ErrProposalSignature | ErrRcvVote vote_error

record 'pk propInfo =
  piSet :: "'pk ProposerSet"
  piSelf :: "'pk PrivProposer"
  piSelfIndex :: int
  piSelfPK :: 'pk

record 'pk round =
  rConcordId :: bytes
  rTopic :: "bytes list"
  rValInfo :: "'pk propInfo"
  rRound :: int
  rPropCh :: "bytes list"
  rVotes :: "SignedMsgType \<rightharpoonup> 'pk VoteSet"

definition newRound :: "int \<Rightarrow> bytes \<Rightarrow> bytes list \<Rightarrow> 'pk propInfo \<Rightarrow> 'pk round" where
  "newRound r concordId topic info =
     \<lparr>rConcordId = concordId, rTopic = topic, rValInfo = info, rRound = wrap32 r, rPropCh = [],
      rVotes =
        [PrevoteType \<mapsto> NewVoteSet concordId PrevoteType (piSet info),
         PrecommitType \<mapsto> NewVoteSet concordId PrecommitType (piSet info)]\<rparr>"

section \<open>Publishing\<close>

datatype proto_Message = ProtoProposal pb_Proposal | ProtoVote pb_Vote | ProtoOther

definition encodeMsg :: "net \<Rightarrow> proto_Message \<Rightarrow> round_error + bytes" where
  "encodeMsg N m =
     (case (case m of
              ProtoProposal t \<Rightarrow> Inr (Message_Proposal (Some t))
            | ProtoVote t \<Rightarrow> Inr (Message_Vote (Some t))
            | ProtoOther \<Rightarrow> Inl ErrUnknownMessage) of
        Inl err \<Rightarrow> Inl err
      | Inr s \<Rightarrow>
          (case Marshal N \<lparr>Sum = Some s\<rparr> of
             None \<Rightarrow> Inl ErrMarshalling
           | Some bz \<Rightarrow> Inr bz))"

definition publish :: "net \<Rightarrow> proto_Message \<Rightarrow> 'pk round \<Rightarrow> 'pk round \<times> round_error option" where
  "publish N message r =
     (case encodeMsg N message of
        Inl err \<Rightarrow> (r, Some err)
      | Inr bin \<Rightarrow>
          if Publish N bin then (r\<lparr>rTopic := rTopic r @ [bin]\<rparr>, None) else (r, Some ErrPublishing))"

section \<open>Proposing\<close>

text \<open>\<open>r.valInfo.set.GetProposer()\<close> on a set that is not empty caches the proposer.\<close>

definition round_proposer :: "'pk round \<Rightarrow> ('pk round \<times> 'pk Proposer) outcome" where
  "round_proposer r =
     obind (GetProposer (piSet (rValInfo r))) (\<lambda>(s, p). case p of
       None \<Rightarrow> Panic NilDereference
     | Some v \<Rightarrow> Return (r\<lparr>rValInfo := (rValInfo r)\<lparr>piSet := s\<rparr>\<rparr>, v))"

definition isProposer :: "'pk tm \<Rightarrow> 'pk round \<Rightarrow> ('pk round \<times> bool) outcome" where
  "isProposer T r =
     obind (round_proposer r) (\<lambda>(r', p).
       Return (r', Address p = PubKey_Address T (piSelfPK (rValInfo r'))))"

definition propose :: "net \<Rightarrow> time \<Rightarrow> bytes \<Rightarrow> 'pk round \<Rightarrow> ('pk round \<times> round_error option) outcome" where
  "propose N now data r =
     (let prop = NewProposal now (rRound r) (rRound r) data;
          pprop = Proposal_ToProto (Some prop)
      in obind (SignProposal (piSelf (rValInfo r)) (rConcordId r) pprop) (\<lambda>signed. case signed of
           None \<Rightarrow> Return (r, Some ErrSigning)
         | Some pprop \<Rightarrow> Return (publish N (ProtoProposal pprop) r)))"

definition Propose_begin :: "'pk tm \<Rightarrow> net \<Rightarrow> time \<Rightarrow> bytes \<Rightarrow> 'pk round \<Rightarrow>
    ('pk round \<times> round_error option) outcome" where
  "Propose_begin T N now data r =
     obind (isProposer T r) (\<lambda>(r, mine).
       if mine then propose N now data r else Return (r, None))"

definition Propose_select :: "bool \<Rightarrow> bool \<Rightarrow> 'pk round \<Rightarrow> ('pk round \<times> (round_error + bytes)) wait" where
  "Propose_select ctxDone pick r =
     (case rPropCh r of
        prop # rest \<Rightarrow>
          if ctxDone \<and> pick then Ready (r, Inl ErrContext)
          else Ready (r\<lparr>rPropCh := rest\<rparr>, Inr prop)
      | [] \<Rightarrow> if ctxDone then Ready (r, Inl ErrContext) else Blocks)"

definition rcvProposal :: "'pk tm \<Rightarrow> bool \<Rightarrow> bool \<Rightarrow> Proposal \<Rightarrow> 'pk round \<Rightarrow>
    ('pk round \<times> round_error option wait) outcome" where
  "rcvProposal T ctxDone pick prop r =
     obind (round_proposer r) (\<lambda>(r, proper).
     obind (ProposalSignBytes T (rConcordId r) (Proposal_ToProto (Some prop))) (\<lambda>bz.
       case PubKey proper of
         None \<Rightarrow> Panic NilDereference
       | Some k \<Rightarrow>
           if \<not> VerifySignature T k bz (prSignature prop)
           then Return (r, Ready (Some ErrProposalSignature))
           else if length (rPropCh r) < 1 \<and> \<not> (ctxDone \<and> pick)
           then Return (r\<lparr>rPropCh := rPropCh r @ [prData prop]\<rparr>, Ready None)
           else if ctxDone then Return (r, Ready (Some ErrContext))
           else Return (r, Blocks)))"

section \<open>Voting\<close>

definition vote :: "'pk tm \<Rightarrow> net \<Rightarrow> time \<Rightarrow> bytes \<Rightarrow> SignedMsgType \<Rightarrow> 'pk round \<Rightarrow>
    ('pk round \<times> round_error option) outcome" where
  "vote T N now hash msgType r =
     obind (NewVote now msgType (rRound r) (piSelfIndex (rValInfo r))
         (PubKey_Address T (piSelfPK (rValInfo r))) (Some \<lparr>Hash = hash\<rparr>)) (\<lambda>v.
       case Vote_ToProto (Some v) of
         None \<Rightarrow> Panic NilDereference
       | Some proto \<Rightarrow>
           obind (SignVote (piSelf (rValInfo r)) (rConcordId r) proto) (\<lambda>signed. case signed of
             None \<Rightarrow> Return (r, Some ErrSigning)
           | Some proto \<Rightarrow> Return (publish N (ProtoVote proto) r)))"

text \<open>\<open>r.votes[voteType].Done()\<close> of a type without a vote set is a nil dereference.\<close>

definition Vote_select :: "bool \<Rightarrow> bool \<Rightarrow> SignedMsgType \<Rightarrow> 'pk round \<Rightarrow>
    (round_error + 'pk VoteSet) wait outcome" where
  "Vote_select ctxDone pick voteType r =
     (case rVotes r voteType of
        None \<Rightarrow> Panic NilDereference
      | Some vs \<Rightarrow>
          Return
            (if vsDone vs \<and> \<not> (ctxDone \<and> pick) then Ready (Inr vs)
             else if ctxDone then Ready (Inl ErrContext)
             else Blocks))"

definition rcvVote :: "'pk tm \<Rightarrow> Vote \<Rightarrow> 'pk round \<Rightarrow> ('pk round \<times> round_error option) outcome" where
  "rcvVote T v r =
     obind (VoteSet_AddVote T (Some v) (rVotes r (vType v))) (\<lambda>(vs, _, err).
       Return (r\<lparr>rVotes := (rVotes r)(vType v \<mapsto> vs)\<rparr>, map_option ErrRcvVote err))"

section \<open>Vote sets without peer claims\<close>

text \<open>A round never records claims of peers, so its vote sets never track a conflicting vote, and
  the majority is signalled as soon as it is recorded.\<close>

definition unclaimed :: "'pk VoteSet \<Rightarrow> bool" where
  "unclaimed vs \<longleftrightarrow> (\<forall>k bv. vsVotesByBlock vs k = Some bv \<longrightarrow> \<not> bvPeerMaj23 bv) \<and>
     (vsMaj23 vs \<noteq> None \<longrightarrow> vsDone vs)"

lemma unclaimed_new: "unclaimed (NewVoteSet chainID t s)"
  by (simp add: unclaimed_def NewVoteSet_def)

lemma record_vote_keeps:
  assumes "record_vote v k p vs = Return (vs1, c)"
  shows "vsVotesByBlock vs1 = vsVotesByBlock vs \<and> vsMaj23 vs1 = vsMaj23 vs \<and> vsDone vs1 = vsDone vs"
proof -
  obtain e where e: "slice_get (vsVotes vs) (vValidatorIndex v) = Return e"
    using assms by (auto simp: record_vote_def Let_def)
  show ?thesis
  proof (cases e)
    case None
    then show ?thesis using assms e by (auto simp: record_vote_def Let_def)
  next
    case (Some w)
    then show ?thesis
      using assms e by (cases "vsMaj23 vs") (auto simp: record_vote_def Let_def split: if_splits)
  qed
qed

lemma track_vote_claims:
  assumes "track_vote v k p bv vs = Return vs'" and "\<not> bvPeerMaj23 bv"
    and "\<forall>k bv. vsVotesByBlock vs k = Some bv \<longrightarrow> \<not> bvPeerMaj23 bv"
  shows "\<forall>k bv. vsVotesByBlock vs' k = Some bv \<longrightarrow> \<not> bvPeerMaj23 bv"
proof -
  obtain bv' valSet total where b: "blockVotes_addVerifiedVote v p bv = Return bv'"
    "vsVotesByBlock vs' = (vsVotesByBlock vs)(k \<mapsto> bv')"
    using assms(1) by (auto simp: track_vote_def Let_def split: if_splits)
  have "bvPeerMaj23 bv' = bvPeerMaj23 bv"
    using b(1) by (auto simp: blockVotes_addVerifiedVote_def Let_def split: option.splits)
  then show ?thesis using b(2) assms(2,3) by auto
qed

lemma addVerifiedVote_claims:
  assumes run: "VoteSet_addVerifiedVote v k p vs = Return (vs', added, conflicting)"
    and no: "\<forall>k bv. vsVotesByBlock vs k = Some bv \<longrightarrow> \<not> bvPeerMaj23 bv"
  shows "(\<forall>k bv. vsVotesByBlock vs' k = Some bv \<longrightarrow> \<not> bvPeerMaj23 bv) \<and>
    (conflicting \<noteq> None \<longrightarrow> \<not> added \<and> vsMaj23 vs' = vsMaj23 vs \<and> vsDone vs' = vsDone vs)"
proof -
  obtain vs1 c where rec: "record_vote v k p vs = Return (vs1, c)"
    using run by (auto simp: VoteSet_addVerifiedVote_def)
  note keep = record_vote_keeps [OF rec]
  have no1: "\<forall>k bv. vsVotesByBlock vs1 k = Some bv \<longrightarrow> \<not> bvPeerMaj23 bv" using no keep by simp
  show ?thesis
  proof (cases "vsVotesByBlock vs1 k")
    case None
    show ?thesis
    proof (cases c)
      case (Some e)
      then show ?thesis using run rec None keep no1 by (auto simp: VoteSet_addVerifiedVote_def)
    next
      case fresh: None
      then have "track_vote v k p (newBlockVotes False (Size (vsValSet vs1))) vs1 = Return vs'" "conflicting = None"
        using run rec None by (auto simp: VoteSet_addVerifiedVote_def)
      moreover have "\<not> bvPeerMaj23 (newBlockVotes False (Size (vsValSet vs1)))"
        by (simp add: newBlockVotes_def)
      ultimately show ?thesis using track_vote_claims [OF _ _ no1] by blast
    qed
  next
    case (Some bv)
    then have nb: "\<not> bvPeerMaj23 bv" using no1 by blast
    show ?thesis
    proof (cases c)
      case (Some e)
      then show ?thesis
        using run rec \<open>vsVotesByBlock vs1 k = Some bv\<close> keep no1 nb by (auto simp: VoteSet_addVerifiedVote_def)
    next
      case None
      then have "track_vote v k p bv vs1 = Return vs'" "conflicting = None"
        using run rec Some by (auto simp: VoteSet_addVerifiedVote_def)
      then show ?thesis using track_vote_claims [OF _ nb no1] by blast
    qed
  qed
qed

lemma AddVote_unclaimed:
  assumes u: "unclaimed vs" and run: "VoteSet_AddVote T (Some v) (Some vs) = Return (vs', added, err)"
  shows "unclaimed vs'"
proof (cases "vs' = vs")
  case True
  then show ?thesis using u by simp
next
  case False
  let ?k = "Key (vDataHash v)"
  obtain p w a c where add: "VoteSet_addVerifiedVote v ?k p vs = Return (w, a, c)"
    and res: "case c of Some e \<Rightarrow> vs' = w
      | None \<Rightarrow> a \<and> vs' = (if vsMaj23 w \<noteq> None then w\<lparr>vsDone := True\<rparr> else w)"
    using run False
    by (auto simp: VoteSet_AddVote_def VoteSet_addVote_def Let_def HasTwoThirdsMajority_def
        split: if_splits option.splits prod.splits)
  have claims: "(\<forall>k bv. vsVotesByBlock w k = Some bv \<longrightarrow> \<not> bvPeerMaj23 bv) \<and>
      (c \<noteq> None \<longrightarrow> \<not> a \<and> vsMaj23 w = vsMaj23 vs \<and> vsDone w = vsDone vs)"
    using addVerifiedVote_claims [OF add] u by (simp add: unclaimed_def)
  show ?thesis
  proof (cases c)
    case (Some e)
    then show ?thesis using claims res u by (simp add: unclaimed_def)
  next
    case None
    then show ?thesis using claims res by (simp add: unclaimed_def)
  qed
qed

section \<open>The invariant of a round\<close>

definition votes_of :: "'pk tm \<Rightarrow> bytes \<Rightarrow> SignedMsgType \<Rightarrow> 'pk ProposerSet \<Rightarrow> 'pk VoteSet \<Rightarrow> bool" where
  "votes_of T chainID t s vs \<longleftrightarrow> vote_history T chainID t s vs \<and> unclaimed vs"

text \<open>The proposer of a set, and what a round leaves alone: only the cached proposer differs, and
  it is the one the set had.\<close>

definition proposer_of :: "'pk ProposerSet \<Rightarrow> 'pk Proposer option outcome" where
  "proposer_of s = obind (GetProposer s) (\<lambda>(s', p). Return p)"

definition same_set :: "'pk ProposerSet \<Rightarrow> 'pk ProposerSet \<Rightarrow> bool" where
  "same_set s s' \<longleftrightarrow> Proposers s' = Proposers s \<and> totalVotingPower s' = totalVotingPower s \<and>
     proposer_of s' = proposer_of s"

text \<open>Data the proposer of a set has signed.\<close>

definition proposed :: "'pk tm \<Rightarrow> bytes \<Rightarrow> 'pk ProposerSet \<Rightarrow> bytes \<Rightarrow> bool" where
  "proposed T chainID s data \<longleftrightarrow>
     (\<exists>v k p bz. proposer_of s = Return (Some v) \<and> PubKey v = Some k \<and> prData p = data \<and>
        ProposalSignBytes T chainID (Proposal_ToProto (Some p)) = Return bz \<and>
        VerifySignature T k bz (prSignature p))"

definition round_inv :: "'pk tm \<Rightarrow> bytes \<Rightarrow> 'pk ProposerSet \<Rightarrow> 'pk round \<Rightarrow> bool" where
  "round_inv T chainID s r \<longleftrightarrow> rConcordId r = chainID \<and> same_set s (piSet (rValInfo r)) \<and>
     length (rPropCh r) \<le> 1 \<and> (\<forall>d \<in> set (rPropCh r). proposed T chainID s d) \<and>
     dom (rVotes r) = {PrevoteType, PrecommitType} \<and>
     (\<forall>t vs. rVotes r t = Some vs \<longrightarrow> votes_of T chainID t s vs)"

lemma newRound_inv:
  "round_inv T chainID (piSet info) (newRound k chainID topic info)"
proof -
  have "votes_of T chainID t (piSet info) (NewVoteSet chainID t (piSet info))" for t
    by (simp add: votes_of_def opened unclaimed_new)
  then show ?thesis
    by (auto simp: round_inv_def newRound_def same_set_def split: if_splits)
qed

text \<open>Reading the proposer again gives the same validator.\<close>

lemma GetProposer_same_set: "GetProposer s = Return (s', p) \<Longrightarrow> same_set s s'"
  using GetProposer_again [of s s' p] by (simp add: same_set_def proposer_of_def)

lemma same_set_trans: "same_set a b \<Longrightarrow> same_set b c \<Longrightarrow> same_set a c"
  by (simp add: same_set_def)

lemma round_proposer_inv:
  assumes "round_inv T chainID s r" and "round_proposer r = Return (r', p)"
  shows "round_inv T chainID s r' \<and> rPropCh r' = rPropCh r \<and> rVotes r' = rVotes r \<and>
    rRound r' = rRound r \<and> rTopic r' = rTopic r \<and> piSelf (rValInfo r') = piSelf (rValInfo r) \<and>
    piSelfPK (rValInfo r') = piSelfPK (rValInfo r) \<and> piSelfIndex (rValInfo r') = piSelfIndex (rValInfo r)"
proof -
  obtain s' where s': "GetProposer (piSet (rValInfo r)) = Return (s', Some p)"
    "r' = r\<lparr>rValInfo := (rValInfo r)\<lparr>piSet := s'\<rparr>\<rparr>"
    using assms(2) by (auto simp: round_proposer_def split: option.splits)
  then show ?thesis
    using assms(1) same_set_trans [OF _ GetProposer_same_set [OF s'(1)]] by (simp add: round_inv_def)
qed

text \<open>Publishing changes the topic only.\<close>

lemma publish_keeps: "fst (publish N m r) = r\<lparr>rTopic := rTopic (fst (publish N m r))\<rparr>"
  by (auto simp: publish_def split: sum.splits)

lemma round_inv_topic: "round_inv T chainID s (r\<lparr>rTopic := tp\<rparr>) = round_inv T chainID s r"
  by (simp add: round_inv_def)

lemma publish_votes: "publish N m r = (r', e) \<Longrightarrow> rVotes r' = rVotes r"
  by (auto simp: publish_def split: sum.splits if_splits)

text \<open>A call of \<open>vote\<close> that returns signed its vote and published it, or changed nothing.\<close>

lemma vote_cases:
  assumes "vote T N now hash t r = Return (r', e)"
  obtains "r' = r"
  | v v' where "vType v = t" "vDataHash v = \<lparr>Hash = hash\<rparr>"
      "SignVote (piSelf (rValInfo r)) (rConcordId r) (vote_pb v) = Return (Some v')"
      "publish N (ProtoVote v') r = (r', e)"
proof -
  obtain v where v: "NewVote now t (rRound r) (piSelfIndex (rValInfo r))
      (PubKey_Address T (piSelfPK (rValInfo r))) (Some \<lparr>Hash = hash\<rparr>) = Return v"
    "vType v = t" "vDataHash v = \<lparr>Hash = hash\<rparr>" by (simp add: NewVote_def)
  obtain pv where pb: "Vote_ToProto (Some v) = Some pv" by (simp add: Vote_ToProto_def)
  obtain signed where signed: "SignVote (piSelf (rValInfo r)) (rConcordId r) pv = Return signed"
    using assms by (auto simp: vote_def v(1) pb)
  show ?thesis
  proof (cases signed)
    case None
    then show ?thesis using that(1) assms by (simp add: vote_def v(1) pb signed)
  next
    case (Some v')
    then show ?thesis using that(2) [OF v(2,3)] assms by (simp add: vote_def v(1) pb signed)
  qed
qed

lemma publish_inv:
  assumes "round_inv T chainID s r" and "publish N m r = (r', e)"
  shows "round_inv T chainID s r'"
proof -
  have "r' = r\<lparr>rTopic := rTopic r'\<rparr>" using publish_keeps [of N m r] assms(2) by simp
  then show ?thesis using assms(1) round_inv_topic by metis
qed

lemma Propose_begin_inv:
  assumes inv: "round_inv T chainID s r" and run: "Propose_begin T N now data r = Return (r', e)"
  shows "round_inv T chainID s r'"
proof -
  obtain r1 p where p: "round_proposer r = Return (r1, p)"
    and rest: "(if Address p = PubKey_Address T (piSelfPK (rValInfo r1)) then propose N now data r1
      else Return (r1, None)) = Return (r', e)"
    using run by (auto simp: Propose_begin_def isProposer_def)
  note inv1 = conjunct1 [OF round_proposer_inv [OF inv p]]
  show ?thesis
    using rest inv1 publish_inv [OF inv1]
    by (auto simp: propose_def Let_def split: if_splits option.splits)
qed

lemma round_inv_propCh:
  "round_inv T chainID s r \<Longrightarrow> length ch \<le> 1 \<Longrightarrow> \<forall>d \<in> set ch. proposed T chainID s d \<Longrightarrow>
    round_inv T chainID s (r\<lparr>rPropCh := ch\<rparr>)"
  by (simp add: round_inv_def)

lemma round_inv_channel:
  "round_inv T chainID s r \<Longrightarrow> length (rPropCh r) \<le> 1 \<and> (\<forall>d \<in> set (rPropCh r). proposed T chainID s d)"
  by (simp add: round_inv_def)

lemma Propose_select_inv:
  assumes "round_inv T chainID s r" and "Propose_select ctxDone pick r = Ready (r', res)"
  shows "round_inv T chainID s r' \<and> (\<forall>d. res = Inr d \<longrightarrow> proposed T chainID s d)"
  using assms round_inv_channel [OF assms(1)] round_inv_propCh [OF assms(1), of "[]"]
  by (cases "rPropCh r") (auto simp: Propose_select_def split: if_splits)

lemma vote_inv_round:
  assumes "round_inv T chainID s r" and "vote T N now hash t r = Return (r', e)"
  shows "round_inv T chainID s r' \<and> rVotes r' = rVotes r"
  using assms(2) by (rule vote_cases) (use assms(1) publish_inv publish_votes in blast)+

lemma proposer_proposed:
  assumes inv: "round_inv T chainID s r" and p: "round_proposer r = Return (r1, v)"
    and "PubKey v = Some k" and "ProposalSignBytes T chainID (Proposal_ToProto (Some p)) = Return bz"
    and "VerifySignature T k bz (prSignature p)"
  shows "proposed T chainID s (prData p)"
proof -
  obtain s' where "GetProposer (piSet (rValInfo r)) = Return (s', Some v)"
    using p by (auto simp: round_proposer_def split: option.splits)
  then have "proposer_of (piSet (rValInfo r)) = Return (Some v)" by (simp add: proposer_of_def)
  then have "proposer_of s = Return (Some v)" using inv by (simp add: round_inv_def same_set_def)
  then show ?thesis using assms(3-5) unfolding proposed_def by blast
qed

lemma rcvProposal_inv:
  assumes inv: "round_inv T chainID s r" and run: "rcvProposal T ctxDone pick prop r = Return (r', res)"
  shows "round_inv T chainID s r'"
proof -
  obtain r1 p where p: "round_proposer r = Return (r1, p)"
    using run by (auto simp: rcvProposal_def)
  note inv1 = conjunct1 [OF round_proposer_inv [OF inv p]]
  have chain: "rConcordId r1 = chainID" using inv1 by (simp add: round_inv_def)
  obtain bz k where b: "ProposalSignBytes T chainID (Proposal_ToProto (Some prop)) = Return bz" "PubKey p = Some k"
    using run p chain by (auto simp: rcvProposal_def split: option.splits)
  then have "r' = r1 \<or> VerifySignature T k bz (prSignature prop) \<and> length (rPropCh r1) < 1 \<and>
      r' = r1\<lparr>rPropCh := rPropCh r1 @ [prData prop]\<rparr>"
    using run p chain by (auto simp: rcvProposal_def split: if_splits)
  then show ?thesis
    using inv1 round_inv_propCh [OF inv1, of "[prData prop]"] proposer_proposed [OF inv p b(2,1)] by auto
qed

lemma rcvVote_inv:
  assumes inv: "round_inv T chainID s r" and run: "rcvVote T v r = Return (r', res)"
  shows "round_inv T chainID s r'"
proof -
  obtain vs0 where vs0: "rVotes r (vType v) = Some vs0"
    using run by (cases "rVotes r (vType v)") (auto simp: rcvVote_def VoteSet_AddVote_def)
  obtain vs added err where add: "VoteSet_AddVote T (Some v) (Some vs0) = Return (vs, added, err)"
    "r' = r\<lparr>rVotes := (rVotes r)(vType v \<mapsto> vs)\<rparr>"
    using run vs0 by (auto simp: rcvVote_def)
  have "votes_of T chainID (vType v) s vs0" using inv vs0 by (simp add: round_inv_def)
  then have "votes_of T chainID (vType v) s vs"
    using AddVote_unclaimed [OF _ add(1)] vote_history.voted [OF _ add(1)] by (auto simp: votes_of_def)
  moreover have "insert (vType v) (dom (rVotes r)) = dom (rVotes r)" using vs0 by auto
  ultimately show ?thesis using inv add(2) by (auto simp: round_inv_def)
qed

end
