(* ===== verification/Con_Conciliator.thy ===== *)
theory Con_Conciliator
  imports Con_Round
begin

text \<open>
  \<^verbatim>\<open>src/concord/conciliator.go\<close> and the interface of \<^verbatim>\<open>concord.go\<close>: a node of the protocol. It
  handles the messages pubsub delivers and runs \<open>AgreeOn\<close>, here split where it blocks: each
  part runs from one \<open>select\<close> to the next, and a message is handled between two parts. The
  log of published messages is kept per round.
\<close>

record 'pk concord =
  cId :: bytes
  cRound :: "'pk round option"
  cValidate :: "bytes \<Rightarrow> bytes option"
  cSelf :: "'pk PrivProposer"
  cSelfPK :: 'pk

text \<open>The field \<open>propStore\<close> of both structs is never set nor read.\<close>

record 'pk conciliator =
  coSelf :: "'pk PrivProposer"

definition NewConciliator :: "'pk PrivProposer \<Rightarrow> 'pk conciliator" where
  "NewConciliator self = \<lparr>coSelf = self\<rparr>"

datatype concord_error = ErrJoin | ErrGetPubKey | ErrSubscribe | ErrRegister

definition NewConcord :: "net \<Rightarrow> 'pk conciliator \<Rightarrow> bytes \<Rightarrow> (bytes \<Rightarrow> bytes option) \<Rightarrow>
    'pk concord option \<times> concord_error option" where
  "NewConcord N co ident pv =
     (if \<not> Join N ident then (None, Some ErrJoin)
      else case GetPubKey (coSelf co) of
        None \<Rightarrow> (None, Some ErrGetPubKey)
      | Some pk \<Rightarrow>
          let cord = \<lparr>cId = ident, cRound = None, cValidate = pv, cSelf = coSelf co, cSelfPK = pk\<rparr>
          in if \<not> Subscribe N ident then (None, Some ErrSubscribe)
             else (Some cord, if RegisterTopicValidator N ident then None else Some ErrRegister))"

section \<open>Handling messages\<close>

datatype handle_error =
    ErrUnmarshal | ErrSerde serde_error | ErrValidateMsg msg_error | ErrProposal proposal_error
  | ErrVote vote_basic_error | ErrRound round_error | ErrInvalidMessageReceived

definition with_round :: "'pk concord \<Rightarrow> ('pk round \<Rightarrow> ('pk round \<times> round_error option wait) outcome) \<Rightarrow>
    ('pk concord \<times> handle_error option wait) outcome" where
  "with_round c f =
     (case cRound c of
        None \<Rightarrow> Panic NilDereference
      | Some r \<Rightarrow> obind (f r) (\<lambda>(r', res). Return (c\<lparr>cRound := Some r'\<rparr>,
          case res of Blocks \<Rightarrow> Blocks | Ready err \<Rightarrow> Ready (map_option ErrRound err))))"

definition dispatch :: "'pk tm \<Rightarrow> bool \<Rightarrow> bool \<Rightarrow> pb_Sum option \<Rightarrow> 'pk concord \<Rightarrow>
    ('pk concord \<times> handle_error option wait) outcome" where
  "dispatch T ctxDone pick s c =
     (case s of
        Some (Message_Proposal pp) \<Rightarrow>
          (case ProposalFromProto T pp of
             Inl err \<Rightarrow> Return (c, Ready (Some (ErrProposal err)))
           | Inr prop \<Rightarrow> with_round c (rcvProposal T ctxDone pick prop))
      | Some (Message_Vote pv) \<Rightarrow>
          (case VoteFromProto T pv of
             Inl err \<Rightarrow> Return (c, Ready (Some (ErrVote err)))
           | Inr v \<Rightarrow> with_round c (\<lambda>r. obind (rcvVote T v r) (\<lambda>(r', err). Return (r', Ready err))))
      | None \<Rightarrow> Return (c, Ready (Some ErrInvalidMessageReceived)))"

definition handle :: "'pk tm \<Rightarrow> net \<Rightarrow> (BitArray option \<Rightarrow> int) \<Rightarrow> bool \<Rightarrow> bool \<Rightarrow> bytes \<Rightarrow> 'pk concord \<Rightarrow>
    ('pk concord \<times> handle_error option wait) outcome" where
  "handle T N sizeOf ctxDone pick data c =
     (case Unmarshal N data of
        None \<Rightarrow> Return (c, Ready (Some ErrUnmarshal))
      | Some tmsg \<Rightarrow>
          obind (MsgFromProto T sizeOf (Some tmsg)) (\<lambda>res. case res of
            Inl err \<Rightarrow> Return (c, Ready (Some (ErrSerde err)))
          | Inr msg \<Rightarrow>
              obind (Message_ValidateBasic T sizeOf msg) (\<lambda>err. case err of
                Some e \<Rightarrow> Return (c, Ready (Some (ErrValidateMsg e)))
              | None \<Rightarrow> dispatch T ctxDone pick (Sum tmsg) c)))"

datatype ValidationResult = ValidationAccept | ValidationReject

definition incoming :: "'pk tm \<Rightarrow> net \<Rightarrow> (BitArray option \<Rightarrow> int) \<Rightarrow> bool \<Rightarrow> bool \<Rightarrow> bytes \<Rightarrow> 'pk concord \<Rightarrow>
    ('pk concord \<times> ValidationResult wait) outcome" where
  "incoming T N sizeOf ctxDone pick data c =
     obind (handle T N sizeOf ctxDone pick data c) (\<lambda>(c', res). Return (c',
       case res of
         Blocks \<Rightarrow> Blocks
       | Ready (Some err) \<Rightarrow> Ready ValidationReject
       | Ready None \<Rightarrow> Ready ValidationAccept))"

section \<open>Reaching agreement\<close>

datatype agree_error = EmptyProposerSet | ErrAgreeRound round_error | ErrValidate

datatype phase =
    AwaitProposal
  | AwaitPrevotes bytes bytes
  | AwaitPrecommits bytes bytes
  | Agreed bytes Commit
  | Failed agree_error

text \<open>The loop does not stop at the first match.\<close>

fun find_self :: "'pk tm \<Rightarrow> 'pk \<Rightarrow> nat \<Rightarrow> 'pk Proposer list \<Rightarrow> int \<Rightarrow> int outcome" where
  "find_self T selfPK i [] index = Return index"
| "find_self T selfPK i (v # vs) index =
     (case PubKey v of
        None \<Rightarrow> Panic NilDereference
      | Some k \<Rightarrow>
          find_self T selfPK (Suc i) vs (if PubKey_Bytes T k = PubKey_Bytes T selfPK then int i else index))"

definition AgreeOn_begin :: "'pk tm \<Rightarrow> net \<Rightarrow> time \<Rightarrow> bytes \<Rightarrow> 'pk ProposerSet option \<Rightarrow> 'pk concord \<Rightarrow>
    ('pk concord \<times> phase) outcome" where
  "AgreeOn_begin T N now prop propSet c =
     (case propSet of
        None \<Rightarrow> Return (c, Failed EmptyProposerSet)
      | Some s \<Rightarrow>
          obind (find_self T (cSelfPK c) 0 (Proposers s) (-1)) (\<lambda>index.
            if index < 0 then Panic PanicNoIndex
            else
              let r = newRound 0 (cId c) []
                \<lparr>piSet = s, piSelf = cSelf c, piSelfIndex = wrap32 index, piSelfPK = cSelfPK c\<rparr>
              in obind (Propose_begin T N now prop r) (\<lambda>(r, err).
                   Return (c\<lparr>cRound := Some r\<rparr>,
                     case err of None \<Rightarrow> AwaitProposal | Some e \<Rightarrow> Failed (ErrAgreeRound e)))))"

definition cast_vote :: "'pk tm \<Rightarrow> net \<Rightarrow> time \<Rightarrow> bytes \<Rightarrow> SignedMsgType \<Rightarrow> phase \<Rightarrow> 'pk round \<Rightarrow> 'pk concord \<Rightarrow>
    ('pk concord \<times> phase) outcome" where
  "cast_vote T N now hash t next_phase r c =
     obind (vote T N now hash t r) (\<lambda>(r, err).
       Return (c\<lparr>cRound := Some r\<rparr>,
         case err of None \<Rightarrow> next_phase | Some e \<Rightarrow> Failed (ErrAgreeRound e)))"

text \<open>From the proposal to the prevote, from the prevotes to the precommit, and to the commit.\<close>

definition got_proposal :: "'pk tm \<Rightarrow> net \<Rightarrow> time \<Rightarrow> bytes \<Rightarrow> 'pk round \<Rightarrow> 'pk concord \<Rightarrow>
    ('pk concord \<times> phase) outcome" where
  "got_proposal T N now prop r c =
     (case cValidate c prop of
        None \<Rightarrow> Return (c\<lparr>cRound := Some r\<rparr>, Failed ErrValidate)
      | Some hash \<Rightarrow> cast_vote T N now hash PrevoteType (AwaitPrevotes prop hash) r c)"

definition got_precommits :: "'pk tm \<Rightarrow> bytes \<Rightarrow> 'pk VoteSet \<Rightarrow> 'pk concord \<Rightarrow> ('pk concord \<times> phase) outcome"
where
  "got_precommits T prop votes c =
     obind (MakeCommit T votes) (\<lambda>commit. Return (c, Agreed prop commit))"

definition AgreeOn_resume :: "'pk tm \<Rightarrow> net \<Rightarrow> bool \<Rightarrow> bool \<Rightarrow> time \<Rightarrow> phase \<Rightarrow> 'pk concord \<Rightarrow>
    ('pk concord \<times> phase) wait outcome" where
  "AgreeOn_resume T N ctxDone pick now ph c =
     (case cRound c of
        None \<Rightarrow> Panic NilDereference
      | Some r \<Rightarrow>
          (case ph of
             AwaitProposal \<Rightarrow>
               (case Propose_select ctxDone pick r of
                  Blocks \<Rightarrow> Return Blocks
                | Ready (r', Inl e) \<Rightarrow> Return (Ready (c\<lparr>cRound := Some r'\<rparr>, Failed (ErrAgreeRound e)))
                | Ready (r', Inr prop) \<Rightarrow> obind (got_proposal T N now prop r' c) (\<lambda>x. Return (Ready x)))
           | AwaitPrevotes prop hash \<Rightarrow>
               obind (Vote_select ctxDone pick PrevoteType r) (\<lambda>w. case w of
                  Blocks \<Rightarrow> Return Blocks
                | Ready (Inl e) \<Rightarrow> Return (Ready (c, Failed (ErrAgreeRound e)))
                | Ready (Inr votes) \<Rightarrow>
                    obind (cast_vote T N now hash PrecommitType (AwaitPrecommits prop hash) r c)
                      (\<lambda>x. Return (Ready x)))
           | AwaitPrecommits prop hash \<Rightarrow>
               obind (Vote_select ctxDone pick PrecommitType r) (\<lambda>w. case w of
                  Blocks \<Rightarrow> Return Blocks
                | Ready (Inl e) \<Rightarrow> Return (Ready (c, Failed (ErrAgreeRound e)))
                | Ready (Inr votes) \<Rightarrow> obind (got_precommits T prop votes c) (\<lambda>x. Return (Ready x)))
           | Agreed prop commit \<Rightarrow> Return Blocks
           | Failed e \<Rightarrow> Return Blocks))"

section \<open>Runs\<close>

text \<open>
  One call of \<open>AgreeOn\<close> on a set \<open>s\<close>, at any time, with any message delivered between its
  parts: honest, forged, repeated or out of order. A blocked handler leaves its message
  pending, to be tried again.
\<close>

inductive agree_run :: "'pk tm \<Rightarrow> net \<Rightarrow> (BitArray option \<Rightarrow> int) \<Rightarrow> 'pk ProposerSet \<Rightarrow> 'pk concord \<Rightarrow>
    'pk concord \<Rightarrow> phase \<Rightarrow> bool" for T N sizeOf s c0 where
  begun: "AgreeOn_begin T N now prop (Some s) c0 = Return (c, ph) \<Longrightarrow> agree_run T N sizeOf s c0 c ph"
| resumed: "agree_run T N sizeOf s c0 c ph \<Longrightarrow>
    AgreeOn_resume T N ctxDone pick now ph c = Return (Ready (c', ph')) \<Longrightarrow> agree_run T N sizeOf s c0 c' ph'"
| received: "agree_run T N sizeOf s c0 c ph \<Longrightarrow>
    incoming T N sizeOf ctxDone pick data c = Return (c', res) \<Longrightarrow> agree_run T N sizeOf s c0 c' ph"

inductive_cases agree_runE: "agree_run T N sizeOf s c0 c ph"

end
