(* ===== verification/Con_Agreement.thy ===== *)
theory Con_Agreement
  imports Con_Conciliator
begin

text \<open>
  What a node guarantees, whatever messages it receives: the invariant of a run of \<open>AgreeOn\<close>,
  the commit it returns, accountable agreement between nodes, when a waiting node resumes,
  which messages it can handle, and where the code falls short.
\<close>

section \<open>The invariant of a run\<close>

definition node_inv :: "'pk tm \<Rightarrow> 'pk ProposerSet \<Rightarrow> 'pk concord \<Rightarrow> 'pk concord \<Rightarrow> bool" where
  "node_inv T s c0 c \<longleftrightarrow>
     (\<exists>r. cRound c = Some r \<and> round_inv T (cId c0) s r \<and> c = c0\<lparr>cRound := Some r\<rparr>)"

definition decided :: "'pk tm \<Rightarrow> bytes \<Rightarrow> SignedMsgType \<Rightarrow> 'pk ProposerSet \<Rightarrow> 'pk VoteSet \<Rightarrow> DataHash \<Rightarrow> bool"
where
  "decided T chainID t s vs h \<longleftrightarrow> votes_of T chainID t s vs \<and> vsMaj23 vs = Some h"

text \<open>The node's round has recorded a majority.\<close>

definition recorded :: "'pk concord \<Rightarrow> SignedMsgType \<Rightarrow> DataHash \<Rightarrow> bool" where
  "recorded c t h \<longleftrightarrow> (\<exists>r vs. cRound c = Some r \<and> rVotes r t = Some vs \<and> vsMaj23 vs = Some h)"

fun phase_ok :: "'pk tm \<Rightarrow> 'pk ProposerSet \<Rightarrow> 'pk concord \<Rightarrow> 'pk concord \<Rightarrow> phase \<Rightarrow> bool" where
  "phase_ok T s c0 c AwaitProposal \<longleftrightarrow> True"
| "phase_ok T s c0 c (AwaitPrevotes data hash) \<longleftrightarrow> cValidate c0 data = Some hash \<and> proposed T (cId c0) s data"
| "phase_ok T s c0 c (AwaitPrecommits data hash) \<longleftrightarrow> cValidate c0 data = Some hash \<and>
     proposed T (cId c0) s data \<and> (\<exists>h. recorded c PrevoteType h)"
| "phase_ok T s c0 c (Agreed data commit) \<longleftrightarrow> cValidate c0 data \<noteq> None \<and> proposed T (cId c0) s data \<and>
     (\<exists>h. recorded c PrevoteType h) \<and>
     (\<exists>vs h. decided T (cId c0) PrecommitType s vs h \<and> MakeCommit T vs = Return commit)"
| "phase_ok T s c0 c (Failed e) \<longleftrightarrow> True"

text \<open>A phase stays justified while majorities stay recorded.\<close>

lemma phase_ok_kept:
  "phase_ok T s c0 c ph \<Longrightarrow> (\<And>h. recorded c PrevoteType h \<Longrightarrow> recorded c' PrevoteType h) \<Longrightarrow>
    phase_ok T s c0 c' ph"
  by (cases ph) auto

lemma recorded_round: "recorded (c\<lparr>cRound := Some r\<rparr>) t h \<longleftrightarrow> (\<exists>vs. rVotes r t = Some vs \<and> vsMaj23 vs = Some h)"
  by (simp add: recorded_def)

lemma node_inv_round: "round_inv T (cId c0) s r \<Longrightarrow> node_inv T s c0 (c0\<lparr>cRound := Some r\<rparr>)"
  by (simp add: node_inv_def)

lemma Vote_select_decided:
  assumes "round_inv T chainID s r" and "votable s"
    and "Vote_select ctxDone pick t r = Return (Ready (Inr vs))"
  shows "\<exists>h. decided T chainID t s vs h"
proof -
  have vs: "rVotes r t = Some vs" "vsDone vs"
    using assms(3) by (auto simp: Vote_select_def split: option.splits if_splits)
  then have "votes_of T chainID t s vs" using assms(1) by (simp add: round_inv_def)
  moreover from this have "vsMaj23 vs \<noteq> None"
    using vs(2) core_invD(8) [OF vote_invD(1)] vote_history_inv [OF _ assms(2)]
    unfolding votes_of_def by blast
  ultimately show ?thesis by (auto simp: decided_def)
qed

lemma cast_vote_inv:
  assumes inv: "round_inv T (cId c0) s r" and c: "c = c0\<lparr>cRound := q\<rparr>"
    and ok: "phase_ok T s c0 (c0\<lparr>cRound := Some r\<rparr>) ph" and run: "cast_vote T N now hash t ph r c = Return (c', ph')"
  shows "node_inv T s c0 c' \<and> phase_ok T s c0 c' ph'"
proof -
  obtain r' err where v: "vote T N now hash t r = Return (r', err)" "c' = c\<lparr>cRound := Some r'\<rparr>"
    "ph' = (case err of None \<Rightarrow> ph | Some e \<Rightarrow> Failed (ErrAgreeRound e))"
    using run by (auto simp: cast_vote_def)
  note inv' = vote_inv_round [OF inv v(1)]
  have "phase_ok T s c0 (c0\<lparr>cRound := Some r'\<rparr>) ph"
    using inv' by (intro phase_ok_kept [OF ok]) (simp add: recorded_round)
  then show ?thesis
    using v inv' node_inv_round [of T c0 s r'] c by (cases err) simp_all
qed

lemma resume_proposal_inv:
  assumes r: "cRound c = Some r" "round_inv T (cId c0) s r" "c = c0\<lparr>cRound := Some r\<rparr>"
    and run: "AgreeOn_resume T N ctxDone pick now AwaitProposal c = Return (Ready (c', ph'))"
  shows "node_inv T s c0 c' \<and> phase_ok T s c0 c' ph'"
proof -
  obtain r' res where sel: "Propose_select ctxDone pick r = Ready (r', res)"
    using run r(1) by (cases "Propose_select ctxDone pick r") (auto simp: AgreeOn_resume_def)
  note inv' = conjunct1 [OF Propose_select_inv [OF r(2) sel]]
  show ?thesis
  proof (cases res)
    case (Inl e)
    then show ?thesis using run r sel node_inv_round [OF inv'] by (auto simp: AgreeOn_resume_def)
  next
    case (Inr pr)
    then have g: "got_proposal T N now pr r' c = Return (c', ph')"
      using run r(1) sel by (simp add: AgreeOn_resume_def)
    show ?thesis
    proof (cases "cValidate c pr")
      case None
      then show ?thesis using g node_inv_round [OF inv'] r(3) by (auto simp: got_proposal_def)
    next
      case (Some hash)
      then have "cast_vote T N now hash PrevoteType (AwaitPrevotes pr hash) r' c = Return (c', ph')"
        using g by (simp add: got_proposal_def)
      from cast_vote_inv [OF inv' r(3) _ this] show ?thesis
        using Some r(3) Inr conjunct2 [OF Propose_select_inv [OF r(2) sel]] by simp
    qed
  qed
qed

text \<open>A wait for votes that ends has seen an error or a decision.\<close>

lemma Vote_select_cases:
  assumes "Vote_select ctxDone pick t r = Return (Ready w)" and "round_inv T chainID s r" and "votable s"
  obtains e where "w = Inl e"
  | votes h where "w = Inr votes" "rVotes r t = Some votes" "decided T chainID t s votes h"
proof (cases w)
  case (Inr votes)
  then have "rVotes r t = Some votes"
    using assms(1) by (auto simp: Vote_select_def split: option.splits if_splits)
  then show ?thesis using that(2) Inr Vote_select_decided [OF assms(2,3)] assms(1) by blast
qed (rule that(1))

lemma resume_prevotes_inv:
  assumes r: "cRound c = Some r" "round_inv T (cId c0) s r" "c = c0\<lparr>cRound := Some r\<rparr>" and votable: "votable s"
    and ok: "phase_ok T s c0 c (AwaitPrevotes pr hash)"
    and run: "AgreeOn_resume T N ctxDone pick now (AwaitPrevotes pr hash) c = Return (Ready (c', ph'))"
  shows "node_inv T s c0 c' \<and> phase_ok T s c0 c' ph'"
proof -
  obtain x where x: "Vote_select ctxDone pick PrevoteType r = Return x"
    using run r(1) by (auto simp: AgreeOn_resume_def)
  then obtain w where sel: "Vote_select ctxDone pick PrevoteType r = Return (Ready w)"
    using run r(1) by (cases x) (auto simp: AgreeOn_resume_def)
  show ?thesis
  proof (rule Vote_select_cases [OF sel r(2) votable])
    fix e assume "w = Inl e"
    then show ?thesis using run r node_inv_round [OF r(2)] sel by (auto simp: AgreeOn_resume_def)
  next
    fix votes h assume w: "w = Inr votes" "rVotes r PrevoteType = Some votes" "decided T (cId c0) PrevoteType s votes h"
    then have "cast_vote T N now hash PrecommitType (AwaitPrecommits pr hash) r c = Return (c', ph')"
      using run r(1) sel by (simp add: AgreeOn_resume_def)
    note cast = cast_vote_inv [OF r(2,3) _ this]
    have "phase_ok T s c0 (c0\<lparr>cRound := Some r\<rparr>) (AwaitPrecommits pr hash)"
      using ok w by (auto simp: recorded_round decided_def)
    from cast [OF this] show ?thesis .
  qed
qed

lemma resume_precommits_inv:
  assumes r: "cRound c = Some r" "round_inv T (cId c0) s r" "c = c0\<lparr>cRound := Some r\<rparr>" and votable: "votable s"
    and ok: "phase_ok T s c0 c (AwaitPrecommits pr hash)"
    and run: "AgreeOn_resume T N ctxDone pick now (AwaitPrecommits pr hash) c = Return (Ready (c', ph'))"
  shows "node_inv T s c0 c' \<and> phase_ok T s c0 c' ph'"
proof -
  have node: "node_inv T s c0 c" using node_inv_round [OF r(2)] r(3) by simp
  obtain x where x: "Vote_select ctxDone pick PrecommitType r = Return x"
    using run r(1) by (auto simp: AgreeOn_resume_def)
  then obtain w where sel: "Vote_select ctxDone pick PrecommitType r = Return (Ready w)"
    using run r(1) by (cases x) (auto simp: AgreeOn_resume_def)
  show ?thesis
  proof (rule Vote_select_cases [OF sel r(2) votable])
    fix e assume "w = Inl e"
    then show ?thesis using run r(1) node sel by (auto simp: AgreeOn_resume_def)
  next
    fix votes h assume w: "w = Inr votes" "decided T (cId c0) PrecommitType s votes h"
    then obtain commit where "MakeCommit T votes = Return commit" "c' = c" "ph' = Agreed pr commit"
      using run r(1) sel by (auto simp: AgreeOn_resume_def got_precommits_def)
    then show ?thesis using ok w node by auto
  qed
qed

lemma resume_inv:
  assumes node: "node_inv T s c0 c" and ok: "phase_ok T s c0 c ph" and votable: "votable s"
    and run: "AgreeOn_resume T N ctxDone pick now ph c = Return (Ready (c', ph'))"
  shows "node_inv T s c0 c' \<and> phase_ok T s c0 c' ph'"
proof -
  obtain r where r: "cRound c = Some r" "round_inv T (cId c0) s r" "c = c0\<lparr>cRound := Some r\<rparr>"
    using node by (auto simp: node_inv_def)
  show ?thesis
  proof (cases ph)
    case AwaitProposal
    with run show ?thesis using resume_proposal_inv [OF r] by simp
  next
    case (AwaitPrevotes pr hash)
    with run ok show ?thesis using resume_prevotes_inv [OF r votable] by blast
  next
    case (AwaitPrecommits pr hash)
    with run ok show ?thesis using resume_precommits_inv [OF r votable] by blast
  qed (use run r(1) in \<open>simp_all add: AgreeOn_resume_def\<close>)
qed

lemma begin_inv:
  assumes "AgreeOn_begin T N now prop (Some s) c0 = Return (c, ph)"
  shows "node_inv T s c0 c \<and> phase_ok T s c0 c ph"
proof -
  obtain index r err where b: "Propose_begin T N now prop (newRound 0 (cId c0) []
      \<lparr>piSet = s, piSelf = cSelf c0, piSelfIndex = wrap32 index, piSelfPK = cSelfPK c0\<rparr>) = Return (r, err)"
    "c = c0\<lparr>cRound := Some r\<rparr>"
    "ph = (case err of None \<Rightarrow> AwaitProposal | Some e \<Rightarrow> Failed (ErrAgreeRound e))"
    using assms by (auto simp: AgreeOn_begin_def Let_def split: if_splits)
  have "round_inv T (cId c0) s (newRound 0 (cId c0) []
      \<lparr>piSet = s, piSelf = cSelf c0, piSelfIndex = wrap32 index, piSelfPK = cSelfPK c0\<rparr>)"
    using newRound_inv [where info = "\<lparr>piSet = s, piSelf = cSelf c0, piSelfIndex = wrap32 index, piSelfPK = cSelfPK c0\<rparr>"]
    by simp
  from node_inv_round [OF Propose_begin_inv [OF this b(1)]] show ?thesis
    using b(2,3) by (cases err) simp_all
qed

text \<open>Deliveries keep the invariant and every recorded majority.\<close>

definition keeps :: "'pk round \<Rightarrow> 'pk round \<Rightarrow> bool" where
  "keeps r r' \<longleftrightarrow> (\<forall>t vs h. rVotes r t = Some vs \<longrightarrow> vsMaj23 vs = Some h \<longrightarrow>
     (\<exists>vs'. rVotes r' t = Some vs' \<and> vsMaj23 vs' = Some h))"

lemma rcvProposal_keeps:
  assumes inv: "round_inv T chainID s r" and run: "rcvProposal T ctxDone pick pr r = Return (r', res)"
  shows "round_inv T chainID s r' \<and> keeps r r'"
proof -
  obtain r1 p where p: "round_proposer r = Return (r1, p)"
    using run by (auto simp: rcvProposal_def)
  have "r' = r1 \<or> r' = r1\<lparr>rPropCh := rPropCh r1 @ [prData pr]\<rparr>"
    using run p by (auto simp: rcvProposal_def split: option.splits if_splits)
  then have "rVotes r' = rVotes r" using round_proposer_inv [OF inv p] by auto
  then show ?thesis using rcvProposal_inv [OF inv run] by (simp add: keeps_def)
qed

lemma rcvVote_keeps:
  assumes inv: "round_inv T chainID s r" and votable: "votable s" and run: "rcvVote T v r = Return (r', res)"
  shows "round_inv T chainID s r' \<and> keeps r r'"
proof -
  obtain vs0 where vs0: "rVotes r (vType v) = Some vs0"
    using run by (cases "rVotes r (vType v)") (auto simp: rcvVote_def VoteSet_AddVote_def)
  then obtain vs added err where add: "VoteSet_AddVote T (Some v) (Some vs0) = Return (vs, added, err)"
    "r' = r\<lparr>rVotes := (rVotes r)(vType v \<mapsto> vs)\<rparr>"
    using run by (auto simp: rcvVote_def)
  have "vote_history T chainID (vType v) s vs0" using inv vs0 by (simp add: round_inv_def votes_of_def)
  from AddVote_keeps [OF conjunct1 [OF vote_history_inv [OF this votable]] add(1)]
  have "vsMaj23 vs0 = Some h \<Longrightarrow> vsMaj23 vs = Some h" for h by (simp add: extends_def)
  then have "keeps r r'" using vs0 add(2) by (simp add: keeps_def)
  then show ?thesis using rcvVote_inv [OF inv run] by simp
qed

text \<open>A delivery reaches the round as a proposal or as a vote, or changes nothing.\<close>

definition delivers :: "'pk tm \<Rightarrow> bool \<Rightarrow> bool \<Rightarrow> 'pk round \<Rightarrow> 'pk round \<Rightarrow> bool" where
  "delivers T ctxDone pick r r' \<longleftrightarrow>
     (\<exists>pr w. rcvProposal T ctxDone pick pr r = Return (r', w)) \<or> (\<exists>v w. rcvVote T v r = Return (r', w))"

lemma with_round_cases:
  assumes "with_round c f = Return (c', res)"
  obtains r r' w where "cRound c = Some r" "f r = Return (r', w)" "c' = c\<lparr>cRound := Some r'\<rparr>"
  using assms by (auto simp: with_round_def split: option.splits)

lemma dispatch_cases:
  assumes "dispatch T ctxDone pick sm c = Return (c', res)"
  shows "c' = c \<or> (\<exists>r r'. cRound c = Some r \<and> c' = c\<lparr>cRound := Some r'\<rparr> \<and> delivers T ctxDone pick r r')"
proof (cases sm)
  case None
  then show ?thesis using assms by (simp add: dispatch_def)
next
  case (Some m)
  show ?thesis
  proof (cases m)
    case (Message_Proposal pp)
    show ?thesis
    proof (cases "ProposalFromProto T pp")
      case (Inl e)
      then show ?thesis using assms Some Message_Proposal by (simp add: dispatch_def)
    next
      case (Inr pr)
      then have "with_round c (rcvProposal T ctxDone pick pr) = Return (c', res)"
        using assms Some Message_Proposal by (simp add: dispatch_def)
      then show ?thesis by (rule with_round_cases) (auto simp: delivers_def)
    qed
  next
    case (Message_Vote pv)
    show ?thesis
    proof (cases "VoteFromProto T pv")
      case (Inl e)
      then show ?thesis using assms Some Message_Vote by (simp add: dispatch_def)
    next
      case (Inr v)
      then have "with_round c (\<lambda>r. obind (rcvVote T v r) (\<lambda>(r', err). Return (r', Ready err))) = Return (c', res)"
        using assms Some Message_Vote by (simp add: dispatch_def)
      then show ?thesis by (rule with_round_cases) (auto simp: delivers_def)
    qed
  qed
qed

lemma handle_cases:
  assumes "handle T N sizeOf ctxDone pick data c = Return (c', res)"
  shows "c' = c \<or> (\<exists>tmsg. Unmarshal N data = Some tmsg \<and>
    dispatch T ctxDone pick (Sum tmsg) c = Return (c', res))"
proof -
  have "c' = c \<or> dispatch T ctxDone pick (Sum tmsg) c = Return (c', res)"
    if m: "Unmarshal N data = Some tmsg" for tmsg
  proof -
    obtain x where x: "MsgFromProto T sizeOf (Some tmsg) = Return x"
      using MsgFromProto_returns [of T sizeOf "Some tmsg"] by blast
    show ?thesis
    proof (cases x)
      case (Inl e)
      then show ?thesis using assms m x by (simp add: handle_def)
    next
      case (Inr msg)
      then obtain err where "Message_ValidateBasic T sizeOf msg = Return err"
        using assms m x by (auto simp: handle_def)
      then show ?thesis using assms m x Inr by (cases err) (auto simp: handle_def)
    qed
  qed
  moreover have "c' = c" if "Unmarshal N data = None" using assms that by (simp add: handle_def)
  ultimately show ?thesis by (cases "Unmarshal N data") auto
qed

lemma incoming_cases:
  assumes "incoming T N sizeOf ctxDone pick data c = Return (c', res)"
  shows "c' = c \<or> (\<exists>r r'. cRound c = Some r \<and> c' = c\<lparr>cRound := Some r'\<rparr> \<and> delivers T ctxDone pick r r')"
proof -
  obtain w where "handle T N sizeOf ctxDone pick data c = Return (c', w)"
    using assms by (auto simp: incoming_def)
  from handle_cases [OF this] show ?thesis using dispatch_cases by blast
qed

lemma incoming_inv:
  assumes "node_inv T s c0 c" and "votable s" and "incoming T N sizeOf ctxDone pick data c = Return (c', res)"
  shows "node_inv T s c0 c' \<and> (\<forall>t h. recorded c t h \<longrightarrow> recorded c' t h)"
  using incoming_cases [OF assms(3)]
proof (elim disjE exE conjE)
  fix r r' assume r: "cRound c = Some r" "c' = c\<lparr>cRound := Some r'\<rparr>" "delivers T ctxDone pick r r'"
  have inv: "round_inv T (cId c0) s r" "c = c0\<lparr>cRound := Some r\<rparr>"
    using assms(1) r(1) by (auto simp: node_inv_def)
  have "round_inv T (cId c0) s r' \<and> keeps r r'"
    using r(3) rcvProposal_keeps [OF inv(1)] rcvVote_keeps [OF inv(1) assms(2)] by (auto simp: delivers_def)
  then show ?thesis
    using node_inv_round [of T c0 s r'] r(1,2) inv(2) by (fastforce simp: keeps_def recorded_def)
qed (use assms(1) in simp)

lemma agree_run_inv:
  assumes "agree_run T N sizeOf s c0 c ph" and "votable s"
  shows "node_inv T s c0 c \<and> phase_ok T s c0 c ph"
  using assms(1)
proof (induction rule: agree_run.induct)
  case (begun now pr c ph)
  then show ?case by (rule begin_inv)
next
  case (resumed c ph ctxDone pick now c' ph')
  then show ?case using resume_inv [OF _ _ assms(2)] by blast
next
  case (received c ph ctxDone pick data c' res)
  note keep = incoming_inv [OF conjunct1 [OF received.IH] assms(2) received.hyps(2)]
  have "phase_ok T s c0 c' ph"
    by (rule phase_ok_kept [OF conjunct2 [OF received.IH]]) (use keep in blast)
  then show ?case using keep by blast
qed

end
