(* ===== verification/Con_AgreeSafety.thy ===== *)
theory Con_AgreeSafety
  imports Con_Agreement
begin

text \<open>
  What a node guarantees when \<open>AgreeOn\<close> returns: the commit it hands out, agreement between
  nodes or exposed double signers, when a waiting node goes on; and where the code falls short.
\<close>

section \<open>Schedules\<close>

text \<open>A schedule of a run, to execute it: a part of \<open>AgreeOn\<close> at a time, or a message.\<close>

datatype event = Resume time | Deliver bytes

fun run_events :: "'pk tm \<Rightarrow> net \<Rightarrow> (BitArray option \<Rightarrow> int) \<Rightarrow> event list \<Rightarrow> 'pk concord \<times> phase \<Rightarrow>
    ('pk concord \<times> phase) outcome" where
  "run_events T N sizeOf [] (c, ph) = Return (c, ph)"
| "run_events T N sizeOf (Resume now # es) (c, ph) =
     obind (AgreeOn_resume T N False False now ph c) (\<lambda>w. case w of
       Blocks \<Rightarrow> run_events T N sizeOf es (c, ph)
     | Ready st \<Rightarrow> run_events T N sizeOf es st)"
| "run_events T N sizeOf (Deliver data # es) (c, ph) =
     obind (incoming T N sizeOf False False data c) (\<lambda>(c', res). run_events T N sizeOf es (c', ph))"

lemma run_events_run:
  assumes "run_events T N sizeOf es (c, ph) = Return (c', ph')" and "agree_run T N sizeOf s c0 c ph"
  shows "agree_run T N sizeOf s c0 c' ph'"
  using assms
proof (induction es arbitrary: c ph)
  case (Cons e es)
  show ?case
  proof (cases e)
    case (Resume now)
    then obtain w where w: "AgreeOn_resume T N False False now ph c = Return w"
      using Cons.prems(1) by auto
    show ?thesis
    proof (cases w)
      case (Ready st)
      obtain c1 ph1 where "st = (c1, ph1)" by fastforce
      then have st: "run_events T N sizeOf es (c1, ph1) = Return (c', ph')"
        "AgreeOn_resume T N False False now ph c = Return (Ready (c1, ph1))"
        using Cons.prems(1) Resume w Ready by simp_all
      show ?thesis by (rule Cons.IH [OF st(1) agree_run.resumed [OF Cons.prems(2) st(2)]])
    qed (use Cons Resume w in auto)
  next
    case (Deliver data)
    then obtain c1 res where "incoming T N sizeOf False False data c = Return (c1, res)"
      "run_events T N sizeOf es (c1, ph) = Return (c', ph')" using Cons.prems(1) by auto
    then show ?thesis using Cons.IH [of c1 ph] Cons.prems(2) agree_run.received by blast
  qed
qed simp

definition run_node :: "'pk tm \<Rightarrow> net \<Rightarrow> 'pk ProposerSet \<Rightarrow> 'pk concord \<Rightarrow> time \<Rightarrow> bytes \<Rightarrow> event list \<Rightarrow> phase outcome" where
  "run_node T N s c0 now data es =
     obind (AgreeOn_begin T N now data (Some s) c0) (\<lambda>st.
     obind (run_events T N (\<lambda>_. 0) es st) (\<lambda>(c, ph). Return ph))"

lemma run_node_run:
  assumes "run_node T N s c0 now data es = Return ph"
  shows "\<exists>c. agree_run T N (\<lambda>_. 0) s c0 c ph"
proof -
  obtain c1 ph1 c where "AgreeOn_begin T N now data (Some s) c0 = Return (c1, ph1)"
    "run_events T N (\<lambda>_. 0) es (c1, ph1) = Return (c, ph)"
    using assms by (auto simp: run_node_def)
  then show ?thesis using run_events_run agree_run.begun by blast
qed

section \<open>Samples\<close>

text \<open>
  The strong node of \<open>sample_set\<close>, whose proposer is the weak one, and a network that knows
  the proposal and some votes of both.
\<close>

definition sample_offer :: Proposal where
  "sample_offer = sample_proposal\<lparr>prSignature := [1, 0x20, 5, 1, 1, 7, 9]\<rparr>"

definition sample_signed :: "bytes \<Rightarrow> int \<Rightarrow> SignedMsgType \<Rightarrow> bytes \<Rightarrow> Vote" where
  "sample_signed k i t h =
     (let v = (sample_vote k i h)\<lparr>vType := t\<rparr> in v\<lparr>vSignature := k @ sign_bytes sample_tm [9] v\<rparr>)"

definition vote_message :: "Vote \<Rightarrow> pb_Message" where
  "vote_message v = \<lparr>Sum = Some (Message_Vote (Vote_ToProto (Some v)))\<rparr>"

definition sample_messages :: "pb_Message list" where
  "sample_messages =
     [\<lparr>Sum = Some (Message_Proposal (Some (Proposal_ToProto (Some sample_offer))))\<rparr>,
      vote_message (sample_signed [2] 0 PrevoteType [7]), vote_message (sample_signed [2] 0 PrecommitType [7]),
      vote_message (sample_signed [2] 0 PrecommitType [8]),
      vote_message (sample_signed [1] 1 PrevoteType [7]), vote_message (sample_signed [1] 1 PrecommitType [7])]"

definition sample_net :: net where
  "sample_net =
     \<lparr>Marshal = (\<lambda>m. map_option (\<lambda>i. [of_nat (fst i)]) (find (\<lambda>i. snd i = m) (zip [0..<6] sample_messages))),
      Unmarshal = (\<lambda>d. case d of [b] \<Rightarrow> if unat b < 6 then Some (sample_messages ! unat b) else None | _ \<Rightarrow> None),
      Publish = (\<lambda>_. True), Join = (\<lambda>_. True), Subscribe = (\<lambda>_. True),
      RegisterTopicValidator = (\<lambda>_. True)\<rparr>"

definition sample_node :: "bytes concord" where
  "sample_node =
     \<lparr>cId = [9], cRound = None, cValidate = (\<lambda>d. Some d), cSelf = sample_priv [2], cSelfPK = [2]\<rparr>"


lemma sample_agreed:
  "run_node sample_tm sample_net sample_set sample_node 5 [7]
     [Deliver [0], Resume 5, Deliver [1], Resume 5, Deliver [2], Resume 5] = Return (Agreed [7] (strong_commit 7))"
  "run_node sample_tm sample_net sample_set sample_node 5 [7]
     [Deliver [0], Resume 5, Deliver [1], Resume 5, Deliver [3], Resume 5] = Return (Agreed [7] (strong_commit 8))"
  by code_simp+

lemma sample_facts:
  "\<forall>v \<in> set (Proposers sample_set). PubKey v \<noteq> None" "length (Proposers sample_set) < 2 ^ 31"
  "cId sample_node = [9]" "cValidate sample_node d = Some d"
  by (simp_all add: sample_set_def sample_node_def)

section \<open>Commits and agreement\<close>

text \<open>The signatures of a majority of precommits are in its commit.\<close>

lemma decided_commit:
  assumes "decided T chainID PrecommitType s vs h" and "votable s" and "MakeCommit T vs = Return c"
  shows "quorum_signs T chainID PrecommitType (Proposers s) h (commit_votes c)"
proof -
  have hist: "vote_history T chainID PrecommitType s vs" and maj: "vsMaj23 vs = Some h"
    using assms(1) by (simp_all add: decided_def votes_of_def)
  from vote_history_inv [OF hist assms(2)] have inv: "core_inv T vs" and
    f: "vsChainID vs = chainID" "vsSignedMsgType vs = PrecommitType" "members vs = Proposers s"
    by (simp_all add: vote_inv_def)
  have made: "c = made_commit T h vs" using MakeCommit_ok [OF inv f(2) maj] assms(3) by simp
  have len: "length (vsVotes vs) = length (Proposers s)" using core_invD(4) [OF inv] f(3) by simp
  have "signs T chainID PrecommitType h (commit_votes c) (Proposers s ! i)" if i: "i \<in> voted_for (vsVotes vs) h" for i
  proof -
    obtain v where v: "i < length (vsVotes vs)" "vsVotes vs ! i = Some v" "vDataHash v = h"
      using i by (auto simp: voted_for_iff)
    then have good: "good_vote T chainID PrecommitType (Proposers s) i v"
      using core_invD(3) [OF inv] f unfolding slots_ok_def by metis
    have "\<not> Absent (commit_entry T h (Some v))"
      using v(3) by (simp add: commit_entry_def Absent_def flag_defs)
    then have there: "\<not> Absent (cmSignatures c ! i)"
      using made_commit_nth [OF v(1), of T h] v(2) by (simp add: made)
    then have "sig_vote c i (cmSignatures c ! i) = v"
      using made_commit_sig [OF inv f(2) v(1), of h] v(2) by (simp add: made)
    moreover have "i < length (cmSignatures c)" using v(1) by (simp add: made)
    ultimately have "v \<in> commit_votes c" using there unfolding commit_votes_def by blast
    then show ?thesis using good v(3) by (auto simp: signs_def good_vote_def split: option.splits)
  qed
  then show ?thesis
    using majority_canonical [OF inv maj] voted_for_subset [of "vsVotes vs" h] len f(3)
    unfolding quorum_signs_def by (intro exI [of _ "voted_for (vsVotes vs) h"]) simp
qed

lemma MakeCommit_hash: "MakeCommit T vs = Return c \<Longrightarrow> vsMaj23 vs = Some h \<Longrightarrow> cmDataHash c = h"
  by (auto simp: MakeCommit_def NewCommit_def split: if_splits)

text \<open>C3: what \<open>AgreeOn\<close> returns, whatever messages arrive in whatever order. The data was signed
  by the proposer of the set and accepted by the node's own validation; the prevotes the node
  holds show that more than two thirds of the power prevoted for some hash, and the commit
  shows as much of the precommits for its hash; and the commit passes \<open>VerifyCommit\<close> for its
  hash, unless it is a commit for nil.\<close>

theorem AgreeOn_commit:
  assumes "agree_run T N sizeOf s c0 c (Agreed data commit)" and "votable s"
    and "\<forall>v \<in> set (Proposers s). PubKey v \<noteq> None" and "length (Proposers s) < 2 ^ 31"
  shows "cValidate c0 data \<noteq> None \<and> proposed T (cId c0) s data \<and>
    (\<exists>r vs h. cRound c = Some r \<and> rVotes r PrevoteType = Some vs \<and>
       quorum_signs T (cId c0) PrevoteType (Proposers s) h (ballots vs)) \<and>
    quorum_signs T (cId c0) PrecommitType (Proposers s) (cmDataHash commit) (commit_votes commit) \<and>
    (\<exists>err. VerifyCommit T (cId c0) (Hash (cmDataHash commit)) commit s = Return (cached s, err) \<and>
       (err = None \<longleftrightarrow> IsComplete T (cmDataHash commit)))"
proof -
  from agree_run_inv [OF assms(1,2)] have ok: "phase_ok T s c0 c (Agreed data commit)" and
    node: "node_inv T s c0 c" by simp_all
  obtain vs h where d: "decided T (cId c0) PrecommitType s vs h" "MakeCommit T vs = Return commit"
    using ok by auto
  then have v: "vote_history T (cId c0) PrecommitType s vs" "vsMaj23 vs = Some h"
    by (simp_all add: decided_def votes_of_def)
  from MakeCommit_verifies_lemma [OF v(1) assms(2-4) v(2)] d(2) obtain err where
    c: "cmDataHash commit = h" "VerifyCommit T (cId c0) (Hash h) commit s = Return (cached s, err)"
    "err = None \<longleftrightarrow> IsComplete T h" by auto
  obtain r vs1 h1 where p: "cRound c = Some r" "rVotes r PrevoteType = Some vs1" "vsMaj23 vs1 = Some h1"
    using ok by (auto simp: recorded_def)
  then have "vote_history T (cId c0) PrevoteType s vs1"
    using node by (auto simp: node_inv_def round_inv_def votes_of_def)
  note majority_quorum_signs [OF this assms(2) p(3)]
  moreover have "cValidate c0 data \<noteq> None \<and> proposed T (cId c0) s data" using ok by simp
  ultimately show ?thesis using p(1,2) c decided_commit [OF d(1) assms(2) d(2)] by blast
qed

theorem AgreeOn_commit_witness:
  "\<exists>c. agree_run sample_tm sample_net (\<lambda>_. 0) sample_set sample_node c (Agreed [7] (strong_commit 7)) \<and>
    proposed sample_tm [9] sample_set [7] \<and>
    quorum_signs sample_tm [9] PrecommitType (Proposers sample_set) (cmDataHash (strong_commit 7))
      (commit_votes (strong_commit 7))"
proof -
  obtain c where run: "agree_run sample_tm sample_net (\<lambda>_. 0) sample_set sample_node c (Agreed [7] (strong_commit 7))"
    using run_node_run [OF sample_agreed(1)] by blast
  show ?thesis
    using run AgreeOn_commit [OF run sample_set_votable sample_facts(1,2)] unfolding sample_facts by blast
qed

text \<open>A node that has agreed holds a commit that shows a quorum.\<close>

lemma agreed_commit:
  assumes "agree_run T N sizeOf s n c (Agreed data commit)" and "votable s"
  shows "quorum_signs T (cId n) PrecommitType (Proposers s) (cmDataHash commit) (commit_votes commit)"
proof -
  obtain vs h where d: "decided T (cId n) PrecommitType s vs h" "MakeCommit T vs = Return commit"
    using agree_run_inv [OF assms] by auto
  then have "vsMaj23 vs = Some h" by (simp add: decided_def)
  then have "cmDataHash commit = h" using MakeCommit_hash [OF d(2)] by simp
  then show ?thesis using decided_commit [OF d(1) assms(2) d(2)] by simp
qed

lemma agreed_double_sign:
  assumes "agree_run T N1 sizeOf1 s1 n1 c1 (Agreed data1 commit1)"
    and "agree_run T N2 sizeOf2 s2 n2 c2 (Agreed data2 commit2)"
    and "votable s1" and "votable s2" and "Proposers s1 = Proposers s2" and "cId n1 = cId n2"
  shows "double_signers T (cId n1) PrecommitType (Proposers s1)
    (cmDataHash commit1, commit_votes commit1) (cmDataHash commit2, commit_votes commit2)"
  using agreed_commit [OF assms(1,3)] agreed_commit [OF assms(2,4)] assms(3,5,6)
  by (intro quorums_double_sign) (simp_all add: votable_def)

text \<open>C4: agreement between nodes. If two nodes that run on the same validators return commits for
  different hashes, the two commits together prove that validators with more than a third of
  the power signed precommits for both.\<close>

theorem AgreeOn_agreement:
  assumes "agree_run T N1 sizeOf1 s1 n1 c1 (Agreed data1 commit1)"
    and "agree_run T N2 sizeOf2 s2 n2 c2 (Agreed data2 commit2)"
    and "votable s1" and "votable s2" and "Proposers s1 = Proposers s2" and "cId n1 = cId n2"
    and "cmDataHash commit1 \<noteq> cmDataHash commit2"
  shows "double_signers T (cId n1) PrecommitType (Proposers s1)
    (cmDataHash commit1, commit_votes commit1) (cmDataHash commit2, commit_votes commit2)"
  using assms(1-6) by (rule agreed_double_sign)

theorem AgreeOn_agreement_witness:
  "double_signers sample_tm [9] PrecommitType (Proposers sample_set)
     (cmDataHash (strong_commit 7), commit_votes (strong_commit 7))
     (cmDataHash (strong_commit 8), commit_votes (strong_commit 8))"
proof -
  obtain c1 c2 where
    run: "agree_run sample_tm sample_net (\<lambda>_. 0) sample_set sample_node c1 (Agreed [7] (strong_commit 7))"
    "agree_run sample_tm sample_net (\<lambda>_. 0) sample_set sample_node c2 (Agreed [7] (strong_commit 8))"
    using run_node_run [OF sample_agreed(1)] run_node_run [OF sample_agreed(2)] by blast
  have "cmDataHash (strong_commit 7) \<noteq> cmDataHash (strong_commit 8)"
    by (simp add: strong_commit_def NewCommit_def)
  from AgreeOn_agreement [OF run sample_set_votable sample_set_votable refl refl this] show ?thesis
    unfolding sample_facts .
qed

text \<open>\<open>AgreeOn\<close> never compares the commit with the data it returns: a node whose validation
  gives a hash returns with a commit for another one, if the others precommit that.\<close>

theorem AgreeOn_mismatch:
  "\<exists>c data commit. agree_run sample_tm sample_net (\<lambda>_. 0) sample_set sample_node c (Agreed data commit) \<and>
    cValidate sample_node data \<noteq> Some (Hash (cmDataHash commit)) \<and>
    VerifyCommit sample_tm [9] (Hash (cmDataHash commit)) commit sample_set = Return (cached sample_set, None)"
proof -
  have "cmDataHash (strong_commit 8) = \<lparr>Hash = [8]\<rparr>" by (simp add: strong_commit_def NewCommit_def)
  then show ?thesis
    using run_node_run [OF sample_agreed(2)] strong_commit_accepted(2) sample_facts(4) by fastforce
qed

end
