(* ===== verification/Con_Delivery.thy ===== *)
theory Con_Delivery
  imports Con_AgreeSafety
begin

text \<open>
  What happens to a message that pubsub delivers to a node, and when a waiting node goes on.
\<close>

section \<open>What a message holds\<close>

text \<open>The contents of a message that is decoded and valid.\<close>

datatype content = NoContent | OfProposal Proposal | OfVote Vote

definition content :: "'pk tm \<Rightarrow> net \<Rightarrow> bytes \<Rightarrow> content" where
  "content T N data =
     (case Unmarshal N data of
        None \<Rightarrow> NoContent
      | Some m \<Rightarrow>
          (case Sum m of
             None \<Rightarrow> NoContent
           | Some (Message_Proposal pp) \<Rightarrow>
               (case ProposalFromProto T pp of Inl err \<Rightarrow> NoContent | Inr p \<Rightarrow> OfProposal p)
           | Some (Message_Vote pv) \<Rightarrow>
               (case VoteFromProto T pv of Inl err \<Rightarrow> NoContent | Inr v \<Rightarrow> OfVote v)))"

fun verdict :: "handle_error option wait \<Rightarrow> ValidationResult wait" where
  "verdict Blocks = Blocks"
| "verdict (Ready None) = Ready ValidationAccept"
| "verdict (Ready (Some err)) = Ready ValidationReject"

lemma incoming_verdict:
  "incoming T N sizeOf ctxDone pick data c =
     obind (handle T N sizeOf ctxDone pick data c) (\<lambda>(c', res). Return (c', verdict res))"
proof -
  have "(case res of Blocks \<Rightarrow> Blocks | Ready None \<Rightarrow> Ready ValidationAccept
      | Ready (Some err) \<Rightarrow> Ready ValidationReject) = verdict res" for res
    by (cases res rule: verdict.cases) simp_all
  then show ?thesis by (simp add: incoming_def)
qed

text \<open>A message is decoded and validated three times; once would do.\<close>

lemma handle_decoded:
  assumes "MsgFromProto T sizeOf (Some m) = Return (Inr msg)" and "Unmarshal N data = Some m"
    and "Message_ValidateBasic T sizeOf msg = Return None"
  shows "handle T N sizeOf ctxDone pick data c = dispatch T ctxDone pick (Sum m) c"
  using assms by (simp add: handle_def)

lemma handle_content:
  "\<exists>err. handle T N sizeOf ctxDone pick data c =
     (case content T N data of
        NoContent \<Rightarrow> Return (c, Ready (Some err))
      | OfProposal p \<Rightarrow> with_round c (rcvProposal T ctxDone pick p)
      | OfVote v \<Rightarrow> with_round c (\<lambda>r. obind (rcvVote T v r) (\<lambda>(r', err). Return (r', Ready err))))"
proof (cases "Unmarshal N data")
  case None
  then show ?thesis by (simp add: handle_def content_def)
next
  case (Some m)
  show ?thesis
  proof (cases "content T N data")
    case NoContent
    have "\<nexists>msg. MsgFromProto T sizeOf (Some m) = Return (Inr msg)"
      using Some NoContent unfolding MsgFromProto_Inr by (auto simp: content_def)
    then obtain e where "MsgFromProto T sizeOf (Some m) = Return (Inl e)"
      using MsgFromProto_returns [of T sizeOf "Some m"] by (metis sum.exhaust)
    then show ?thesis using Some NoContent by (simp add: handle_def)
  next
    case (OfProposal p)
    then obtain pp where pp: "Sum m = Some (Message_Proposal pp)" "ProposalFromProto T pp = Inr p"
      using Some by (auto simp: content_def split: option.splits pb_Sum.splits sum.splits)
    then obtain q where q: "pp = Some q" using ProposalFromProto_Some by blast
    then have "Message_ValidateBasic T sizeOf (IsProposal \<lparr>pmProposal = Some p\<rparr>) = Return None"
      using pp(2) proposal_wire.decode_valid [of T q p] by (simp add: ProposalMessage_ValidateBasic_def)
    moreover have "MsgFromProto T sizeOf (Some m) = Return (Inr (IsProposal \<lparr>pmProposal = Some p\<rparr>))"
      using pp q unfolding MsgFromProto_Inr by blast
    ultimately show ?thesis
      using handle_decoded [OF _ Some, of T sizeOf] OfProposal pp by (simp add: dispatch_def)
  next
    case (OfVote v)
    then obtain pv where pv: "Sum m = Some (Message_Vote pv)" "VoteFromProto T pv = Inr v"
      using Some by (auto simp: content_def split: option.splits pb_Sum.splits sum.splits)
    then obtain q where q: "pv = Some q" using VoteFromProto_Some by blast
    then have "Message_ValidateBasic T sizeOf (IsVote \<lparr>vmVote = Some v\<rparr>) = Return None"
      using pv(2) vote_wire.decode_valid [of T q v] by (simp add: VoteMessage_ValidateBasic_def)
    moreover have "MsgFromProto T sizeOf (Some m) = Return (Inr (IsVote \<lparr>vmVote = Some v\<rparr>))"
      using pv q unfolding MsgFromProto_Inr by blast
    ultimately show ?thesis
      using handle_decoded [OF _ Some, of T sizeOf] OfVote pv by (simp add: dispatch_def)
  qed
qed

lemma content_valid:
  "content T N data = OfVote v \<Longrightarrow> Vote_ValidateBasic T v = None"
  by (auto simp: content_def VoteFromProto_def Let_def split: option.splits pb_Sum.splits sum.splits)

section \<open>A node in a run\<close>

lemma run_round:
  assumes "agree_run T N sizeOf s c0 c ph" and "votable s"
  obtains r where "cRound c = Some r" "round_inv T (cId c0) s r" "cId c = cId c0"
  using agree_run_inv [OF assms] by (auto simp: node_inv_def)

lemma round_votes:
  assumes "round_inv T chainID s r" and "votable s" and "t \<in> {PrevoteType, PrecommitType}"
  obtains vs where "rVotes r t = Some vs" "votes_of T chainID t s vs" "vote_inv T vs"
    "vsChainID vs = chainID" "vsSignedMsgType vs = t" "members vs = Proposers s"
proof -
  have "t \<in> dom (rVotes r)" using assms(1,3) by (simp add: round_inv_def)
  then obtain vs where vs: "rVotes r t = Some vs" by blast
  then have v: "votes_of T chainID t s vs" using assms(1) by (simp add: round_inv_def)
  then have "vote_history T chainID t s vs" by (simp add: votes_of_def)
  from vote_history_inv [OF this assms(2)] show ?thesis using that vs v by blast
qed

lemma run_proposer:
  assumes "round_inv T chainID s r" and "proposer_of s = Return (Some v)"
  obtains r1 where "round_proposer r = Return (r1, v)" "rPropCh r1 = rPropCh r" "rVotes r1 = rVotes r"
    "rConcordId r1 = chainID"
proof -
  have "proposer_of (piSet (rValInfo r)) = Return (Some v)"
    using assms by (simp add: round_inv_def same_set_def)
  then obtain s' where "GetProposer (piSet (rValInfo r)) = Return (s', Some v)"
    by (auto simp: proposer_of_def)
  then have run: "round_proposer r = Return (r\<lparr>rValInfo := (rValInfo r)\<lparr>piSet := s'\<rparr>\<rparr>, v)"
    by (simp add: round_proposer_def)
  show ?thesis using that [OF run] assms(1) by (simp add: round_inv_def)
qed

text \<open>The canonical votes of a set that hold more than two thirds of the power.\<close>

definition quorum_for :: "'pk ProposerSet \<Rightarrow> 'pk VoteSet \<Rightarrow> DataHash \<Rightarrow> bool" where
  "quorum_for s vs h \<longleftrightarrow>
     power_sum (Proposers s) * 2 < 3 * validators.power (Proposers s) (voted_for (vsVotes vs) h)"

lemma quorum_majority:
  assumes "vote_inv T vs" and "members vs = Proposers s"
  shows "quorum_for s vs h \<longleftrightarrow> vsMaj23 vs = Some h"
  using majority_canonical [OF vote_invD(1) [OF assms(1)], of h] canonical_majority [OF assms(1), of h] assms(2)
  unfolding quorum_for_def validators.quorum_iff [symmetric] by metis

lemma Vote_select_quorum:
  assumes "round_inv T chainID s r" and "votable s" and "t \<in> {PrevoteType, PrecommitType}"
  obtains vs where "rVotes r t = Some vs" "votes_of T chainID t s vs" "vote_inv T vs"
    "\<And>h. quorum_for s vs h \<longleftrightarrow> vsMaj23 vs = Some h"
    "\<And>pick. Vote_select False pick t r = Return (if vsMaj23 vs = None then Blocks else Ready (Inr vs))"
proof -
  from round_votes [OF assms] obtain vs where vs: "rVotes r t = Some vs" "votes_of T chainID t s vs"
    "vote_inv T vs" "members vs = Proposers s" by metis
  have "vsDone vs \<longleftrightarrow> vsMaj23 vs \<noteq> None"
    using vs(2,3) core_invD(8) [OF vote_invD(1)] by (auto simp: votes_of_def unclaimed_def)
  then have "Vote_select False pick t r = Return (if vsMaj23 vs = None then Blocks else Ready (Inr vs))" for pick
    using vs(1) by (simp add: Vote_select_def)
  then show ?thesis using that vs quorum_majority [OF vs(3,4)] by blast
qed

section \<open>Going on\<close>

lemma not_blocked: "obind m (\<lambda>x. Return (Ready x)) \<noteq> Return Blocks"
  by (cases m) simp_all

text \<open>C5: when a waiting node goes on. In every run, a node that waits for votes, and is not
  cancelled, stays blocked exactly as long as no hash has more than two thirds of the power
  among the canonical votes it has received. One that waits for precommits then returns the
  commit for that hash, and does not panic.\<close>

theorem AgreeOn_progress:
  assumes "agree_run T N sizeOf s c0 c ph" and "votable s"
  shows "\<exists>r prevotes precommits. cRound c = Some r \<and> rVotes r PrevoteType = Some prevotes \<and>
    rVotes r PrecommitType = Some precommits \<and>
    (\<forall>data hash. ph = AwaitPrevotes data hash \<longrightarrow>
       (AgreeOn_resume T N False pick now ph c = Return Blocks \<longleftrightarrow> (\<nexists>h. quorum_for s prevotes h))) \<and>
    (\<forall>data hash. ph = AwaitPrecommits data hash \<longrightarrow>
       (AgreeOn_resume T N False pick now ph c = Return Blocks \<longleftrightarrow> (\<nexists>h. quorum_for s precommits h)) \<and>
       (\<forall>h. quorum_for s precommits h \<longrightarrow> (\<exists>commit. cmDataHash commit = h \<and>
          AgreeOn_resume T N False pick now ph c = Return (Ready (c, Agreed data commit)))))"
proof -
  obtain r where r: "cRound c = Some r" "round_inv T (cId c0) s r" using run_round [OF assms] .
  obtain vs1 where vs1: "rVotes r PrevoteType = Some vs1" "votes_of T (cId c0) PrevoteType s vs1" "vote_inv T vs1"
    "\<And>h. quorum_for s vs1 h \<longleftrightarrow> vsMaj23 vs1 = Some h"
    "\<And>pick. Vote_select False pick PrevoteType r = Return (if vsMaj23 vs1 = None then Blocks else Ready (Inr vs1))"
    by (rule Vote_select_quorum [OF r(2) assms(2), of PrevoteType], simp) (rule that)
  obtain vs2 where vs2: "rVotes r PrecommitType = Some vs2" "votes_of T (cId c0) PrecommitType s vs2" "vote_inv T vs2"
    "\<And>h. quorum_for s vs2 h \<longleftrightarrow> vsMaj23 vs2 = Some h"
    "\<And>pick. Vote_select False pick PrecommitType r = Return (if vsMaj23 vs2 = None then Blocks else Ready (Inr vs2))"
    by (rule Vote_select_quorum [OF r(2) assms(2), of PrecommitType], simp) (rule that)
  have prevotes: "AgreeOn_resume T N False pick now ph c = Return Blocks \<longleftrightarrow> (\<nexists>h. quorum_for s vs1 h)"
    if "ph = AwaitPrevotes data hash" for data hash
    unfolding vs1(4) that by (cases "vsMaj23 vs1") (simp_all add: AgreeOn_resume_def r(1) vs1(5) not_blocked)
  have "vsSignedMsgType vs2 = PrecommitType"
    using vote_history_inv [of T "cId c0" PrecommitType s vs2] assms(2) vs2(2) by (simp add: votes_of_def)
  then have made: "MakeCommit T vs2 = Return (made_commit T h vs2)" if "vsMaj23 vs2 = Some h" for h
    using MakeCommit_ok [OF vote_invD(1) [OF vs2(3)] _ that] by simp
  have ready: "\<exists>commit. cmDataHash commit = h \<and>
      AgreeOn_resume T N False pick now ph c = Return (Ready (c, Agreed data commit))"
    if "ph = AwaitPrecommits data hash" "vsMaj23 vs2 = Some h" for data hash h
    using that r(1) vs2(5) made [OF that(2)]
    by (intro exI [of _ "made_commit T h vs2"])
      (simp add: AgreeOn_resume_def got_precommits_def made_commit_def NewCommit_def)
  have precommits: "AgreeOn_resume T N False pick now ph c = Return Blocks \<longleftrightarrow> (\<nexists>h. quorum_for s vs2 h)"
    if "ph = AwaitPrecommits data hash" for data hash
  proof (cases "vsMaj23 vs2")
    case None
    then show ?thesis unfolding vs2(4) using that r(1) vs2(5) by (simp add: AgreeOn_resume_def)
  next
    case (Some h)
    then show ?thesis unfolding vs2(4) using ready [OF that Some] by auto
  qed
  show ?thesis
    by ((rule exI)+, intro conjI allI impI, rule r(1), rule vs1(1), rule vs2(1), erule prevotes, erule precommits,
        rule ready) (simp_all add: vs2(4))
qed

text \<open>A node that waits for precommits, with a quorum of them already received.\<close>

lemma sample_waiting:
  "\<exists>c. agree_run sample_tm sample_net (\<lambda>_. 0) sample_set sample_node c (AwaitPrecommits [7] [7])"
proof -
  have "run_node sample_tm sample_net sample_set sample_node 5 [7]
      [Deliver [0], Resume 5, Deliver [1], Resume 5] = Return (AwaitPrecommits [7] [7])" by code_simp
  then show ?thesis by (rule run_node_run)
qed

theorem AgreeOn_progress_witness:
  "\<exists>c precommits. agree_run sample_tm sample_net (\<lambda>_. 0) sample_set sample_node c (AwaitPrecommits [7] [7]) \<and>
    (AgreeOn_resume sample_tm sample_net False False 5 (AwaitPrecommits [7] [7]) c = Return Blocks \<longleftrightarrow>
      (\<nexists>h. quorum_for sample_set precommits h))"
proof -
  obtain c where run: "agree_run sample_tm sample_net (\<lambda>_. 0) sample_set sample_node c (AwaitPrecommits [7] [7])"
    using sample_waiting by blast
  from AgreeOn_progress [OF run sample_set_votable, of False 5] obtain precommits where
    "\<forall>data hash. AwaitPrecommits [7] [7] = AwaitPrecommits data hash \<longrightarrow>
      (AgreeOn_resume sample_tm sample_net False False 5 (AwaitPrecommits [7] [7]) c = Return Blocks \<longleftrightarrow>
        (\<nexists>h. quorum_for sample_set precommits h)) \<and>
      (\<forall>h. quorum_for sample_set precommits h \<longrightarrow> (\<exists>commit. cmDataHash commit = h \<and>
        AgreeOn_resume sample_tm sample_net False False 5 (AwaitPrecommits [7] [7]) c =
          Return (Ready (c, Agreed data commit))))" by (elim exE conjE) (rule that)
  with run show ?thesis by (intro exI [of _ c] exI [of _ precommits]) simp
qed

fun remaining :: "phase \<Rightarrow> nat" where
  "remaining AwaitProposal = 3"
| "remaining (AwaitPrevotes data hash) = 2"
| "remaining (AwaitPrecommits data hash) = 1"
| "remaining (Agreed data commit) = 0"
| "remaining (Failed e) = 0"

lemma cast_vote_remaining:
  "cast_vote T N now hash t ph r c = Return (c', ph') \<Longrightarrow> ph' = ph \<or> (\<exists>e. ph' = Failed e)"
  by (auto simp: cast_vote_def split: option.splits)

lemma resume_remaining:
  assumes "AgreeOn_resume T N ctxDone pick now ph c = Return (Ready (c', ph'))"
  shows "remaining ph' < remaining ph"
proof -
  obtain r where r: "cRound c = Some r" using assms by (auto simp: AgreeOn_resume_def split: option.splits)
  show ?thesis
  proof (cases ph)
    case AwaitProposal
    have "remaining ph' < 3"
    proof (cases "\<exists>r' data hash. cast_vote T N now hash PrevoteType (AwaitPrevotes data hash) r' c = Return (c', ph')")
      case True
      then show ?thesis by (auto dest: cast_vote_remaining)
    next
      case False
      then show ?thesis
        using assms r AwaitProposal
        by (auto simp: AgreeOn_resume_def got_proposal_def split: wait.splits sum.splits option.splits)
    qed
    then show ?thesis using AwaitProposal by simp
  next
    case (AwaitPrevotes data hash)
    then show ?thesis
      using assms r by (cases "rVotes r PrevoteType")
        (auto simp: AgreeOn_resume_def Vote_select_def dest: cast_vote_remaining split: if_splits)
  next
    case (AwaitPrecommits data hash)
    then show ?thesis
      using assms r by (cases "rVotes r PrecommitType")
        (auto simp: AgreeOn_resume_def Vote_select_def got_precommits_def split: if_splits)
  qed (use assms r in \<open>simp_all add: AgreeOn_resume_def\<close>)
qed

text \<open>C7: termination. Every part of \<open>AgreeOn\<close> that runs brings the call closer to its end, at most
  three parts after the first; once the context is cancelled no part blocks, so the call
  returns.\<close>

theorem AgreeOn_terminates:
  assumes "agree_run T N sizeOf s c0 c ph" and "votable s"
  shows "(AgreeOn_resume T N ctxDone pick now ph c = Return (Ready (c', ph')) \<longrightarrow> remaining ph' < remaining ph) \<and>
    (AgreeOn_resume T N True pick now ph c = Return Blocks \<longleftrightarrow> remaining ph = 0)"
proof (intro conjI impI)
  obtain r where r: "cRound c = Some r" "round_inv T (cId c0) s r" using run_round [OF assms] .
  have "\<exists>vs. rVotes r t = Some vs" if "t \<in> {PrevoteType, PrecommitType}" for t
    using round_votes [OF r(2) assms(2) that] by metis
  then obtain vs1 vs2 where "rVotes r PrevoteType = Some vs1" "rVotes r PrecommitType = Some vs2" by blast
  then show "AgreeOn_resume T N True pick now ph c = Return Blocks \<longleftrightarrow> remaining ph = 0"
    using r(1) by (cases ph; cases "rPropCh r")
      (simp_all add: AgreeOn_resume_def Propose_select_def Vote_select_def not_blocked)
qed (rule resume_remaining)

theorem AgreeOn_terminates_witness:
  "\<exists>c. AgreeOn_resume sample_tm sample_net True False 5 (AwaitPrecommits [7] [7]) c \<noteq> Return Blocks \<and>
    agree_run sample_tm sample_net (\<lambda>_. 0) sample_set sample_node c (AwaitPrecommits [7] [7])"
proof -
  obtain c where run: "agree_run sample_tm sample_net (\<lambda>_. 0) sample_set sample_node c (AwaitPrecommits [7] [7])"
    using sample_waiting by blast
  show ?thesis
    using AgreeOn_terminates [OF run sample_set_votable, of True False 5] run by auto
qed

section \<open>Deliveries\<close>

lemma incoming_proposal_eq:
  assumes "content T N data = OfProposal p" and "cRound c = Some r"
  shows "incoming T N sizeOf ctxDone pick data c =
    obind (rcvProposal T ctxDone pick p r) (\<lambda>(r', res). Return (c\<lparr>cRound := Some r'\<rparr>,
      case res of Blocks \<Rightarrow> Blocks | Ready None \<Rightarrow> Ready ValidationAccept | Ready (Some _) \<Rightarrow> Ready ValidationReject))"
proof -
  have run: "handle T N sizeOf ctxDone pick data c = with_round c (rcvProposal T ctxDone pick p)"
    using handle_content [of T N sizeOf ctxDone pick data c] assms(1) by simp
  show ?thesis
  proof (cases "rcvProposal T ctxDone pick p r")
    case (Return x)
    obtain r' res where "x = (r', res)" by fastforce
    then show ?thesis
      using run assms(2) Return
      by (cases res) (auto simp: incoming_verdict with_round_def split: option.split)
  qed (simp add: run assms(2) incoming_verdict with_round_def)
qed

lemma incoming_vote_eq:
  assumes "content T N data = OfVote v" and "cRound c = Some r"
  shows "incoming T N sizeOf ctxDone pick data c =
    obind (rcvVote T v r) (\<lambda>(r', err). Return (c\<lparr>cRound := Some r'\<rparr>,
      Ready (if err = None then ValidationAccept else ValidationReject)))"
proof -
  have run: "handle T N sizeOf ctxDone pick data c =
      with_round c (\<lambda>r. obind (rcvVote T v r) (\<lambda>(r', err). Return (r', Ready err)))"
    using handle_content [of T N sizeOf ctxDone pick data c] assms(1) by simp
  show ?thesis
  proof (cases "rcvVote T v r")
    case (Return x)
    obtain r' err where "x = (r', err)" by fastforce
    then show ?thesis
      using run assms(2) Return by (cases err) (simp_all add: incoming_verdict with_round_def)
  qed (simp add: run assms(2) incoming_verdict with_round_def)
qed

text \<open>C38: a proposal delivered during a run. It is forwarded exactly when the key of the set's
  proposer verifies it and no other proposal waits; a second one keeps the handler blocked
  until the context ends. The vote sets are untouched.\<close>

theorem incoming_proposal:
  assumes "agree_run T N sizeOf s c0 c ph" and "votable s" and "content T N data = OfProposal p"
    and "proposer_of s = Return (Some v)" and "PubKey v = Some k" and "proposal_checkable T (cId c0) p"
  shows "\<exists>r r' res. cRound c = Some r \<and>
    incoming T N sizeOf ctxDone pick data c = Return (c\<lparr>cRound := Some r'\<rparr>, res) \<and> rVotes r' = rVotes r \<and>
    (rPropCh r', res) =
      (if \<not> VerifySignature T k (proposal_bytes T (cId c0) p) (prSignature p)
       then (rPropCh r, Ready ValidationReject)
       else if rPropCh r = [] \<and> \<not> (ctxDone \<and> pick) then ([prData p], Ready ValidationAccept)
       else (rPropCh r, if ctxDone then Ready ValidationReject else Blocks))"
proof -
  obtain r where r: "cRound c = Some r" "round_inv T (cId c0) s r" using run_round [OF assms(1,2)] .
  obtain r1 where r1: "round_proposer r = Return (r1, v)" "rPropCh r1 = rPropCh r" "rVotes r1 = rVotes r"
    "rConcordId r1 = cId c0" using run_proposer [OF r(2) assms(4)] .
  have bz: "ProposalSignBytes T (cId c0) (Proposal_ToProto (Some p)) = Return (proposal_bytes T (cId c0) p)"
    using assms(6) unfolding ProposalSignBytes_eq by (simp add: proposal_checkable_def)
  note eq = incoming_proposal_eq [OF assms(3) r(1)]
  have len: "length (rPropCh r) < 1 \<longleftrightarrow> rPropCh r = []" by (cases "rPropCh r") simp_all
  show ?thesis
  proof (cases "VerifySignature T k (proposal_bytes T (cId c0) p) (prSignature p) \<and>
      rPropCh r = [] \<and> \<not> (ctxDone \<and> pick)")
    case True
    then show ?thesis
      using r(1) r1 bz assms(5) unfolding eq
      by (intro exI [of _ r] exI [of _ "r1\<lparr>rPropCh := [prData p]\<rparr>"] exI [of _ "Ready ValidationAccept"])
        (simp add: rcvProposal_def)
  next
    case False
    then show ?thesis
      using r(1) r1 bz assms(5) len unfolding eq
      by (intro exI [of _ r] exI [of _ r1] exI [of _ "if VerifySignature T k (proposal_bytes T (cId c0) p)
            (prSignature p) \<and> \<not> ctxDone then Blocks else Ready ValidationReject"])
        (auto simp: rcvProposal_def)
  qed
qed

lemma sample_contents:
  "content sample_tm sample_net [0] = OfProposal sample_offer"
  "content sample_tm sample_net [2] = OfVote (sample_signed [2] 0 PrecommitType [7])"
  by code_simp+

lemma sample_proposer:
  "proposer_of sample_set = Return (Some (Proposers sample_set ! 1))" "PubKey (Proposers sample_set ! 1) = Some [1]"
  by code_simp+

lemma sample_offer_checkable: "proposal_checkable sample_tm (cId sample_node) sample_offer"
  by code_simp

theorem incoming_proposal_witness:
  "\<exists>c c' res. agree_run sample_tm sample_net (\<lambda>_. 0) sample_set sample_node c AwaitProposal \<and>
    incoming sample_tm sample_net (\<lambda>_. 0) False False [0] c = Return (c', res) \<and> res \<noteq> Ready ValidationReject"
proof -
  have "run_node sample_tm sample_net sample_set sample_node 5 [7] [] = Return AwaitProposal" by code_simp
  then obtain c where run: "agree_run sample_tm sample_net (\<lambda>_. 0) sample_set sample_node c AwaitProposal"
    using run_node_run by blast
  have sig: "VerifySignature sample_tm [1] (proposal_bytes sample_tm (cId sample_node) sample_offer)
    (prSignature sample_offer)" by code_simp
  show ?thesis
    using incoming_proposal [OF run sample_set_votable sample_contents(1) sample_proposer sample_offer_checkable,
        of False False] run sig
    by (elim exE conjE) (intro exI conjI, assumption, assumption, simp split: if_splits)
qed

text \<open>C39: a vote delivered during a run. Only the vote set of its type changes, and the vote is
  forwarded exactly when it is the stored vote of its validator again, or a verified vote of
  one that has not voted yet. A second vote for another hash is not forwarded.\<close>

theorem incoming_vote:
  assumes "agree_run T N sizeOf s c0 c ph" and "votable s" and "\<forall>v \<in> set (Proposers s). PubKey v \<noteq> None"
    and "content T N data = OfVote v" and "marshals T (cId c0) v"
  shows "\<exists>r vs vs'. cRound c = Some r \<and> rVotes r (vType v) = Some vs \<and>
    incoming T N sizeOf ctxDone pick data c =
      Return (c\<lparr>cRound := Some (r\<lparr>rVotes := (rVotes r)(vType v \<mapsto> vs')\<rparr>)\<rparr>,
        Ready (if addressed vs v (slot v) \<and>
            (case known_vote vs (slot v) (vDataHash v) of
               Some e \<Rightarrow> vSignature e = vSignature v
             | None \<Rightarrow> authentic T vs (slot v) v \<and> vsVotes vs ! slot v = None)
          then ValidationAccept else ValidationReject))"
proof -
  obtain r where r: "cRound c = Some r" "round_inv T (cId c0) s r" using run_round [OF assms(1,2)] .
  have valid: "IsVoteTypeValid (vType v)" "hash_ok T (vDataHash v)"
    using content_valid [OF assms(4)] by (simp_all add: Vote_ValidateBasic_ok)
  then have t: "vType v \<in> {PrevoteType, PrecommitType}" by (auto simp: IsVoteTypeValid_def split: if_splits)
  obtain vs where vs: "rVotes r (vType v) = Some vs" "votes_of T (cId c0) (vType v) s vs" "vote_inv T vs"
    "vsChainID vs = cId c0" "vsSignedMsgType vs = vType v" "members vs = Proposers s"
    using round_votes [OF r(2) assms(2) t] .
  have ok: "keys_set vs" "checkable T vs v"
    using vs(4,6) assms(3,5) valid(2) by (simp_all add: keys_set_def checkable_def)
  have hist: "vote_history T (cId c0) (vType v) s vs" using vs(2) by (simp add: votes_of_def)
  from AddVote_cases [OF hist assms(2) ok] obtain vs' added err where
    add: "VoteSet_AddVote T (Some v) (Some vs) = Return (vs', added, err)" and
    res: "if \<not> (\<exists>i. addressed vs v i) then vs' = vs \<and> \<not> added \<and> err \<noteq> None
     else let i = slot v in
       case known_vote vs i (vDataHash v) of
         Some e \<Rightarrow> vs' = vs \<and> \<not> added \<and>
           err = (if vSignature e = vSignature v then None else Some ErrVoteNonDeterministicSignature)
       | None \<Rightarrow>
           if \<not> authentic T vs i v then vs' = vs \<and> \<not> added \<and> err \<noteq> None
           else err = map_option (\<lambda>e. ErrVoteConflictingVotes e v) (vsVotes vs ! i) \<and>
             (vsVotes vs ! i = None \<longrightarrow> added \<and> (vsMaj23 vs' \<noteq> None \<longrightarrow> vsDone vs'))"
    by (elim exE conjE) (rule that)
  have "addressed vs v i \<Longrightarrow> i = slot v" for i by (simp add: addressed_def)
  then have "(\<exists>i. addressed vs v i) \<longleftrightarrow> addressed vs v (slot v)" by blast
  then have err: "err = None \<longleftrightarrow> addressed vs v (slot v) \<and>
      (case known_vote vs (slot v) (vDataHash v) of
         Some e \<Rightarrow> vSignature e = vSignature v
       | None \<Rightarrow> authentic T vs (slot v) v \<and> vsVotes vs ! slot v = None)"
    using res by (cases "known_vote vs (slot v) (vDataHash v)") (simp_all add: Let_def split: if_splits)
  have "rcvVote T v r = Return (r\<lparr>rVotes := (rVotes r)(vType v \<mapsto> vs')\<rparr>, map_option ErrRcvVote err)"
    using vs(1) add by (simp add: rcvVote_def)
  then have "incoming T N sizeOf ctxDone pick data c =
      Return (c\<lparr>cRound := Some (r\<lparr>rVotes := (rVotes r)(vType v \<mapsto> vs')\<rparr>)\<rparr>,
        Ready (if err = None then ValidationAccept else ValidationReject))"
    by (simp add: incoming_vote_eq [OF assms(4) r(1)])
  then show ?thesis unfolding err using r(1) vs(1) by (intro exI conjI)
qed

theorem incoming_vote_witness:
  "\<exists>c c' res. agree_run sample_tm sample_net (\<lambda>_. 0) sample_set sample_node c (AwaitPrecommits [7] [7]) \<and>
    incoming sample_tm sample_net (\<lambda>_. 0) False False [2] c = Return (c', Ready res)"
proof -
  obtain c where run: "agree_run sample_tm sample_net (\<lambda>_. 0) sample_set sample_node c (AwaitPrecommits [7] [7])"
    using sample_waiting by blast
  have "marshals sample_tm (cId sample_node) (sample_signed [2] 0 PrecommitType [7])" by code_simp
  from incoming_vote [OF run sample_set_votable sample_facts(1) sample_contents(2) this, of False False] run
  show ?thesis by (elim exE conjE) (intro exI conjI, assumption, assumption)
qed

text \<open>C40: what a message of a peer can break. Anything that does not decode to a valid proposal or
  vote is rejected and changes nothing. But a valid message that arrives before the first
  call of \<open>AgreeOn\<close> dereferences the missing round, and a valid proposal whose data is neither
  empty nor as long as a hash panics before its signature is looked at.\<close>

theorem incoming_crashes:
  "(content T N data = NoContent \<longrightarrow>
      incoming T N sizeOf ctxDone pick data c = Return (c, Ready ValidationReject)) \<and>
   (content T N data \<noteq> NoContent \<and> cRound c = None \<longrightarrow>
      incoming T N sizeOf ctxDone pick data c = Panic NilDereference) \<and>
   (content T N data = OfProposal p \<and> \<not> hash_ok T \<lparr>Hash = prData p\<rparr> \<and>
      agree_run T N sizeOf s c0 c ph \<and> votable s \<and> proposer_of s = Return (Some v) \<longrightarrow>
      incoming T N sizeOf ctxDone pick data c = Panic PanicDataHash)"
proof (intro conjI impI; (elim conjE)?)
  assume "content T N data = NoContent"
  then show "incoming T N sizeOf ctxDone pick data c = Return (c, Ready ValidationReject)"
    using handle_content [of T N sizeOf ctxDone pick data c] by (auto simp: incoming_verdict)
next
  assume "content T N data \<noteq> NoContent" "cRound c = None"
  then show "incoming T N sizeOf ctxDone pick data c = Panic NilDereference"
    using handle_content [of T N sizeOf ctxDone pick data c]
    by (cases "content T N data") (auto simp: incoming_verdict with_round_def)
next
  assume a: "content T N data = OfProposal p" "\<not> hash_ok T \<lparr>Hash = prData p\<rparr>"
    "agree_run T N sizeOf s c0 c ph" "votable s" "proposer_of s = Return (Some v)"
  obtain r where r: "cRound c = Some r" "round_inv T (cId c0) s r" using run_round [OF a(3,4)] .
  obtain r1 where r1: "round_proposer r = Return (r1, v)" using run_proposer [OF r(2) a(5)] .
  have "ProposalSignBytes T chainID (Proposal_ToProto (Some p)) = Panic PanicDataHash" for chainID
    using a(2) unfolding ProposalSignBytes_eq by simp
  then show "incoming T N sizeOf ctxDone pick data c = Panic PanicDataHash"
    by (simp add: incoming_proposal_eq [OF a(1) r(1)] rcvProposal_def r1)
qed

definition crash_net :: net where
  "crash_net = sample_net\<lparr>Unmarshal := \<lambda>d. Some \<lparr>Sum = Some (Message_Proposal
     (Some (Proposal_ToProto (Some (sample_offer\<lparr>prData := [7, 7]\<rparr>)))))\<rparr>\<rparr>"

theorem incoming_crashes_witness:
  "\<exists>c. agree_run sample_tm crash_net (\<lambda>_. 0) sample_set sample_node c AwaitProposal \<and>
    incoming sample_tm crash_net (\<lambda>_. 0) False False [] c = Panic PanicDataHash"
proof -
  have "run_node sample_tm crash_net sample_set sample_node 5 [7] [] = Return AwaitProposal" by code_simp
  then obtain c where run: "agree_run sample_tm crash_net (\<lambda>_. 0) sample_set sample_node c AwaitProposal"
    using run_node_run by blast
  have c: "content sample_tm crash_net [] = OfProposal (sample_offer\<lparr>prData := [7, 7]\<rparr>)" by code_simp
  have "\<not> hash_ok sample_tm \<lparr>Hash = prData (sample_offer\<lparr>prData := [7, 7]\<rparr>)\<rparr>" by code_simp
  then show ?thesis
    using run c sample_set_votable sample_proposer(1)
      incoming_crashes [of sample_tm crash_net "[]" "\<lambda>_. 0" False False c "sample_offer\<lparr>prData := [7, 7]\<rparr>"
        sample_set sample_node AwaitProposal] by blast
qed

end
