(* ===== verification/Con_Honest.thy ===== *)
theory Con_Honest
  imports Con_AgreeSafety
begin

text \<open>
  Honest nodes. What a node publishes in a run, whatever it receives: at most one precommitted
  hash. With that, less than a third of faulty power cannot make two nodes disagree.
\<close>

section \<open>What a node publishes\<close>

text \<open>Unmarshalling inverts marshalling.\<close>

definition faithful :: "net \<Rightarrow> bool" where
  "faithful N \<longleftrightarrow> (\<forall>m bz. Marshal N m = Some bz \<longrightarrow> Unmarshal N bz = Some m)"

text \<open>The hashes of the precommits in a log of published messages.\<close>

definition precommit_of :: "net \<Rightarrow> bytes \<Rightarrow> DataHash option" where
  "precommit_of N bz =
     (case Unmarshal N bz of
        Some m \<Rightarrow>
          (case Sum m of
             Some (Message_Vote (Some pv)) \<Rightarrow>
               if pvType pv = PrecommitType then Some \<lparr>Hash = pbHash (pvDataHash pv)\<rparr> else None
           | _ \<Rightarrow> None)
      | None \<Rightarrow> None)"

definition precommitted :: "net \<Rightarrow> 'pk round \<Rightarrow> DataHash set" where
  "precommitted N r = {h. \<exists>bz \<in> set (rTopic r). precommit_of N bz = Some h}"

lemma publish_log:
  assumes "faithful N" and "publish N m r = (r', e)"
  shows "precommitted N r' \<subseteq> precommitted N r \<union>
    (case m of ProtoVote pv \<Rightarrow> if pvType pv = PrecommitType then {\<lparr>Hash = pbHash (pvDataHash pv)\<rparr>} else {} | _ \<Rightarrow> {})"
proof (cases "encodeMsg N m")
  case (Inl err)
  then show ?thesis using assms(2) by (simp add: publish_def)
next
  case (Inr bin)
  then obtain s where s: "Marshal N \<lparr>Sum = Some s\<rparr> = Some bin"
    "case m of ProtoProposal t \<Rightarrow> s = Message_Proposal (Some t) | ProtoVote t \<Rightarrow> s = Message_Vote (Some t)
     | ProtoOther \<Rightarrow> False"
    by (cases m) (auto simp: encodeMsg_def split: option.splits)
  then have "Unmarshal N bin = Some \<lparr>Sum = Some s\<rparr>" using assms(1) by (simp add: faithful_def)
  then have "precommit_of N bin = (case m of
      ProtoVote pv \<Rightarrow> if pvType pv = PrecommitType then Some \<lparr>Hash = pbHash (pvDataHash pv)\<rparr> else None | _ \<Rightarrow> None)"
    using s(2) by (cases m) (simp_all add: precommit_of_def)
  moreover have "rTopic r' = rTopic r \<or> rTopic r' = rTopic r @ [bin]"
    using assms(2) Inr by (auto simp: publish_def split: if_splits)
  ultimately show ?thesis by (cases m) (auto simp: precommitted_def split: if_splits)
qed

section \<open>The log of a run\<close>

text \<open>A node of the validator \<open>p\<close> has published no precommit before it waits for precommits, and
  then precommits for one hash only.\<close>

definition at_most_one :: "'a set \<Rightarrow> bool" where
  "at_most_one L \<longleftrightarrow> (\<forall>x \<in> L. \<forall>y \<in> L. x = y)"

lemma at_most_one_empty [simp]: "at_most_one {}"
  by (simp add: at_most_one_def)

lemma at_most_one_sub: "L \<subseteq> {x} \<Longrightarrow> at_most_one L"
  by (auto simp: at_most_one_def)

fun log_for :: "phase \<Rightarrow> DataHash set \<Rightarrow> bool" where
  "log_for AwaitProposal L \<longleftrightarrow> L = {}"
| "log_for (AwaitPrevotes data hash) L \<longleftrightarrow> L = {}"
| "log_for (AwaitPrecommits data hash) L \<longleftrightarrow> at_most_one L"
| "log_for (Agreed data commit) L \<longleftrightarrow> at_most_one L"
| "log_for (Failed e) L \<longleftrightarrow> at_most_one L"

definition log_ok :: "net \<Rightarrow> 'pk PrivProposer \<Rightarrow> 'pk concord \<Rightarrow> phase \<Rightarrow> bool" where
  "log_ok N p c ph \<longleftrightarrow>
     (\<exists>r. cRound c = Some r \<and> piSelf (rValInfo r) = p \<and> log_for ph (precommitted N r))"

lemma log_okI: "piSelf (rValInfo r) = p \<Longrightarrow> log_for ph (precommitted N r) \<Longrightarrow> log_ok N p (c\<lparr>cRound := Some r\<rparr>) ph"
  by (simp add: log_ok_def)

lemma log_for_one: "log_for ph L \<Longrightarrow> at_most_one L"
  by (cases ph) simp_all

definition quiet :: "'pk round \<Rightarrow> 'pk round \<Rightarrow> bool" where
  "quiet r r' \<longleftrightarrow> rTopic r' = rTopic r \<and> piSelf (rValInfo r') = piSelf (rValInfo r)"

lemma quiet_log: "quiet r r' \<Longrightarrow> precommitted N r' = precommitted N r"
  by (simp add: quiet_def precommitted_def)

lemma round_proposer_quiet:
  assumes "round_proposer r = Return (r', p)"
  shows "quiet r r'"
proof -
  obtain s' where "r' = r\<lparr>rValInfo := (rValInfo r)\<lparr>piSet := s'\<rparr>\<rparr>"
    using assms by (auto simp: round_proposer_def split: option.splits)
  then show ?thesis by (simp add: quiet_def)
qed

lemma delivers_quiet:
  assumes "delivers T ctxDone pick r r'"
  shows "quiet r r'"
  using assms unfolding delivers_def
proof (elim disjE exE)
  fix pr w assume run: "rcvProposal T ctxDone pick pr r = Return (r', w)"
  then obtain r1 p where p: "round_proposer r = Return (r1, p)" by (auto simp: rcvProposal_def)
  have "rTopic r' = rTopic r1 \<and> rValInfo r' = rValInfo r1"
    using run p by (auto simp: rcvProposal_def split: option.splits if_splits)
  then show ?thesis using round_proposer_quiet [OF p] by (simp add: quiet_def)
next
  fix v w assume "rcvVote T v r = Return (r', w)"
  then show ?thesis by (auto simp: rcvVote_def quiet_def)
qed

lemma incoming_log:
  assumes "log_ok N p c ph" and "incoming T N sizeOf ctxDone pick data c = Return (c', res)"
  shows "log_ok N p c' ph"
  using incoming_cases [OF assms(2)]
proof (elim disjE exE conjE)
  fix r r' assume r: "cRound c = Some r" "c' = c\<lparr>cRound := Some r'\<rparr>" "delivers T ctxDone pick r r'"
  note q = delivers_quiet [OF r(3)]
  show ?thesis using assms(1) r(1,2) q quiet_log [OF q, of N] by (simp add: quiet_def log_ok_def)
qed (use assms(1) in simp)

lemma begin_log:
  assumes "faithful N" and "AgreeOn_begin T N now data (Some s) c0 = Return (c, ph)"
  shows "log_ok N (cSelf c0) c ph"
proof -
  obtain index r err where b: "Propose_begin T N now data (newRound 0 (cId c0) []
      \<lparr>piSet = s, piSelf = cSelf c0, piSelfIndex = wrap32 index, piSelfPK = cSelfPK c0\<rparr>) = Return (r, err)"
    "c = c0\<lparr>cRound := Some r\<rparr>"
    "ph = (case err of None \<Rightarrow> AwaitProposal | Some e \<Rightarrow> Failed (ErrAgreeRound e))"
    using assms(2) by (auto simp: AgreeOn_begin_def Let_def split: if_splits)
  let ?r = "newRound 0 (cId c0) []
      \<lparr>piSet = s, piSelf = cSelf c0, piSelfIndex = wrap32 index, piSelfPK = cSelfPK c0\<rparr>"
  obtain r1 p where p: "round_proposer ?r = Return (r1, p)"
    and rest: "(if Address p = PubKey_Address T (piSelfPK (rValInfo r1)) then propose N now data r1
      else Return (r1, None)) = Return (r, err)"
    using b(1) by (auto simp: Propose_begin_def isProposer_def)
  have q: "precommitted N r1 = {}" "piSelf (rValInfo r1) = cSelf c0"
    using round_proposer_quiet [OF p] by (simp_all add: quiet_def precommitted_def newRound_def)
  have "precommitted N r = {} \<and> piSelf (rValInfo r) = cSelf c0"
  proof (cases "r = r1")
    case False
    then obtain q where pub: "publish N (ProtoProposal q) r1 = (r, err)"
      using rest by (auto simp: propose_def Let_def split: if_splits option.splits)
    then have "rValInfo r = rValInfo r1" by (auto simp: publish_def split: sum.splits if_splits)
    then show ?thesis using publish_log [OF assms(1) pub] q by simp
  qed (use q in simp)
  then have "log_for ph (precommitted N r)" "piSelf (rValInfo r) = cSelf c0" using b(3) by (cases err; simp)+
  then show ?thesis unfolding b(2) by (intro log_okI)
qed

context signer begin

text \<open>A vote of an honest signer adds at most a precommit for its hash to the log.\<close>

lemma vote_log:
  assumes "honest p" and "GetPubKey (priv p) = Some k" and "piSelf (rValInfo r) = priv p" and "faithful N"
    and "vote T N now hash t r = Return (r', e)"
  shows "precommitted N r' \<subseteq> precommitted N r \<union> (if t = PrecommitType then {\<lparr>Hash = hash\<rparr>} else {}) \<and>
    piSelf (rValInfo r') = priv p"
  using assms(5)
proof (cases rule: vote_cases)
  case 1
  then show ?thesis using assms(3) by simp
next
  case (2 v v')
  have "pvType (vote_pb v) = t" "pvDataHash (vote_pb v) = \<lparr>pbHash = hash\<rparr>"
    using 2(1,2) by (simp_all add: Vote_ToProto_def DataHash_ToProto_def)
  moreover obtain sig where "v' = (vote_pb v)\<lparr>pvSignature := sig\<rparr>"
    using vote_signed [OF assms(1,2), of "rConcordId r" "vote_pb v" v'] 2(3) assms(3) by auto
  moreover have "rValInfo r' = rValInfo r"
    using 2(4) by (auto simp: publish_def split: sum.splits if_splits)
  ultimately show ?thesis using publish_log [OF assms(4) 2(4)] assms(3) by (auto split: if_splits)
qed

lemma cast_vote_log:
  assumes "honest p" and "GetPubKey (priv p) = Some k" and "faithful N" and "piSelf (rValInfo r) = priv p"
    and "precommitted N r = {}" and "cast_vote T N now hash t ph r c = Return (c', ph')"
    and "ph = (if t = PrecommitType then AwaitPrecommits data hash else AwaitPrevotes data hash)"
  shows "log_ok N (priv p) c' ph'"
proof -
  obtain r' err where v: "vote T N now hash t r = Return (r', err)" "c' = c\<lparr>cRound := Some r'\<rparr>"
    "ph' = (case err of None \<Rightarrow> ph | Some e \<Rightarrow> Failed (ErrAgreeRound e))"
    using assms(6) by (auto simp: cast_vote_def)
  note l = vote_log [OF assms(1,2,4,3) v(1)]
  then have "precommitted N r' \<subseteq> {\<lparr>Hash = hash\<rparr>}" "t \<noteq> PrecommitType \<Longrightarrow> precommitted N r' = {}"
    using assms(5) by (auto split: if_splits)
  then have "log_for ph' (precommitted N r')" using v(3) assms(7) at_most_one_sub by (cases err) auto
  then show ?thesis using l unfolding v(2) by (intro log_okI) simp_all
qed

lemma resume_proposal_log:
  assumes h: "honest p" "GetPubKey (priv p) = Some k" "faithful N"
    and r: "cRound c = Some r" "piSelf (rValInfo r) = priv p" and none: "precommitted N r = {}"
    and run: "AgreeOn_resume T N ctxDone pick now AwaitProposal c = Return (Ready (c', ph'))"
  shows "log_ok N (priv p) c' ph'"
proof -
  obtain r' res where sel: "Propose_select ctxDone pick r = Ready (r', res)"
    using run r(1) by (cases "Propose_select ctxDone pick r") (auto simp: AgreeOn_resume_def)
  then have q: "quiet r r'" by (auto simp: Propose_select_def quiet_def split: list.splits if_splits)
  note l = quiet_log [OF q, of N] q [unfolded quiet_def] none r(2)
  show ?thesis
  proof (cases res)
    case (Inl e)
    then show ?thesis using run r(1) sel l by (auto simp: AgreeOn_resume_def intro!: log_okI)
  next
    case (Inr pr)
    then have g: "got_proposal T N now pr r' c = Return (c', ph')"
      using run r(1) sel by (simp add: AgreeOn_resume_def)
    show ?thesis
    proof (cases "cValidate c pr")
      case None
      then show ?thesis using g l by (auto simp: got_proposal_def intro!: log_okI)
    next
      case (Some hash)
      then have "cast_vote T N now hash PrevoteType (AwaitPrevotes pr hash) r' c = Return (c', ph')"
        using g by (simp add: got_proposal_def)
      from cast_vote_log [OF h _ _ this] show ?thesis using l by (simp add: msg_type_defs)
    qed
  qed
qed

lemma resume_log:
  assumes h: "honest p" "GetPubKey (priv p) = Some k" "faithful N" and ok: "log_ok N (priv p) c ph"
    and run: "AgreeOn_resume T N ctxDone pick now ph c = Return (Ready (c', ph'))"
  shows "log_ok N (priv p) c' ph'"
proof -
  obtain r where r: "cRound c = Some r" "piSelf (rValInfo r) = priv p" "log_for ph (precommitted N r)"
    using ok by (auto simp: log_ok_def)
  show ?thesis
  proof (cases ph)
    case AwaitProposal
    then show ?thesis using run r(3) by (intro resume_proposal_log [OF h r(1,2)]) simp_all
  next
    case (AwaitPrevotes data hash)
    then have none: "precommitted N r = {}" using r(3) by simp
    have "(c' = c \<and> (\<exists>e. ph' = Failed e)) \<or>
        cast_vote T N now hash PrecommitType (AwaitPrecommits data hash) r c = Return (c', ph')"
      using run r(1) AwaitPrevotes
      by (cases "rVotes r PrevoteType") (auto simp: AgreeOn_resume_def Vote_select_def split: if_splits)
    then show ?thesis
    proof (elim disjE conjE exE)
      assume "cast_vote T N now hash PrecommitType (AwaitPrecommits data hash) r c = Return (c', ph')"
      from cast_vote_log [OF h r(2) none this] show ?thesis by simp
    qed (use r none in \<open>auto simp: log_ok_def\<close>)
  next
    case (AwaitPrecommits data hash)
    then have one: "at_most_one (precommitted N r)" using r(3) by simp
    have "c' = c \<and> ((\<exists>e. ph' = Failed e) \<or> (\<exists>commit. ph' = Agreed data commit))"
      using run r(1) AwaitPrecommits
      by (cases "rVotes r PrecommitType")
        (auto simp: AgreeOn_resume_def Vote_select_def got_precommits_def split: if_splits)
    then show ?thesis using one r(1,2) by (auto simp: log_ok_def)
  qed (use run r(1) in \<open>simp_all add: AgreeOn_resume_def\<close>)
qed

text \<open>An honest node precommits at most one hash.\<close>

lemma run_log:
  assumes "agree_run T N sizeOf s c0 c ph" and "honest p" "cSelf c0 = priv p" "GetPubKey (priv p) = Some k"
    and "faithful N"
  shows "log_ok N (priv p) c ph"
  using assms(1)
proof (induction rule: agree_run.induct)
  case (begun now pr c ph)
  then show ?case using begin_log [OF assms(5)] assms(3) by metis
next
  case (resumed c ph ctxDone pick now c' ph')
  then show ?case using resume_log [OF assms(2,4,5)] by blast
next
  case (received c ph ctxDone pick data c' res)
  then show ?case using incoming_log by blast
qed

end

section \<open>Agreement under a third of faulty power\<close>

text \<open>
  A validator is an honest voter, as far as the votes \<open>E\<close> go: its node runs the program with
  a working signer, and every precommit in \<open>E\<close> that its key verifies was published by the node.
\<close>

definition honest_voter :: "'pk tm \<Rightarrow> ('sk, 'pk) PrivKeys \<Rightarrow> bytes \<Rightarrow> Vote set \<Rightarrow> 'pk Proposer \<Rightarrow> bool" where
  "honest_voter T K chainID E val \<longleftrightarrow>
     (\<exists>N sizeOf s c0 c ph pv r. agree_run T N sizeOf s c0 c ph \<and> faithful N \<and> cSelf c0 = mock T K pv \<and>
        \<not> breakVoteSigning pv \<and> PubKey val = Some (PrivKey_PubKey K (PrivKey pv)) \<and> cRound c = Some r \<and>
        (\<forall>v \<in> E. vType v = PrecommitType \<and> signed_by T chainID (PrivKey_PubKey K (PrivKey pv)) v \<longrightarrow>
           vDataHash v \<in> precommitted N r))"

lemma honest_voter_single:
  assumes "keys_sound T K" and "honest_voter T K chainID E val"
    and "signs T chainID PrecommitType h1 E val" and "signs T chainID PrecommitType h2 E val"
  shows "h1 = h2"
proof -
  obtain N sizeOf s c0 c ph pv r where
    h: "agree_run T N sizeOf s c0 c ph" "faithful N" "cSelf c0 = mock T K pv" "\<not> breakVoteSigning pv"
      "PubKey val = Some (PrivKey_PubKey K (PrivKey pv))" "cRound c = Some r"
      "\<forall>v \<in> E. vType v = PrecommitType \<and> signed_by T chainID (PrivKey_PubKey K (PrivKey pv)) v \<longrightarrow>
         vDataHash v \<in> precommitted N r"
    using assms(2) unfolding honest_voter_def by (elim exE conjE) (rule that)
  have key: "GetPubKey (mock T K pv) = Some (PrivKey_PubKey K (PrivKey pv))"
    by (simp add: mock_def MockPV_GetPubKey_def)
  have "log_ok N (mock T K pv) c ph"
    using assms(1) h(4) by (intro mock.run_log [OF h(1) _ h(3) key h(2)]) simp
  then have "at_most_one (precommitted N r)" using h(6) log_for_one by (auto simp: log_ok_def)
  moreover have "h1 \<in> precommitted N r" "h2 \<in> precommitted N r"
    using assms(3,4) h(5,7) by (auto simp: signs_def)
  ultimately show ?thesis unfolding at_most_one_def by blast
qed

lemma signs_mono: "signs T chainID t h E val \<Longrightarrow> E \<subseteq> F \<Longrightarrow> signs T chainID t h F val"
  by (auto simp: signs_def)

text \<open>C2: agreement. If validators with at most a third of the power are not honest voters, any two
  nodes that return commits on the same validators return them for the same hash, whatever the
  others send and in whatever order anything is delivered.\<close>

theorem honest_agreement:
  assumes "agree_run T N1 sizeOf1 s1 n1 c1 (Agreed data1 commit1)"
    and "agree_run T N2 sizeOf2 s2 n2 c2 (Agreed data2 commit2)"
    and "votable s1" and "votable s2" and "Proposers s1 = Proposers s2" and "cId n1 = cId n2"
    and "keys_sound T K"
    and "3 * validators.power (Proposers s1) ({..<length (Proposers s1)} - H) \<le> power_sum (Proposers s1)"
    and "\<And>i. i \<in> H \<Longrightarrow>
      honest_voter T K (cId n1) (commit_votes commit1 \<union> commit_votes commit2) (Proposers s1 ! i)"
  shows "cmDataHash commit1 = cmDataHash commit2"
proof -
  let ?vals = "Proposers s1" and ?E = "commit_votes commit1 \<union> commit_votes commit2"
  obtain A where A: "A \<subseteq> {..<length ?vals}" "power_sum ?vals < 3 * validators.power ?vals A"
    "\<And>i. i \<in> A \<Longrightarrow> signs T (cId n1) PrecommitType (cmDataHash commit1) (commit_votes commit1) (?vals ! i) \<and>
      signs T (cId n1) PrecommitType (cmDataHash commit2) (commit_votes commit2) (?vals ! i)"
    using agreed_double_sign [OF assms(1-6)] unfolding double_signers_def fst_conv snd_conv by blast
  have "\<not> A \<subseteq> {..<length ?vals} - H"
  proof
    assume "A \<subseteq> {..<length ?vals} - H"
    then have "validators.power ?vals A \<le> validators.power ?vals ({..<length ?vals} - H)"
      using assms(3) by (intro validators.power_mono) (auto simp: votable_def)
    then show False using A(2) assms(8) by linarith
  qed
  then obtain i where i: "i \<in> A" "i \<in> H" using A(1) by blast
  then have "signs T (cId n1) PrecommitType (cmDataHash commit1) ?E (?vals ! i)"
    "signs T (cId n1) PrecommitType (cmDataHash commit2) ?E (?vals ! i)"
    using A(3) [OF i(1)] signs_mono by blast+
  then show ?thesis by (rule honest_voter_single [OF assms(7) assms(9) [OF i(2)]])
qed

text \<open>The strong node is honest; the other one collects both precommits.\<close>

definition sample_weak :: "bytes concord" where
  "sample_weak =
     \<lparr>cId = [9], cRound = None, cValidate = (\<lambda>d. Some d), cSelf = sample_priv [1], cSelfPK = [1]\<rparr>"

definition both_commit :: Commit where
  "both_commit = NewCommit \<lparr>Hash = [7]\<rparr>
     [NewCommitSigForBlock (vSignature (sample_vote [2] 0 [7])) [2] 5,
      NewCommitSigForBlock (vSignature (sample_vote [1] 1 [7])) [1] 5]"

definition run_logged :: "'pk tm \<Rightarrow> net \<Rightarrow> 'pk ProposerSet \<Rightarrow> 'pk concord \<Rightarrow> time \<Rightarrow> bytes \<Rightarrow> event list \<Rightarrow>
    (phase \<times> bytes list option) outcome" where
  "run_logged T N s c0 now data es =
     obind (AgreeOn_begin T N now data (Some s) c0) (\<lambda>st.
     obind (run_events T N (\<lambda>_. 0) es st) (\<lambda>(c, ph). Return (ph, map_option rTopic (cRound c))))"

lemma run_logged_run:
  assumes "run_logged T N s c0 now data es = Return (ph, Some log)"
  shows "\<exists>c r. agree_run T N (\<lambda>_. 0) s c0 c ph \<and> cRound c = Some r \<and> rTopic r = log"
proof -
  obtain c1 ph1 c where "AgreeOn_begin T N now data (Some s) c0 = Return (c1, ph1)"
    "run_events T N (\<lambda>_. 0) es (c1, ph1) = Return (c, ph)" "map_option rTopic (cRound c) = Some log"
    using assms by (auto simp: run_logged_def)
  moreover from this have "agree_run T N (\<lambda>_. 0) s c0 c ph"
    by (intro run_events_run [OF _ agree_run.begun])
  ultimately show ?thesis by (cases "cRound c") auto
qed

lemma sample_logs:
  "run_logged sample_tm sample_net sample_set sample_node 5 [7]
     [Deliver [0], Resume 5, Deliver [1], Resume 5, Deliver [2], Resume 5] =
     Return (Agreed [7] (strong_commit 7), Some [[1], [2]])"
  "run_logged sample_tm sample_net sample_set sample_weak 5 [7]
     [Deliver [0], Resume 5, Deliver [1], Resume 5, Deliver [5], Deliver [2], Resume 5] =
     Return (Agreed [7] both_commit, Some [[0], [4], [5]])"
  by code_simp+

lemma sample_net_faithful: "faithful sample_net"
  unfolding faithful_def
proof (intro allI impI)
  fix m bz assume "Marshal sample_net m = Some bz"
  then obtain k x where k: "find (\<lambda>i. snd i = m) (zip [0..<6] sample_messages) = Some (k, x)" "bz = [of_nat k]"
    by (auto simp: sample_net_def)
  moreover have "length sample_messages = 6" by (simp add: sample_messages_def)
  ultimately have "k < 6" "sample_messages ! k = m" by (auto simp: find_Some_iff)
  moreover from this have "unat (of_nat k :: 8 word) = k" by (simp add: unat_of_nat)
  ultimately show "Unmarshal sample_net bz = Some m" using k(2) by (simp add: sample_net_def)
qed

lemma sample_evidence: "v \<in> commit_votes (strong_commit 7) \<union> commit_votes both_commit \<Longrightarrow> vDataHash v = \<lparr>Hash = [7]\<rparr>"
  by (auto simp: commit_votes_def strong_commit_def both_commit_def NewCommit_def NewCommitSigForBlock_def
      NewCommitSigAbsent_def Absent_def ForBlock_def flag_defs sig_vote_def sig_hash_def vote_for_def less_Suc_eq)

theorem honest_agreement_witness:
  "\<exists>c1 c2. agree_run sample_tm sample_net (\<lambda>_. 0) sample_set sample_node c1 (Agreed [7] (strong_commit 7)) \<and>
    agree_run sample_tm sample_net (\<lambda>_. 0) sample_set sample_weak c2 (Agreed [7] both_commit) \<and>
    cmDataHash (strong_commit 7) = cmDataHash both_commit"
proof -
  obtain c1 r where run1: "agree_run sample_tm sample_net (\<lambda>_. 0) sample_set sample_node c1 (Agreed [7] (strong_commit 7))"
    "cRound c1 = Some r" "rTopic r = [[1], [2]]" using run_logged_run [OF sample_logs(1)] by blast
  obtain c2 where run2: "agree_run sample_tm sample_net (\<lambda>_. 0) sample_set sample_weak c2 (Agreed [7] both_commit)"
    using run_logged_run [OF sample_logs(2)] by blast
  have ids: "cId sample_node = cId sample_weak" "cSelf sample_node = mock sample_tm sample_keys (NewMockPV [2])"
    by (simp_all add: sample_node_def sample_weak_def)
  have "precommit_of sample_net [2] = Some \<lparr>Hash = [7]\<rparr>" by code_simp
  then have log: "\<lparr>Hash = [7]\<rparr> \<in> precommitted sample_net r" using run1(3) by (simp add: precommitted_def)
  have pv: "\<not> breakVoteSigning (NewMockPV [2])" "PrivKey (NewMockPV [2]) = [2 :: 8 word]"
    "PubKey (Proposers sample_set ! 0) = Some (PrivKey_PubKey sample_keys [2])"
    by (simp_all add: NewMockPV_def sample_keys_def sample_set_def)
  have "honest_voter sample_tm sample_keys (cId sample_node)
      (commit_votes (strong_commit 7) \<union> commit_votes both_commit) (Proposers sample_set ! i)" if "i \<in> {0}" for i
    unfolding honest_voter_def
    using run1 sample_net_faithful ids(2) pv log sample_evidence that
    by (intro exI [of _ sample_net] exI [of _ "\<lambda>_. 0"] exI [of _ sample_set] exI [of _ sample_node]
        exI [of _ c1] exI [of _ "Agreed [7] (strong_commit 7)"] exI [of _ "NewMockPV [2]"] exI [of _ r]) auto
  moreover have "3 * validators.power (Proposers sample_set) ({..<length (Proposers sample_set)} - {0}) \<le>
      power_sum (Proposers sample_set)"
  proof -
    have "{..<length (Proposers sample_set)} - {0} = {1}" by (auto simp: sample_set_def)
    then show ?thesis by (simp add: validators.power_def) (simp add: sample_set_def)
  qed
  ultimately have "cmDataHash (strong_commit 7) = cmDataHash both_commit"
    using honest_agreement [OF run1(1) run2 sample_set_votable sample_set_votable refl ids(1) sample_keys_sound]
    by blast
  then show ?thesis using run1(1) run2 by blast
qed

end
