(* ===== verification/Con_Arrivals.thy ===== *)
theory Con_Arrivals
  imports Con_CommitSafety
begin

text \<open>
  Where the votes a vote set holds come from: \<open>AddVote\<close> stores nothing but the verified vote
  it is given, empties no slot, and leaves no slot of a verified vote empty.
\<close>

text \<open>A vote held under an index, as the canonical one or among those for its hash.\<close>

definition stored :: "'pk VoteSet \<Rightarrow> nat \<Rightarrow> Vote \<Rightarrow> bool" where
  "stored vs j w \<longleftrightarrow> vsVotes vs ! j = Some w \<or>
     (\<exists>k bv. vsVotesByBlock vs k = Some bv \<and> bvVotes bv ! j = Some w)"

text \<open>Storing \<open>v\<close> under \<open>i\<close> adds at most that vote, and keeps a slot that is taken.\<close>

definition stores :: "nat \<Rightarrow> Vote \<Rightarrow> 'pk VoteSet \<Rightarrow> 'pk VoteSet \<Rightarrow> bool" where
  "stores i v vs vs' \<longleftrightarrow> length (vsVotes vs') = length (vsVotes vs) \<and>
     (\<forall>j < length (vsVotes vs). (\<forall>w. stored vs' j w \<longrightarrow> stored vs j w \<or> j = i \<and> w = v) \<and>
       (vsVotes vs ! j \<noteq> None \<longrightarrow> vsVotes vs' ! j \<noteq> None))"

lemma stores_refl [simp]: "stores i v vs vs"
  by (simp add: stores_def)

lemma stores_trans: "stores i v a b \<Longrightarrow> stores i v b c \<Longrightarrow> stores i v a c"
  unfolding stores_def by metis

lemma stores_done: "stores i v vs (vs'\<lparr>vsDone := d\<rparr>) = stores i v vs vs'"
  by (simp add: stores_def stored_def)

lemma record_vote_stores:
  assumes "record_vote v k p vs = Return (vs', c)" and "vValidatorIndex v = int i"
  shows "stores i v vs vs' \<and> vsVotes vs' ! i \<noteq> None \<and> vsVotesByBlock vs' = vsVotesByBlock vs \<and>
    vsValSet vs' = vsValSet vs \<and> i < length (vsVotes vs)"
proof -
  obtain e where e: "slice_get (vsVotes vs) (int i) = Return e"
    using assms by (auto simp: record_vote_def Let_def)
  then have i: "i < length (vsVotes vs)" "vsVotes vs ! i = e"
    by (auto simp: slice_get_def split: if_splits)
  have "vs' = vs \<and> e \<noteq> None \<or> vsVotes vs' = (vsVotes vs)[i := Some v] \<and>
      vsVotesByBlock vs' = vsVotesByBlock vs \<and> vsValSet vs' = vsValSet vs"
    using assms e by (auto simp: record_vote_def Let_def split: option.splits if_splits)
  then show ?thesis
    using i by (auto simp: stores_def stored_def nth_list_update dest: update_slot split: if_splits)
qed

lemma track_vote_stores:
  assumes run: "track_vote v k p bv vs = Return vs'" and i: "vValidatorIndex v = int i"
    and len: "length (bvVotes bv) = length (vsVotes vs)"
    and bv: "vsVotesByBlock vs k = Some bv \<or> bvVotes bv = replicate (length (vsVotes vs)) None"
  shows "stores i v vs vs'"
proof -
  obtain bv' where bv': "blockVotes_addVerifiedVote v p bv = Return bv'"
    using run by (auto simp: track_vote_def)
  then have slots: "bvVotes bv' = bvVotes bv \<or> bvVotes bv' = (bvVotes bv)[i := Some v]"
    using i by (auto simp: blockVotes_addVerifiedVote_def Let_def split: option.splits)
  then have len': "length (bvVotes bv') = length (vsVotes vs)" using len by auto
  have new: "bvVotes bv' ! j = Some w \<Longrightarrow> stored vs j w \<or> j = i \<and> w = v" if "j < length (vsVotes vs)" for j w
    using slots bv len that update_slot [of "bvVotes bv" i v j w] by (auto simp: stored_def)
  have "0 + length (bvVotes bv') = length (vsVotes vs)" using len' by simp
  from copy_votes_ok [OF this] obtain ws where
    ws: "copy_votes 0 (bvVotes bv') (vsVotes vs) = Return ws" "length ws = length (vsVotes vs)"
      "\<forall>j < length (vsVotes vs). ws ! j = (if bvVotes bv' ! j \<noteq> None then bvVotes bv' ! j else vsVotes vs ! j)"
    by auto
  have vs': "vsVotes vs' = vsVotes vs \<or> vsVotes vs' = ws" "vsVotesByBlock vs' = (vsVotesByBlock vs)(k \<mapsto> bv')"
    using run bv' ws(1) by (auto simp: track_vote_def Let_def split: if_splits)
  have "stored vs j w \<or> j = i \<and> w = v" if "stored vs' j w" and j: "j < length (vsVotes vs)" for j w
  proof -
    have "vsVotes vs' ! j = Some w \<or> bvVotes bv' ! j = Some w \<or>
        (\<exists>l b. vsVotesByBlock vs l = Some b \<and> bvVotes b ! j = Some w)"
      using that(1) by (auto simp: stored_def vs'(2) split: if_splits)
    then show ?thesis using vs'(1) ws(3) new [OF j, of w] j by (auto simp: stored_def split: if_splits)
  qed
  moreover have "vsVotes vs ! j \<noteq> None \<longrightarrow> vsVotes vs' ! j \<noteq> None" if "j < length (vsVotes vs)" for j
    using vs'(1) ws(3) that by auto
  ultimately show ?thesis using vs'(1) ws(2) by (auto simp: stores_def)
qed

lemma addVerifiedVote_stores:
  assumes inv: "core_inv T vs" and run: "VoteSet_addVerifiedVote v k p vs = Return (vs', added, c)"
    and i: "vValidatorIndex v = int i"
  shows "stores i v vs vs' \<and> vsVotes vs' ! i \<noteq> None"
proof -
  obtain vs1 where rec: "record_vote v k p vs = Return (vs1, c)"
    using run by (auto simp: VoteSet_addVerifiedVote_def split: option.splits if_splits)
  note one = record_vote_stores [OF rec i]
  have lens: "length (vsVotes vs1) = length (vsVotes vs)" "length (vsVotes vs) = length (members vs)"
    "length (members vs1) = length (members vs)"
    using one core_invD(4) [OF inv] by (simp_all add: stores_def)
  have ii: "i < length (vsVotes vs1)" using one lens by simp
  have step: "stores i v vs vs2 \<and> vsVotes vs2 ! i \<noteq> None"
    if "track_vote v k p bv vs1 = Return vs2" "vsVotesByBlock vs k = Some bv \<or> bv = newBlockVotes False (Size (vsValSet vs1))"
    for bv vs2
  proof -
    have "length (bvVotes bv) = length (vsVotes vs1) \<and>
        (vsVotesByBlock vs1 k = Some bv \<or> bvVotes bv = replicate (length (vsVotes vs1)) None)"
      using that(2) one lens block_okD(2) [OF core_invD(6) [OF inv, of k bv]]
      by (auto simp: newBlockVotes_ok Size_def)
    then have two: "stores i v vs1 vs2" using track_vote_stores [OF that(1) i] by blast
    then have "vsVotes vs2 ! i \<noteq> None" using one ii by (simp add: stores_def)
    then show ?thesis using stores_trans [OF _ two] one by blast
  qed
  show ?thesis
    using run rec one step
    by (cases "vsVotesByBlock vs k") (auto simp: VoteSet_addVerifiedVote_def Let_def split: if_splits)
qed

lemma AddVote_stores:
  assumes inv: "vote_inv T vs" and run: "VoteSet_AddVote T (Some v) (Some vs) = Return (vs', added, err)"
  shows "vs' = vs \<or> (\<exists>i. good_in T vs i v \<and> stores i v vs vs' \<and> vsVotes vs' ! i \<noteq> None)"
    and "good_in T vs i v \<Longrightarrow> vsVotes vs' ! i \<noteq> None"
proof -
  note core = vote_invD(1) [OF inv]
  have run': "VoteSet_addVote T (Some v) vs = Return (vs', added, err)" using run by (simp add: VoteSet_AddVote_def)
  have cases: "(vs' = vs \<and> (known_vote vs i (vDataHash v) \<noteq> None \<or> \<not> good_in T vs i v)) \<or>
      good_in T vs i v \<and> stores i v vs vs' \<and> vsVotes vs' ! i \<noteq> None" if adr: "addressed vs v i" for i
  proof (rule addVote_cases [OF core adr run'])
    fix w a c
    assume good: "good_in T vs i v" and w: "vs' = w \<or> c = None \<and> vsMaj23 w \<noteq> None \<and> vs' = w\<lparr>vsDone := True\<rparr>"
      and add: "VoteSet_addVerifiedVote v (Key (vDataHash v)) (VotingPower (members vs ! i)) vs = Return (w, a, c)"
    have "vValidatorIndex v = int i" using good by (simp add: good_vote_def)
    from addVerifiedVote_stores [OF core add this] show ?thesis using w good by (auto simp: stores_done)
  qed simp
  show "vs' = vs \<or> (\<exists>i. good_in T vs i v \<and> stores i v vs vs' \<and> vsVotes vs' ! i \<noteq> None)"
  proof (cases "\<exists>i. addressed vs v i")
    case True
    then show ?thesis using cases by blast
  next
    case False
    then show ?thesis using addVote_not_addressed [OF False, of T] run' by auto
  qed
  assume good: "good_in T vs i v"
  then have adr: "addressed vs v i" by (simp add: good_in_iff)
  have "vsVotes vs ! i \<noteq> None" if "known_vote vs i (vDataHash v) \<noteq> None"
    using that unknown_fresh [OF core, of i v] adr unknown_iff [of vs i v]
    by (auto simp: addressed_def)
  then show "vsVotes vs' ! i \<noteq> None" using cases [OF adr] good by blast
qed

end
