(* ===== verification/Con_Cluster.thy ===== *)
theory Con_Cluster
  imports Con_Delivery Con_Honest Con_Arrivals
begin

text \<open>
  The nodes of a validator set that run \<open>AgreeOn\<close> together: what they publish reaches the
  others, in any order and any number of times, among messages of faulty validators. A node that
  panics is down from then on. Every run comes to rest after a bounded number of moves.
\<close>

section \<open>Nodes and their messages\<close>

text \<open>
  A scene fixes the set all nodes agree on, the validators whose nodes follow the program, the
  times their clocks may show, the data each would propose, and the nodes before the call.
\<close>

record 'pk scene =
  scSet :: "'pk ProposerSet"
  scHonest :: "nat set"
  scClock :: "time set"
  scData :: "nat \<Rightarrow> bytes"
  scNode :: "nat \<Rightarrow> 'pk concord"

text \<open>A node is up until the program panics, on its own or on a message, which ends the process.\<close>

datatype fate = Up | Broken | BrokenBy bytes

record 'pk member =
  meNode :: "'pk concord"
  mePhase :: phase
  meSeen :: "bytes set"
  meFate :: fate

type_synonym 'pk cluster = "nat \<Rightarrow> 'pk member"

definition published :: "'pk concord \<Rightarrow> bytes set" where
  "published c = (case cRound c of None \<Rightarrow> {} | Some r \<Rightarrow> set (rTopic r))"

definition sent :: "'pk scene \<Rightarrow> 'pk cluster \<Rightarrow> bytes set" where
  "sent S C = (\<Union>i \<in> scHonest S. published (meNode (C i)))"

text \<open>
  Faulty validators may send anything but what they would have to forge: a vote that an honest
  validator's key verifies under its index agrees with one its node has published, and so does
  a proposal.
\<close>

definition genuine :: "'pk tm \<Rightarrow> net \<Rightarrow> 'pk scene \<Rightarrow> 'pk cluster \<Rightarrow> bytes \<Rightarrow> bool" where
  "genuine T N S C data \<longleftrightarrow>
     (\<forall>i \<in> scHonest S. \<forall>k. PubKey (Proposers (scSet S) ! i) = Some k \<longrightarrow>
        (\<forall>v. content T N data = OfVote v \<and> vValidatorIndex v = int i \<and>
             signed_by T (cId (scNode S i)) k v \<longrightarrow>
           (\<exists>d \<in> published (meNode (C i)). \<exists>w. content T N d = OfVote w \<and> vType w = vType v \<and>
              vDataHash w = vDataHash v)) \<and>
        (\<forall>q. content T N data = OfProposal q \<and>
             proposer_of (scSet S) = Return (Some (Proposers (scSet S) ! i)) \<and>
             VerifySignature T k (proposal_bytes T (cId (scNode S i)) q) (prSignature q) \<longrightarrow>
           (\<exists>d \<in> published (meNode (C i)). \<exists>q'. content T N d = OfProposal q' \<and> prData q' = prData q)))"

section \<open>Moves\<close>

text \<open>
  A node that is up goes on, or handles a message: it may accept or reject it, it may have to keep
  it pending because the handler blocks, and it may break on it. No context is cancelled. All
  messages a node can be sent are delivered here, those that make it panic too.
\<close>

datatype move = Resumes nat | Receives nat bytes | Stalls nat bytes

inductive cluster_step :: "'pk tm \<Rightarrow> net \<Rightarrow> (BitArray option \<Rightarrow> int) \<Rightarrow> 'pk scene \<Rightarrow> move \<Rightarrow>
    'pk cluster \<Rightarrow> 'pk cluster \<Rightarrow> bool" for T N sizeOf S where
  resumes: "i \<in> scHonest S \<Longrightarrow> meFate (C i) = Up \<Longrightarrow> now \<in> scClock S \<Longrightarrow>
    AgreeOn_resume T N False False now (mePhase (C i)) (meNode (C i)) = Return (Ready (c, ph)) \<Longrightarrow>
    cluster_step T N sizeOf S (Resumes i) C (C(i := (C i)\<lparr>meNode := c, mePhase := ph\<rparr>))"
| breaks: "i \<in> scHonest S \<Longrightarrow> meFate (C i) = Up \<Longrightarrow> now \<in> scClock S \<Longrightarrow> 0 < remaining (mePhase (C i)) \<Longrightarrow>
    AgreeOn_resume T N False False now (mePhase (C i)) (meNode (C i)) = Panic e \<Longrightarrow>
    cluster_step T N sizeOf S (Resumes i) C (C(i := (C i)\<lparr>meFate := Broken\<rparr>))"
| receives: "i \<in> scHonest S \<Longrightarrow> meFate (C i) = Up \<Longrightarrow> genuine T N S C data \<Longrightarrow>
    incoming T N sizeOf False False data (meNode (C i)) = Return (c, Ready res) \<Longrightarrow>
    cluster_step T N sizeOf S (Receives i data) C
      (C(i := (C i)\<lparr>meNode := c, meSeen := insert data (meSeen (C i))\<rparr>))"
| stalls: "i \<in> scHonest S \<Longrightarrow> meFate (C i) = Up \<Longrightarrow> genuine T N S C data \<Longrightarrow>
    incoming T N sizeOf False False data (meNode (C i)) = Return (c, Blocks) \<Longrightarrow>
    cluster_step T N sizeOf S (Stalls i data) C (C(i := (C i)\<lparr>meNode := c\<rparr>))"
| breaks_by: "i \<in> scHonest S \<Longrightarrow> meFate (C i) = Up \<Longrightarrow> genuine T N S C data \<Longrightarrow>
    incoming T N sizeOf False False data (meNode (C i)) = Panic e \<Longrightarrow>
    cluster_step T N sizeOf S (Receives i data) C (C(i := (C i)\<lparr>meFate := BrokenBy data\<rparr>))"

inductive_cases resumesE: "cluster_step T N sizeOf S (Resumes i) C C'"
inductive_cases receivesE: "cluster_step T N sizeOf S (Receives i data) C C'"

text \<open>
  A move is due if a fair schedule has to make it some time: a node that can go on does, and a
  message of an honest node reaches every other one. Messages of faulty validators and repeated
  ones need not arrive.
\<close>

fun due :: "'pk scene \<Rightarrow> 'pk cluster \<Rightarrow> move \<Rightarrow> bool" where
  "due S C (Resumes i) \<longleftrightarrow> True"
| "due S C (Receives i data) \<longleftrightarrow> data \<in> sent S C \<and> data \<notin> meSeen (C i)"
| "due S C (Stalls i data) \<longleftrightarrow> False"

text \<open>A node after the first part of \<open>AgreeOn\<close>. It publishes last, so one that panics there has
  published nothing.\<close>

definition begun_member :: "'pk tm \<Rightarrow> net \<Rightarrow> 'pk scene \<Rightarrow> nat \<Rightarrow> 'pk member \<Rightarrow> bool" where
  "begun_member T N S i m \<longleftrightarrow> meSeen m = {} \<and> (\<exists>now \<in> scClock S.
     case AgreeOn_begin T N now (scData S i) (Some (scSet S)) (scNode S i) of
       Return (c, ph) \<Rightarrow> meNode m = c \<and> mePhase m = ph \<and> meFate m = Up
     | Panic e \<Rightarrow> meNode m = (scNode S i)\<lparr>cRound := None\<rparr> \<and> mePhase m = AwaitProposal \<and> meFate m = Broken)"

lemma begun_member_cases:
  assumes "begun_member T N S i m"
  obtains (up) now where "now \<in> scClock S" "meSeen m = {}" "meFate m = Up"
      "AgreeOn_begin T N now (scData S i) (Some (scSet S)) (scNode S i) = Return (meNode m, mePhase m)"
    | (down) now e where "now \<in> scClock S" "meSeen m = {}" "meFate m = Broken" "cRound (meNode m) = None"
      "mePhase m = AwaitProposal" "AgreeOn_begin T N now (scData S i) (Some (scSet S)) (scNode S i) = Panic e"
  using assms unfolding begun_member_def by (fastforce split: outcome.splits)

text \<open>A run of the cluster, and how many of its moves were due.\<close>

inductive cluster_run :: "'pk tm \<Rightarrow> net \<Rightarrow> (BitArray option \<Rightarrow> int) \<Rightarrow> 'pk scene \<Rightarrow> nat \<Rightarrow>
    'pk cluster \<Rightarrow> bool" for T N sizeOf S where
  begin_all: "(\<And>i. i \<in> scHonest S \<Longrightarrow> begun_member T N S i (C i)) \<Longrightarrow> cluster_run T N sizeOf S 0 C"
| moved: "cluster_run T N sizeOf S n C \<Longrightarrow> cluster_step T N sizeOf S m C C' \<Longrightarrow>
    cluster_run T N sizeOf S (if due S C m then Suc n else n) C'"

definition at_rest :: "'pk tm \<Rightarrow> net \<Rightarrow> (BitArray option \<Rightarrow> int) \<Rightarrow> 'pk scene \<Rightarrow> 'pk cluster \<Rightarrow> bool" where
  "at_rest T N sizeOf S C \<longleftrightarrow> (\<forall>m C'. cluster_step T N sizeOf S m C C' \<longrightarrow> \<not> due S C m)"

text \<open>Each honest node that did not break on its own is in a run of its own.\<close>

lemma cluster_agree_run:
  assumes "cluster_run T N sizeOf S n C" and "i \<in> scHonest S" and "meFate (C i) \<noteq> Broken"
  shows "agree_run T N sizeOf (scSet S) (scNode S i) (meNode (C i)) (mePhase (C i))"
  using assms(1,3)
proof (induction rule: cluster_run.induct)
  case (begin_all C)
  from begin_all.hyps [OF assms(2)] show ?case
    using begin_all.prems agree_run.begun by (cases rule: begun_member_cases) auto
next
  case (moved n C m C')
  from moved.hyps(2) show ?case
  proof cases
    case (resumes j now c ph)
    then show ?thesis using moved.IH moved.prems agree_run.resumed by (cases "i = j") auto
  next
    case (receives j data c res)
    then show ?thesis using moved.IH moved.prems agree_run.received by (cases "i = j") auto
  next
    case (stalls j data c)
    then show ?thesis using moved.IH moved.prems agree_run.received by (cases "i = j") auto
  qed (use moved.IH moved.prems in \<open>auto split: if_splits\<close>)
qed

section \<open>What a move publishes\<close>

lemma publish_topic: "publish N m r = (r', e) \<Longrightarrow> rTopic r' = rTopic r \<or> (\<exists>bin. rTopic r' = rTopic r @ [bin])"
  by (auto simp: publish_def split: sum.splits if_splits)

lemma published_round [simp]: "published (c\<lparr>cRound := Some r\<rparr>) = set (rTopic r)"
  by (simp add: published_def)

lemma vote_published:
  assumes "vote T N now hash t r = Return (r', e)"
  shows "\<exists>x. set (rTopic r') \<subseteq> insert x (set (rTopic r))"
  using assms by (rule vote_cases) (use publish_topic in fastforce)+

lemma cast_vote_published:
  assumes "cast_vote T N now hash t ph r c = Return (c', ph')"
  shows "\<exists>x. published c' \<subseteq> insert x (set (rTopic r))"
proof -
  obtain r' e where "vote T N now hash t r = Return (r', e)" "c' = c\<lparr>cRound := Some r'\<rparr>"
    using assms by (auto simp: cast_vote_def)
  then show ?thesis using vote_published by simp
qed

lemma resume_published:
  assumes "AgreeOn_resume T N ctxDone pick now ph c = Return (Ready (c', ph'))"
  shows "\<exists>x. published c' \<subseteq> insert x (published c)"
proof -
  obtain r where r: "cRound c = Some r" "published c = set (rTopic r)"
    using assms by (auto simp: AgreeOn_resume_def published_def split: option.splits)
  have "published c' = published c \<or> (\<exists>r' t p hash. rTopic r' = rTopic r \<and>
      cast_vote T N now hash t p r' c = Return (c', ph'))"
  proof (cases ph)
    case AwaitProposal
    then obtain r' res where sel: "Propose_select ctxDone pick r = Ready (r', res)"
      using assms r(1) by (cases "Propose_select ctxDone pick r") (auto simp: AgreeOn_resume_def)
    then have "rTopic r' = rTopic r" by (auto simp: Propose_select_def split: list.splits if_splits)
    then show ?thesis
      using assms r sel AwaitProposal
      by (cases res) (auto simp: AgreeOn_resume_def got_proposal_def split: option.splits)
  next
    case (AwaitPrevotes data hash)
    then show ?thesis
      using assms r by (cases "rVotes r PrevoteType") (auto simp: AgreeOn_resume_def Vote_select_def split: if_splits)
  next
    case (AwaitPrecommits data hash)
    then show ?thesis
      using assms r by (cases "rVotes r PrecommitType")
        (auto simp: AgreeOn_resume_def Vote_select_def got_precommits_def split: if_splits)
  qed (use assms r in \<open>simp_all add: AgreeOn_resume_def\<close>)
  then show ?thesis
  proof (elim disjE exE conjE)
    fix r' t p hash assume "rTopic r' = rTopic r" "cast_vote T N now hash t p r' c = Return (c', ph')"
    then show ?thesis using cast_vote_published [of T N now hash t p r' c c' ph'] r(2) by simp
  qed blast
qed

lemma incoming_published:
  assumes "incoming T N sizeOf ctxDone pick data c = Return (c', res)"
  shows "published c' = published c"
  using incoming_cases [OF assms] by (auto simp: published_def dest!: delivers_quiet [unfolded quiet_def])

lemma begin_published:
  assumes "AgreeOn_begin T N now data (Some s) c0 = Return (c, ph)"
  shows "(\<exists>x. published c \<subseteq> {x}) \<and> remaining ph \<le> 3"
proof -
  obtain r0 r err where b: "Propose_begin T N now data r0 = Return (r, err)" "rTopic r0 = []"
    "c = c0\<lparr>cRound := Some r\<rparr>" "remaining ph \<le> 3"
    using assms by (auto simp: AgreeOn_begin_def Let_def newRound_def split: if_splits option.splits)
  obtain r1 p where p: "round_proposer r0 = Return (r1, p)"
    and rest: "(if Address p = PubKey_Address T (piSelfPK (rValInfo r1)) then propose N now data r1
      else Return (r1, None)) = Return (r, err)"
    using b(1) by (auto simp: Propose_begin_def isProposer_def)
  have t: "rTopic r1 = []" using round_proposer_quiet [OF p] b(2) by (simp add: quiet_def)
  have "r = r1 \<or> (\<exists>q. publish N q r1 = (r, err))"
    using rest by (auto simp: propose_def Let_def split: if_splits option.splits)
  then have "\<exists>x. set (rTopic r) \<subseteq> {x}" using t publish_topic [of N _ r1 r err] by fastforce
  then show ?thesis using b(3,4) by simp
qed

lemma finite_published [simp]: "finite (published c)"
  by (simp add: published_def split: option.split)

lemma finite_sent: "finite (scHonest S) \<Longrightarrow> finite (sent S C)"
  by (simp add: sent_def)

section \<open>Coming to rest\<close>

text \<open>The moves that may still become due, of a node that is up: each part of a call that has not
  run, with the message it may publish to every node, and each message on its way.\<close>

definition load :: "'pk scene \<Rightarrow> 'pk cluster \<Rightarrow> nat \<Rightarrow> nat" where
  "load S C i = (if meFate (C i) = Up
     then remaining (mePhase (C i)) * Suc (card (scHonest S)) + card (sent S C - meSeen (C i)) else 0)"

definition work :: "'pk scene \<Rightarrow> 'pk cluster \<Rightarrow> nat" where
  "work S C = (\<Sum>i \<in> scHonest S. load S C i)"

lemma work_resumes:
  assumes "finite (scHonest S)" and "i \<in> scHonest S" and up: "meFate (C i) = Up"
    and "AgreeOn_resume T N False False now (mePhase (C i)) (meNode (C i)) = Return (Ready (c, ph))"
  shows "Suc (work S (C(i := (C i)\<lparr>meNode := c, mePhase := ph\<rparr>))) \<le> work S C"
proof -
  let ?H = "scHonest S" and ?C = "C(i := (C i)\<lparr>meNode := c, mePhase := ph\<rparr>)"
  let ?h = "card ?H"
  obtain x where x: "published c \<subseteq> insert x (published (meNode (C i)))" using resume_published [OF assms(4)] by blast
  have "sent S ?C \<subseteq> insert x (sent S C)"
  proof
    fix d assume "d \<in> sent S ?C"
    then obtain j where j: "j \<in> ?H" "d \<in> published (meNode (?C j))" by (auto simp: sent_def)
    show "d \<in> insert x (sent S C)"
      using j x by (cases "j = i") (auto simp: sent_def)
  qed
  have more: "card (sent S ?C - Y) \<le> Suc (card (sent S C - Y))" for Y
  proof -
    have "sent S ?C - Y \<subseteq> insert x (sent S C - Y)" using \<open>sent S ?C \<subseteq> insert x (sent S C)\<close> by blast
    then have "card (sent S ?C - Y) \<le> card (insert x (sent S C - Y))"
      by (intro card_mono) (simp_all add: finite_sent assms(1))
    also have "\<dots> \<le> Suc (card (sent S C - Y))" by (simp add: card_insert_le_Suc finite_sent assms(1))
    finally show ?thesis .
  qed
  have part: "load S ?C j + (if j = i then Suc ?h else 0) \<le> load S C j + 1" for j
  proof (cases "j = i")
    case True
    have "Suc (remaining ph) * Suc ?h \<le> remaining (mePhase (C i)) * Suc ?h"
      using resume_remaining [OF assms(4)] by (intro mult_le_mono1) simp
    then show ?thesis using True up more [of "meSeen (C i)"] by (simp add: load_def)
  qed (use more [of "meSeen (C j)"] in \<open>simp add: load_def\<close>)
  have "(\<Sum>j \<in> ?H. load S ?C j + (if j = i then Suc ?h else 0)) \<le> (\<Sum>j \<in> ?H. load S C j + 1)"
    by (rule sum_mono) (rule part)
  then have "work S ?C + Suc ?h \<le> work S C + ?h"
    using assms(1,2) unfolding work_def by (simp add: sum.distrib sum_Suc del: fun_upd_apply)
  then show ?thesis by linarith
qed

text \<open>A move that publishes nothing and adds to no load.\<close>

lemma work_le:
  assumes "sent S C' = sent S C" and "\<And>j. load S C' j \<le> load S C j"
  shows "work S C' \<le> work S C"
  unfolding work_def using assms(2) by (rule sum_mono)

lemma work_less:
  assumes "finite (scHonest S)" and "i \<in> scHonest S" and "\<And>j. load S C' j \<le> load S C j"
    and "load S C' i < load S C i"
  shows "Suc (work S C') \<le> work S C"
  unfolding work_def using assms by (intro sum_less_one [where i = i]) auto

lemma work_receives:
  assumes "finite (scHonest S)" and "i \<in> scHonest S" and up: "meFate (C i) = Up"
    and "incoming T N sizeOf False False data (meNode (C i)) = Return (c, res)"
  shows "work S (C(i := (C i)\<lparr>meNode := c, meSeen := insert data (meSeen (C i))\<rparr>)) +
    (if due S C (Receives i data) then 1 else 0) \<le> work S C"
proof -
  let ?C = "C(i := (C i)\<lparr>meNode := c, meSeen := insert data (meSeen (C i))\<rparr>)"
  have "published (meNode (?C j)) = published (meNode (C j))" for j
    using incoming_published [OF assms(4)] by simp
  then have sent: "sent S ?C = sent S C" unfolding sent_def by (simp only:)
  have "card (sent S C - insert data Y) \<le> card (sent S C - Y)" for Y
    by (intro card_mono) (auto simp: finite_sent assms(1))
  then have le: "load S ?C j \<le> load S C j" for j unfolding load_def sent by simp
  show ?thesis
  proof (cases "due S C (Receives i data)")
    case True
    then have "sent S C - meSeen (?C i) \<subset> sent S C - meSeen (C i)" by auto
    then have "card (sent S C - meSeen (?C i)) < card (sent S C - meSeen (C i))"
      by (intro psubset_card_mono) (simp_all add: finite_sent assms(1))
    then have "load S ?C i < load S C i" unfolding load_def sent using up by simp
    then have "Suc (work S ?C) \<le> work S C" by (rule work_less [OF assms(1,2) le])
    then show ?thesis using True by simp
  next
    case False
    then show ?thesis using work_le [OF sent le] by (simp del: due.simps)
  qed
qed

lemma work_stalls:
  assumes "incoming T N sizeOf False False data (meNode (C i)) = Return (c, res)"
  shows "work S (C(i := (C i)\<lparr>meNode := c\<rparr>)) = work S C"
proof -
  let ?C = "C(i := (C i)\<lparr>meNode := c\<rparr>)"
  have "published (meNode (?C j)) = published (meNode (C j))" for j
    using incoming_published [OF assms] by simp
  then have "sent S ?C = sent S C" unfolding sent_def by (simp only:)
  then have "load S ?C = load S C" by (intro ext) (simp add: load_def)
  then show ?thesis by (simp add: work_def)
qed

text \<open>A node that breaks has nothing left to do.\<close>

lemma work_breaks:
  assumes "finite (scHonest S)" and "i \<in> scHonest S" and up: "meFate (C i) = Up" and down: "fate \<noteq> Up"
  shows "work S (C(i := (C i)\<lparr>meFate := fate\<rparr>)) + (if 0 < load S C i then 1 else 0) \<le> work S C"
proof -
  let ?C = "C(i := (C i)\<lparr>meFate := fate\<rparr>)"
  have "meNode (?C j) = meNode (C j)" for j by simp
  then have sent: "sent S ?C = sent S C" unfolding sent_def by (simp only:)
  then have le: "load S ?C j \<le> load S C j" for j using down by (simp add: load_def)
  moreover have "load S ?C i = 0" using down by (simp add: load_def)
  ultimately show ?thesis
    using work_less [OF assms(1,2) le] work_le [OF sent le] by (cases "0 < load S C i") simp_all
qed

text \<open>Every move does some of the work when it is due, and none adds to it otherwise.\<close>

lemma step_work:
  assumes "finite (scHonest S)" and "cluster_step T N sizeOf S m C C'"
  shows "work S C' + (if due S C m then 1 else 0) \<le> work S C"
  using assms(2)
proof cases
  case (resumes i now c ph)
  then show ?thesis using work_resumes [OF assms(1), of i C T N now c ph] by (simp del: fun_upd_apply)
next
  case (breaks i now e)
  then show ?thesis using work_breaks [OF assms(1), of i C Broken] by (simp add: load_def del: fun_upd_apply)
next
  case (receives i data c res)
  then show ?thesis
    using work_receives [OF assms(1), of i C T N sizeOf data c "Ready res"] by (simp del: fun_upd_apply due.simps)
next
  case (stalls i data c)
  then show ?thesis using work_stalls [of T N sizeOf data C i c Blocks S] by (simp del: fun_upd_apply)
next
  case (breaks_by i data e)
  have "0 < load S C i" if "due S C (Receives i data)"
    using that breaks_by(4) by (auto simp: load_def finite_sent assms(1) card_gt_0_iff)
  then show ?thesis
    using breaks_by work_breaks [OF assms(1), of i C "BrokenBy data"] by (auto simp del: fun_upd_apply due.simps split: if_splits)
qed

lemma work_begun:
  assumes "finite (scHonest S)" and "\<And>i. i \<in> scHonest S \<Longrightarrow> (\<exists>x. published (meNode (C i)) \<subseteq> {x}) \<and>
      remaining (mePhase (C i)) \<le> 3"
  shows "work S C \<le> card (scHonest S) * (4 * card (scHonest S) + 3)"
proof -
  let ?H = "scHonest S"
  let ?h = "card ?H"
  have one: "card (published (meNode (C i))) \<le> 1" if i: "i \<in> ?H" for i
  proof -
    obtain x where "published (meNode (C i)) \<subseteq> {x}" using assms(2) [OF i] by blast
    from card_mono [OF _ this] show ?thesis by simp
  qed
  have "card (sent S C) \<le> (\<Sum>i \<in> ?H. card (published (meNode (C i))))"
    unfolding sent_def by (rule card_UN_le [OF assms(1)])
  also have "\<dots> \<le> ?h" using sum_bounded_above [of ?H, OF one] by simp
  finally have "card (sent S C - Y) \<le> ?h" for Y
    using card_mono [of "sent S C" "sent S C - Y"] finite_sent [OF assms(1)] by (meson Diff_subset le_trans)
  then have "remaining (mePhase (C i)) * Suc ?h + card (sent S C - meSeen (C i)) \<le> 3 * Suc ?h + ?h" if "i \<in> ?H" for i
    using assms(2) [OF that] by (intro add_mono mult_le_mono1) simp_all
  then have "load S C i \<le> 3 * Suc ?h + ?h" if "i \<in> ?H" for i using that by (simp add: load_def)
  from sum_bounded_above [of ?H, OF this] show ?thesis by (simp add: work_def algebra_simps)
qed

lemma cluster_work:
  assumes "cluster_run T N sizeOf S n C" and "finite (scHonest S)"
  shows "n + work S C \<le> card (scHonest S) * (4 * card (scHonest S) + 3)"
  using assms(1)
proof (induction rule: cluster_run.induct)
  case (begin_all C)
  have "(\<exists>x. published (meNode (C i)) \<subseteq> {x}) \<and> remaining (mePhase (C i)) \<le> 3" if "i \<in> scHonest S" for i
    using begin_all [OF that]
  proof (cases rule: begun_member_cases)
    case (up now)
    from begin_published [OF up(4)] show ?thesis .
  qed (simp add: published_def)
  then show ?case using work_begun [OF assms(2)] by simp
next
  case (moved n C m C')
  then show ?case using step_work [OF assms(2) moved.hyps(2)] by (simp split: if_splits)
qed

end
