(* ===== verification/Con_Members.thy ===== *)
theory Con_Members
  imports Con_Cluster
begin

text \<open>
  One honest node among others: what it publishes, and what it has recorded of the messages it
  has seen. The invariant of a node says that all it does is for one proposal and its hash.
\<close>

section \<open>Honest nodes\<close>

abbreviation vkey :: "('sk, 'pk) PrivKeys \<Rightarrow> (nat \<Rightarrow> 'sk MockPV) \<Rightarrow> nat \<Rightarrow> 'pk" where
  "vkey K pv i \<equiv> PrivKey_PubKey K (PrivKey (pv i))"

abbreviation vals :: "'pk scene \<Rightarrow> 'pk Proposer list" where
  "vals S \<equiv> Proposers (scSet S)"

text \<open>The set is one the program makes, and the honest nodes are set up for it: each signs with
  the key of its own entry, under one identifier.\<close>

definition staffed :: "'pk tm \<Rightarrow> ('sk, 'pk) PrivKeys \<Rightarrow> (nat \<Rightarrow> 'sk MockPV) \<Rightarrow> bytes \<Rightarrow> 'pk scene \<Rightarrow> bool" where
  "staffed T K pv chainID S \<longleftrightarrow> votable (scSet S) \<and> length (vals S) < 2 ^ 31 \<and>
     distinct (map Address (vals S)) \<and> (\<forall>v \<in> set (vals S). PubKey v \<noteq> None) \<and>
     distinct (map (map_option (PubKey_Bytes T) \<circ> PubKey) (vals S)) \<and>
     (\<forall>i \<in> scHonest S. i < length (vals S) \<and> PubKey (vals S ! i) = Some (vkey K pv i) \<and>
        Address (vals S ! i) = PubKey_Address T (vkey K pv i) \<and> Address (vals S ! i) \<noteq> [] \<and>
        length (Address (vals S ! i)) = crypto_AddressSize T \<and> \<not> breakVoteSigning (pv i) \<and>
        cId (scNode S i) = chainID \<and> cSelf (scNode S i) = mock T K (pv i) \<and> cSelfPK (scNode S i) = vkey K pv i)"

text \<open>Signing and the network work: signatures have a size a message may carry, proposals and
  votes of the times the clocks show can be marshalled, unmarshalling gives them back, and
  publishing succeeds.\<close>

definition works :: "'pk tm \<Rightarrow> ('sk, 'pk) PrivKeys \<Rightarrow> net \<Rightarrow> time set \<Rightarrow> bool" where
  "works T K N clock \<longleftrightarrow> keys_work T K \<and>
     (\<forall>sk m sig. PrivKey_Sign K sk m = Some sig \<longrightarrow> sig \<noteq> [] \<and> length sig \<le> MaxSignatureSize T) \<and>
     faithful N \<and> (\<forall>bz. Publish N bz) \<and>
     (\<forall>q. ppTimestamp q \<in> clock \<longrightarrow> Marshal N \<lparr>Sum = Some (Message_Proposal (Some q))\<rparr> \<noteq> None) \<and>
     (\<forall>v. pvTimestamp v \<in> clock \<longrightarrow> Marshal N \<lparr>Sum = Some (Message_Vote (Some v))\<rparr> \<noteq> None)"

text \<open>The proposer is honest, every honest node validates its data to the same hash, and both can
  be signed at any time the clocks show.\<close>

definition agreeable :: "'pk tm \<Rightarrow> bytes \<Rightarrow> nat \<Rightarrow> bytes \<Rightarrow> 'pk scene \<Rightarrow> bool" where
  "agreeable T chainID p hash S \<longleftrightarrow> p \<in> scHonest S \<and> proposer_of (scSet S) = Return (Some (vals S ! p)) \<and>
     (\<forall>i \<in> scHonest S. cValidate (scNode S i) (scData S p) = Some hash) \<and> hash_ok T \<lparr>Hash = hash\<rparr> \<and>
     (\<forall>q. prTimestamp q \<in> scClock S \<and> prData q = scData S p \<longrightarrow> proposal_checkable T chainID q) \<and>
     (\<forall>v. vTimestamp v \<in> scClock S \<and> vDataHash v = \<lparr>Hash = hash\<rparr> \<and> IsVoteTypeValid (vType v) \<longrightarrow>
        marshals T chainID v)"

definition assembled :: "'pk tm \<Rightarrow> ('sk, 'pk) PrivKeys \<Rightarrow> (nat \<Rightarrow> 'sk MockPV) \<Rightarrow> net \<Rightarrow> bytes \<Rightarrow> nat \<Rightarrow> bytes \<Rightarrow>
    'pk scene \<Rightarrow> bool" where
  "assembled T K pv N chainID p hash S \<longleftrightarrow>
     staffed T K pv chainID S \<and> works T K N (scClock S) \<and> agreeable T chainID p hash S"

lemma assembledD:
  assumes "assembled T K pv N chainID p hash S"
  shows "staffed T K pv chainID S" "works T K N (scClock S)" "agreeable T chainID p hash S"
  using assms by (simp_all add: assembled_def)

lemma staffedD:
  assumes "staffed T K pv chainID S"
  shows "votable (scSet S)" "length (vals S) < 2 ^ 31" "distinct (map Address (vals S))"
    "\<forall>v \<in> set (vals S). PubKey v \<noteq> None" "distinct (map (map_option (PubKey_Bytes T) \<circ> PubKey) (vals S))"
  using assms by (simp_all add: staffed_def)

lemma staffed_node:
  assumes "staffed T K pv chainID S" and "i \<in> scHonest S"
  shows "i < length (vals S)" "PubKey (vals S ! i) = Some (vkey K pv i)"
    "Address (vals S ! i) = PubKey_Address T (vkey K pv i)" "Address (vals S ! i) \<noteq> []"
    "length (Address (vals S ! i)) = crypto_AddressSize T" "\<not> breakVoteSigning (pv i)"
    "cId (scNode S i) = chainID" "cSelf (scNode S i) = mock T K (pv i)" "cSelfPK (scNode S i) = vkey K pv i"
  using assms by (auto simp: staffed_def)

lemma worksD:
  assumes "works T K N clock"
  shows "keys_work T K" "faithful N" "Publish N bz"
    "ppTimestamp q \<in> clock \<Longrightarrow> \<exists>bz. Marshal N \<lparr>Sum = Some (Message_Proposal (Some q))\<rparr> = Some bz"
    "pvTimestamp v \<in> clock \<Longrightarrow> \<exists>bz. Marshal N \<lparr>Sum = Some (Message_Vote (Some v))\<rparr> = Some bz"
    "\<exists>sig. PrivKey_Sign K sk m = Some sig"
    "PrivKey_Sign K sk m = Some sig \<Longrightarrow> sig \<noteq> [] \<and> length sig \<le> MaxSignatureSize T"
    "PrivKey_Sign K sk m = Some sig \<Longrightarrow> VerifySignature T (PrivKey_PubKey K sk) m sig"
  using assms by (auto simp: works_def keys_work_def keys_sound_def)

text \<open>The last match of \<open>find_self\<close> is the only one.\<close>

lemma find_self_none:
  "\<forall>v \<in> set vs. PubKey v \<noteq> None \<and> map_option (PubKey_Bytes T) (PubKey v) \<noteq> Some (PubKey_Bytes T k) \<Longrightarrow>
    find_self T k i vs index = Return index"
  by (induction vs arbitrary: i) auto

lemma find_self_nth:
  assumes "\<forall>v \<in> set vs. PubKey v \<noteq> None" and "distinct (map (map_option (PubKey_Bytes T) \<circ> PubKey) vs)"
    and "j < length vs" and "PubKey (vs ! j) = Some k"
  shows "find_self T k i vs index = Return (int (i + j))"
  using assms
proof (induction vs arbitrary: i j index)
  case (Cons v vs)
  show ?case
  proof (cases j)
    case 0
    then have "find_self T k (Suc i) vs (int i) = Return (int i)"
      using Cons.prems by (intro find_self_none) (auto simp: image_iff)
    then show ?thesis using 0 Cons.prems(4) by simp
  next
    case (Suc l)
    then have "find_self T k (Suc i) vs x = Return (int (Suc i + l))" for x
      using Cons.prems by (intro Cons.IH) simp_all
    then show ?thesis using Suc Cons.prems(1) by auto
  qed
qed simp

section \<open>The messages of honest nodes\<close>

text \<open>A message that holds the proposal of the data under a key, and one with a vote for a hash.\<close>

definition offers :: "'pk tm \<Rightarrow> net \<Rightarrow> bytes \<Rightarrow> 'pk \<Rightarrow> bytes \<Rightarrow> bytes \<Rightarrow> bool" where
  "offers T N chainID k data bz \<longleftrightarrow> (\<exists>q. content T N bz = OfProposal q \<and> prData q = data \<and>
     proposal_checkable T chainID q \<and> VerifySignature T k (proposal_bytes T chainID q) (prSignature q))"

definition votes_for :: "'pk tm \<Rightarrow> net \<Rightarrow> bytes \<Rightarrow> 'pk scene \<Rightarrow> SignedMsgType \<Rightarrow> nat \<Rightarrow> bytes \<Rightarrow> bytes \<Rightarrow> bool" where
  "votes_for T N chainID S t i hash bz \<longleftrightarrow> (\<exists>v. content T N bz = OfVote v \<and>
     good_vote T chainID t (vals S) i v \<and> vDataHash v = \<lparr>Hash = hash\<rparr>)"

text \<open>A message that may make a node panic: a proposal or a vote that has no sign bytes, because the
  data of the proposal is neither empty nor as long as a hash, or as it cannot be marshalled.\<close>

definition fatal :: "'pk tm \<Rightarrow> net \<Rightarrow> bytes \<Rightarrow> bytes \<Rightarrow> bool" where
  "fatal T N chainID bz \<longleftrightarrow> (\<exists>q. content T N bz = OfProposal q \<and> \<not> proposal_checkable T chainID q) \<or>
     (\<exists>v. content T N bz = OfVote v \<and> \<not> marshals T chainID v)"

lemma honest_not_fatal:
  "offers T N chainID k data bz \<Longrightarrow> \<not> fatal T N chainID bz"
  "votes_for T N chainID S t i hash bz \<Longrightarrow> \<not> fatal T N chainID bz"
  by (auto simp: offers_def votes_for_def fatal_def good_vote_def)

lemma faithful_content:
  assumes "faithful N" and "Marshal N m = Some bz"
  shows "content T N bz = (case Sum m of
      None \<Rightarrow> NoContent
    | Some (Message_Proposal pp) \<Rightarrow> (case ProposalFromProto T pp of Inl err \<Rightarrow> NoContent | Inr p \<Rightarrow> OfProposal p)
    | Some (Message_Vote pv) \<Rightarrow> (case VoteFromProto T pv of Inl err \<Rightarrow> NoContent | Inr v \<Rightarrow> OfVote v))"
  using assms by (simp add: content_def faithful_def)

lemma published_vote:
  assumes w: "works T K N clock" and now: "vTimestamp v \<in> clock" and v: "Vote_ValidateBasic T v = None"
    and pb: "Vote_ToProto (Some v) = Some pb"
  shows "\<exists>bz. publish N (ProtoVote pb) r = (r\<lparr>rTopic := rTopic r @ [bz]\<rparr>, None) \<and> content T N bz = OfVote v"
proof -
  obtain bz where bz: "Marshal N \<lparr>Sum = Some (Message_Vote (Some pb))\<rparr> = Some bz"
    using worksD(5) [OF w, of pb] now pb by (auto simp: Vote_ToProto_def)
  have "VoteFromProto T (Some pb) = Inr v" using vote_wire.decode_encode [OF v] pb by simp
  then have "content T N bz = OfVote v" using faithful_content [OF worksD(2) [OF w] bz, of T] by simp
  then show ?thesis using bz worksD(3) [OF w] by (intro exI [of _ bz]) (simp add: publish_def encodeMsg_def)
qed

lemma published_proposal:
  assumes w: "works T K N clock" and now: "prTimestamp q \<in> clock" and q: "Proposal_ValidateBasic T q = None"
  shows "\<exists>bz. publish N (ProtoProposal (Proposal_ToProto (Some q))) r = (r\<lparr>rTopic := rTopic r @ [bz]\<rparr>, None) \<and>
    content T N bz = OfProposal q"
proof -
  obtain bz where bz: "Marshal N \<lparr>Sum = Some (Message_Proposal (Some (Proposal_ToProto (Some q))))\<rparr> = Some bz"
    using worksD(4) [OF w, of "Proposal_ToProto (Some q)"] now by (auto simp: Proposal_ToProto_def)
  have "content T N bz = OfProposal q"
    using faithful_content [OF worksD(2) [OF w] bz, of T] proposal_wire.decode_encode [OF q] by simp
  then show ?thesis using bz worksD(3) [OF w] by (intro exI [of _ bz]) (simp add: publish_def encodeMsg_def)
qed

text \<open>A round of the node of validator \<open>i\<close>.\<close>

definition round_of :: "'pk tm \<Rightarrow> ('sk, 'pk) PrivKeys \<Rightarrow> (nat \<Rightarrow> 'sk MockPV) \<Rightarrow> bytes \<Rightarrow> nat \<Rightarrow> 'pk round \<Rightarrow> bool" where
  "round_of T K pv chainID i r \<longleftrightarrow> rConcordId r = chainID \<and> rRound r = 0 \<and> piSelf (rValInfo r) = mock T K (pv i) \<and>
     piSelfPK (rValInfo r) = vkey K pv i \<and> piSelfIndex (rValInfo r) = int i"

lemma vote_publishes:
  assumes a: "assembled T K pv N chainID p hash S" and i: "i \<in> scHonest S" and r: "round_of T K pv chainID i r"
    and t: "IsVoteTypeValid t" and now: "now \<in> scClock S"
  shows "\<exists>bz. vote T N now hash t r = Return (r\<lparr>rTopic := rTopic r @ [bz]\<rparr>, None) \<and>
    votes_for T N chainID S t i hash bz"
proof -
  note st = assembledD(1) [OF a] and w = assembledD(2) [OF a] and ag = assembledD(3) [OF a]
  note node = staffed_node [OF st i]
  let ?k = "vkey K pv i"
  let ?v = "\<lparr>vType = t, vDataHash = \<lparr>Hash = hash\<rparr>, vTimestamp = now, vValidatorAddress = PubKey_Address T ?k,
    vValidatorIndex = int i, vSignature = []\<rparr>"
  have h: "hash_ok T \<lparr>Hash = hash\<rparr>" using ag by (simp add: agreeable_def)
  have marsh: "marshals T chainID (?v\<lparr>vSignature := sg\<rparr>)" for sg
    using ag t now by (simp add: agreeable_def)
  have key: "GetPubKey (mock T K (pv i)) = Some ?k" by (simp add: mock_def MockPV_GetPubKey_def)
  have honest: "keys_work T K \<and> \<not> breakVoteSigning (pv i)" using worksD(1) [OF w] node(6) by simp
  obtain pb where pb: "Vote_ToProto (Some ?v) = Some pb" by (simp add: Vote_ToProto_def)
  obtain v' where v': "SignVote (mock T K (pv i)) chainID pb = Return (Some v')"
    "Vote_Verify T (?v\<lparr>vSignature := pvSignature v'\<rparr>) chainID (Some ?k) = Return None"
    using working.signs_vote [OF honest key, of ?v chainID] h marsh [of "[]"] pb by auto
  let ?w = "?v\<lparr>vSignature := pvSignature v'\<rparr>"
  obtain sig bz where sig: "v' = pb\<lparr>pvSignature := sig\<rparr>" "PrivKey_Sign K (PrivKey (pv i)) bz = Some sig"
    using v'(1) by (auto simp: mock_def MockPV_SignVote_def Let_def split: option.splits)
  have wpb: "Vote_ToProto (Some ?w) = Some v'" using sig(1) pb by (auto simp: Vote_ToProto_def)
  have "Vote_ValidateBasic T ?w = None"
    using worksD(7) [OF w sig(2)] h t node(3,5) sig(1) by (simp add: Vote_ValidateBasic_ok)
  from published_vote [OF w _ this wpb, of r] obtain bz where
    pub: "publish N (ProtoVote v') r = (r\<lparr>rTopic := rTopic r @ [bz]\<rparr>, None)" "content T N bz = OfVote ?w"
    using now by auto
  have "signed_by T chainID ?k ?w" using Vote_Verify_None [OF v'(2)] by simp
  then have "good_vote T chainID t (vals S) i ?w"
    using node h marsh by (simp add: good_vote_def)
  then have "votes_for T N chainID S t i hash bz" using pub(2) by (auto simp: votes_for_def)
  moreover have "vote T N now hash t r = Return (r\<lparr>rTopic := rTopic r @ [bz]\<rparr>, None)"
    using r v'(1) pub(1) by (simp add: vote_def NewVote_def round_of_def pb)
  ultimately show ?thesis by blast
qed

lemma propose_publishes:
  assumes a: "assembled T K pv N chainID p hash S" and r: "round_of T K pv chainID p r"
    and now: "now \<in> scClock S"
  shows "\<exists>bz. propose N now (scData S p) r = Return (r\<lparr>rTopic := rTopic r @ [bz]\<rparr>, None) \<and>
    offers T N chainID (vkey K pv p) (scData S p) bz"
proof -
  note w = assembledD(2) [OF a] and ag = assembledD(3) [OF a]
  let ?q = "NewProposal now 0 0 (scData S p)"
  have ok: "proposal_checkable T chainID (?q\<lparr>prSignature := sg\<rparr>)" for sg
    using ag now by (simp add: agreeable_def NewProposal_def)
  from ok [of "[]"] have ok0: "proposal_checkable T chainID ?q" by (simp add: NewProposal_def)
  then have bz: "ProposalSignBytes T chainID (Proposal_ToProto (Some ?q)) = Return (proposal_bytes T chainID ?q)"
    unfolding ProposalSignBytes_eq by (simp add: proposal_checkable_def)
  obtain sig where sig: "PrivKey_Sign K (PrivKey (pv p)) (proposal_bytes T chainID ?q) = Some sig"
    using worksD(6) [OF w] by blast
  let ?s = "?q\<lparr>prSignature := sig\<rparr>"
  have pb: "(Proposal_ToProto (Some ?q))\<lparr>ppSignature := sig\<rparr> = Proposal_ToProto (Some ?s)"
    by (simp add: Proposal_ToProto_def)
  have "Proposal_ValidateBasic T ?s = None"
    using worksD(7) [OF w sig] by (simp add: Proposal_ValidateBasic_ok NewProposal_def)
  from published_proposal [OF w _ this, of r] obtain bin where
    pub: "publish N (ProtoProposal (Proposal_ToProto (Some ?s))) r = (r\<lparr>rTopic := rTopic r @ [bin]\<rparr>, None)"
      "content T N bin = OfProposal ?s" using now by (auto simp: NewProposal_def)
  have "proposal_bytes T chainID ?s = proposal_bytes T chainID ?q"
    by (simp add: proposal_bytes_def canonical_proposal_def)
  then have "offers T N chainID (vkey K pv p) (scData S p) bin"
    using pub(2) ok [of sig] worksD(8) [OF w sig] by (auto simp: offers_def NewProposal_def)
  moreover have "propose N now (scData S p) r = Return (r\<lparr>rTopic := rTopic r @ [bin]\<rparr>, None)"
    using r bz sig pub(1) pb
    by (simp add: propose_def round_of_def mock_def MockPV_SignProposal_def Let_def)
  ultimately show ?thesis by blast
qed

end
