(* ===== verification/Con_MemberInv.thy ===== *)
theory Con_MemberInv
  imports Con_Members
begin

text \<open>
  The invariant of one honest node in a cluster: beginning the call establishes it, going on
  and handling a message keep it, and it tells when the node can go on.
\<close>

section \<open>The invariant\<close>

text \<open>Every vote of an honest validator that the node holds is for the hash.\<close>

definition tally_for :: "'pk scene \<Rightarrow> bytes \<Rightarrow> 'pk round \<Rightarrow> bool" where
  "tally_for S hash r \<longleftrightarrow> (\<forall>t vs j w. rVotes r t = Some vs \<longrightarrow> j \<in> scHonest S \<longrightarrow> stored vs j w \<longrightarrow>
     vDataHash w = \<lparr>Hash = hash\<rparr>)"

fun casts :: "phase \<Rightarrow> SignedMsgType set" where
  "casts AwaitProposal = {}"
| "casts (AwaitPrevotes data hash) = {PrevoteType}"
| "casts (AwaitPrecommits data hash) = {PrevoteType, PrecommitType}"
| "casts (Agreed data commit) = {PrevoteType, PrecommitType}"
| "casts (Failed e) = {}"

fun phase_for :: "bytes \<Rightarrow> bytes \<Rightarrow> phase \<Rightarrow> bool" where
  "phase_for data hash AwaitProposal \<longleftrightarrow> True"
| "phase_for data hash (AwaitPrevotes d h) \<longleftrightarrow> d = data \<and> h = hash"
| "phase_for data hash (AwaitPrecommits d h) \<longleftrightarrow> d = data \<and> h = hash"
| "phase_for data hash (Agreed d commit) \<longleftrightarrow> d = data \<and> cmDataHash commit = \<lparr>Hash = hash\<rparr>"
| "phase_for data hash (Failed e) \<longleftrightarrow> False"

text \<open>The node has published the proposal, if it is the proposer, its votes so far, and no more.\<close>

definition logged :: "'pk tm \<Rightarrow> ('sk, 'pk) PrivKeys \<Rightarrow> (nat \<Rightarrow> 'sk MockPV) \<Rightarrow> net \<Rightarrow> bytes \<Rightarrow> nat \<Rightarrow> bytes \<Rightarrow>
    'pk scene \<Rightarrow> nat \<Rightarrow> phase \<Rightarrow> bytes set \<Rightarrow> bool" where
  "logged T K pv N chainID p hash S i ph msgs \<longleftrightarrow>
     (\<forall>d \<in> msgs. i = p \<and> offers T N chainID (vkey K pv p) (scData S p) d \<or>
        (\<exists>t. IsVoteTypeValid t \<and> votes_for T N chainID S t i hash d)) \<and>
     (i = p \<longrightarrow> (\<exists>d \<in> msgs. offers T N chainID (vkey K pv p) (scData S p) d)) \<and>
     (\<forall>t \<in> casts ph. \<exists>d \<in> msgs. votes_for T N chainID S t i hash d)"

text \<open>What the node has seen it has not forgotten.\<close>

definition heard :: "'pk tm \<Rightarrow> ('sk, 'pk) PrivKeys \<Rightarrow> (nat \<Rightarrow> 'sk MockPV) \<Rightarrow> net \<Rightarrow> bytes \<Rightarrow> nat \<Rightarrow> bytes \<Rightarrow>
    'pk scene \<Rightarrow> phase \<Rightarrow> bytes set \<Rightarrow> 'pk round \<Rightarrow> bool" where
  "heard T K pv N chainID p hash S ph seen r \<longleftrightarrow> (\<forall>d \<in> seen.
     (offers T N chainID (vkey K pv p) (scData S p) d \<longrightarrow> ph = AwaitProposal \<longrightarrow> rPropCh r \<noteq> []) \<and>
     (\<forall>t j. votes_for T N chainID S t j hash d \<longrightarrow> (\<exists>vs. rVotes r t = Some vs \<and> vsVotes vs ! j \<noteq> None)))"

definition round_ok :: "'pk tm \<Rightarrow> ('sk, 'pk) PrivKeys \<Rightarrow> (nat \<Rightarrow> 'sk MockPV) \<Rightarrow> net \<Rightarrow> bytes \<Rightarrow> nat \<Rightarrow> bytes \<Rightarrow>
    'pk scene \<Rightarrow> nat \<Rightarrow> phase \<Rightarrow> bytes set \<Rightarrow> 'pk round \<Rightarrow> bool" where
  "round_ok T K pv N chainID p hash S i ph seen r \<longleftrightarrow>
     round_inv T chainID (scSet S) r \<and> round_of T K pv chainID i r \<and> set (rPropCh r) \<subseteq> {scData S p} \<and>
     tally_for S hash r \<and> phase_for (scData S p) hash ph \<and>
     logged T K pv N chainID p hash S i ph (set (rTopic r)) \<and>
     heard T K pv N chainID p hash S ph seen r"

text \<open>A message that does not forge what an honest node says.\<close>

definition fair :: "'pk tm \<Rightarrow> ('sk, 'pk) PrivKeys \<Rightarrow> (nat \<Rightarrow> 'sk MockPV) \<Rightarrow> net \<Rightarrow> bytes \<Rightarrow> nat \<Rightarrow> bytes \<Rightarrow>
    'pk scene \<Rightarrow> bytes \<Rightarrow> bool" where
  "fair T K pv N chainID p hash S data \<longleftrightarrow>
     (\<forall>v j. content T N data = OfVote v \<longrightarrow> j \<in> scHonest S \<longrightarrow> vValidatorIndex v = int j \<longrightarrow>
        signed_by T chainID (vkey K pv j) v \<longrightarrow> vDataHash v = \<lparr>Hash = hash\<rparr>) \<and>
     (\<forall>q. content T N data = OfProposal q \<longrightarrow>
        VerifySignature T (vkey K pv p) (proposal_bytes T chainID q) (prSignature q) \<longrightarrow> prData q = scData S p)"

lemma round_okD:
  assumes "round_ok T K pv N chainID p hash S i ph seen r"
  shows "round_inv T chainID (scSet S) r" "round_of T K pv chainID i r" "set (rPropCh r) \<subseteq> {scData S p}"
    "tally_for S hash r" "phase_for (scData S p) hash ph"
    "logged T K pv N chainID p hash S i ph (set (rTopic r))" "heard T K pv N chainID p hash S ph seen r"
  using assms by (simp_all add: round_ok_def)

section \<open>Majorities\<close>

text \<open>More than two thirds of the power follows the program.\<close>

definition mostly_honest :: "'pk scene \<Rightarrow> bool" where
  "mostly_honest S \<longleftrightarrow> power_sum (vals S) * 2 < 3 * validators.power (vals S) (scHonest S)"

lemma majority_hash:
  assumes inv: "round_inv T chainID (scSet S) r" and st: "staffed T K pv chainID S" and most: "mostly_honest S"
    and tally: "tally_for S hash r" and vs: "rVotes r t = Some vs" "vsMaj23 vs = Some h"
  shows "h = \<lparr>Hash = hash\<rparr>"
proof -
  have t: "t \<in> {PrevoteType, PrecommitType}" using inv vs(1) by (auto simp: round_inv_def)
  from round_votes [OF inv staffedD(1) [OF st] t] obtain vs' where
    "rVotes r t = Some vs'" "vote_inv T vs'" "members vs' = vals S" by metis
  then have v: "vote_inv T vs" "members vs = vals S" using vs(1) by simp_all
  note core = vote_invD(1) [OF v(1)]
  have len: "length (vsVotes vs) = length (vals S)" using core_invD(4) [OF core] v(2) by simp
  have "voted_for (vsVotes vs) h \<inter> scHonest S \<noteq> {}"
  proof
    assume none: "voted_for (vsVotes vs) h \<inter> scHonest S = {}"
    have "scHonest S \<subseteq> {..<length (vals S)}" using st by (auto simp: staffed_def)
    moreover have "voted_for (vsVotes vs) h \<subseteq> {..<length (vals S)}" using voted_for_subset len by metis
    ultimately show False
      using validators.disjoint_quorums [OF core_invD(1) [OF core], of "voted_for (vsVotes vs) h" "scHonest S"]
        none majority_canonical [OF core vs(2)] most v(2)
      by (simp add: mostly_honest_def validators.quorum_iff)
  qed
  then obtain j where j: "j \<in> voted_for (vsVotes vs) h" "j \<in> scHonest S" by blast
  from j(1) obtain w where "vsVotes vs ! j = Some w" "vDataHash w = h" by (auto simp: voted_for_iff)
  then show ?thesis using tally vs(1) j(2) by (auto simp: tally_for_def stored_def)
qed

text \<open>Once the votes of honest nodes with more than two thirds of the power have arrived, the node can
  go on.\<close>

lemma arrived_majority:
  assumes inv: "round_inv T chainID (scSet S) r" and st: "staffed T K pv chainID S"
    and H: "H \<subseteq> scHonest S" "power_sum (vals S) * 2 < 3 * validators.power (vals S) H"
    and tally: "tally_for S hash r" and t: "t \<in> {PrevoteType, PrecommitType}"
    and all: "\<And>j. j \<in> H \<Longrightarrow> \<exists>vs. rVotes r t = Some vs \<and> vsVotes vs ! j \<noteq> None"
  shows "\<exists>vs. rVotes r t = Some vs \<and> vote_inv T vs \<and> vsSignedMsgType vs = t \<and>
    vsMaj23 vs = Some \<lparr>Hash = hash\<rparr> \<and> Vote_select False False t r = Return (Ready (Inr vs))"
proof -
  from round_votes [OF inv staffedD(1) [OF st] t] obtain vs where
    vs: "rVotes r t = Some vs" "vote_inv T vs" "vsSignedMsgType vs = t" "members vs = vals S" by metis
  have len: "length (vsVotes vs) = length (vals S)" using core_invD(4) [OF vote_invD(1) [OF vs(2)]] vs(4) by simp
  have "j \<in> voted_for (vsVotes vs) \<lparr>Hash = hash\<rparr>" if j: "j \<in> H" for j
  proof -
    obtain w where "vsVotes vs ! j = Some w" using all [OF j] vs(1) by auto
    moreover from this have "vDataHash w = \<lparr>Hash = hash\<rparr>"
      using tally vs(1) j H(1) by (auto simp: tally_for_def stored_def)
    moreover have "j < length (vals S)" using st j H(1) by (auto simp: staffed_def)
    ultimately show ?thesis using len by (simp add: voted_for_iff)
  qed
  then have sub: "H \<subseteq> voted_for (vsVotes vs) \<lparr>Hash = hash\<rparr>" by blast
  have "voted_for (vsVotes vs) \<lparr>Hash = hash\<rparr> \<subseteq> {..<length (vals S)}" using voted_for_subset len by metis
  then have "validators.power (vals S) H \<le> validators.power (vals S) (voted_for (vsVotes vs) \<lparr>Hash = hash\<rparr>)"
    using sub staffedD(1) [OF st] by (intro validators.power_mono) (simp_all add: votable_def)
  then have q: "quorum_for (scSet S) vs \<lparr>Hash = hash\<rparr>"
    using H(2) by (simp add: quorum_for_def)
  from Vote_select_quorum [OF inv staffedD(1) [OF st] t] obtain vs' where
    "rVotes r t = Some vs'" "\<And>h. quorum_for (scSet S) vs' h \<longleftrightarrow> vsMaj23 vs' = Some h"
    "\<And>pick. Vote_select False pick t r = Return (if vsMaj23 vs' = None then Blocks else Ready (Inr vs'))" by metis
  then show ?thesis using q vs by (intro exI [of _ vs]) simp
qed

section \<open>Going on\<close>

lemma round_ok_log:
  assumes "round_ok T K pv N chainID p hash S i ph seen r" and "votes_for T N chainID S t i hash bz"
    and "IsVoteTypeValid t" and "casts ph' \<subseteq> insert t (casts ph)" and "phase_for (scData S p) hash ph'"
    and "ph' \<noteq> AwaitProposal"
  shows "round_ok T K pv N chainID p hash S i ph' seen (r\<lparr>rTopic := rTopic r @ [bz]\<rparr>)"
proof -
  have "logged T K pv N chainID p hash S i ph' (insert bz (set (rTopic r)))"
    using round_okD(6) [OF assms(1)] assms(2-4) unfolding logged_def by blast
  moreover have "heard T K pv N chainID p hash S ph' seen (r\<lparr>rTopic := rTopic r @ [bz]\<rparr>)"
    using round_okD(7) [OF assms(1)] assms(6) by (simp add: heard_def)
  ultimately show ?thesis
    using round_okD [OF assms(1)] assms(5)
    by (simp add: round_ok_def round_inv_topic) (simp add: round_of_def tally_for_def)
qed

lemma round_ok_phase:
  assumes "round_ok T K pv N chainID p hash S i ph seen r" and "casts ph' \<subseteq> casts ph"
    and "phase_for (scData S p) hash ph'" and "ph' \<noteq> AwaitProposal"
  shows "round_ok T K pv N chainID p hash S i ph' seen r"
  using assms unfolding round_ok_def logged_def heard_def by blast

text \<open>A vote of the node, with the phase it leads to.\<close>

lemma cast_vote_member:
  assumes a: "assembled T K pv N chainID p hash S" and i: "i \<in> scHonest S" and now: "now \<in> scClock S"
    and ok: "round_ok T K pv N chainID p hash S i ph seen r"
    and t: "IsVoteTypeValid t" and ph': "casts ph' \<subseteq> insert t (casts ph)" "phase_for (scData S p) hash ph'"
      "ph' \<noteq> AwaitProposal"
  shows "\<exists>r'. cast_vote T N now hash t ph' r c = Return (c\<lparr>cRound := Some r'\<rparr>, ph') \<and>
    round_ok T K pv N chainID p hash S i ph' seen r'"
proof -
  from vote_publishes [OF a i round_okD(2) [OF ok] t now] obtain bz where
    bz: "vote T N now hash t r = Return (r\<lparr>rTopic := rTopic r @ [bz]\<rparr>, None)"
      "votes_for T N chainID S t i hash bz" by blast
  from round_ok_log [OF ok bz(2) t ph'] bz(1) show ?thesis
    by (intro exI [of _ "r\<lparr>rTopic := rTopic r @ [bz]\<rparr>"]) (simp add: cast_vote_def)
qed

lemma resume_proposal_member:
  assumes a: "assembled T K pv N chainID p hash S" and i: "i \<in> scHonest S"
    and now: "now \<in> scClock S"
    and r: "cRound c = Some r" and c: "c = (scNode S i)\<lparr>cRound := Some r\<rparr>"
    and ok: "round_ok T K pv N chainID p hash S i ph seen r"
    and run: "AgreeOn_resume T N False False now ph c = Return (Ready (c', ph'))"
    and AwaitProposal: "ph = AwaitProposal"
  shows "\<exists>r'. c' = c\<lparr>cRound := Some r'\<rparr> \<and> round_ok T K pv N chainID p hash S i ph' seen r'"
proof -
  obtain d ch where ch: "rPropCh r = d # ch"
    using run r AwaitProposal by (cases "rPropCh r") (auto simp: AgreeOn_resume_def Propose_select_def)
  then have d: "d = scData S p" "ch = []"
    using round_okD(1,3) [OF ok] by (auto simp: round_inv_def)
  have v: "cValidate c d = Some hash" using assembledD(3) [OF a] i d c by (simp add: agreeable_def)
  let ?r = "r\<lparr>rPropCh := []\<rparr>"
  have cast: "cast_vote T N now hash PrevoteType (AwaitPrevotes d hash) ?r c = Return (c', ph')"
    using run r ch d v AwaitProposal by (auto simp: AgreeOn_resume_def Propose_select_def got_proposal_def)
  from vote_publishes [OF a i _ _ now, of ?r PrevoteType] obtain bz where
    bz: "vote T N now hash PrevoteType ?r = Return (?r\<lparr>rTopic := rTopic r @ [bz]\<rparr>, None)"
      "votes_for T N chainID S PrevoteType i hash bz"
    using round_okD(2) [OF ok] by (auto simp: round_of_def IsVoteTypeValid_def)
  have "round_ok T K pv N chainID p hash S i (AwaitPrevotes d hash) seen (r\<lparr>rTopic := rTopic r @ [bz]\<rparr>)"
    using d AwaitProposal by (intro round_ok_log [OF ok bz(2)]) (simp_all add: IsVoteTypeValid_def)
  then have "round_ok T K pv N chainID p hash S i (AwaitPrevotes d hash) seen (?r\<lparr>rTopic := rTopic r @ [bz]\<rparr>)"
    using round_inv_propCh [OF round_okD(1) [OF ok], of "[]"]
    by (simp add: round_ok_def round_inv_topic) (auto simp: round_of_def tally_for_def heard_def)
  then show ?thesis using cast bz(1) by (auto simp: cast_vote_def)
qed

lemma resume_precommits_member:
  assumes a: "assembled T K pv N chainID p hash S" and most: "mostly_honest S" and i: "i \<in> scHonest S"
    and r: "cRound c = Some r" and c: "c = (scNode S i)\<lparr>cRound := Some r\<rparr>"
    and ok: "round_ok T K pv N chainID p hash S i ph seen r"
    and run: "AgreeOn_resume T N False False now ph c = Return (Ready (c', ph'))"
    and AwaitPrecommits: "ph = AwaitPrecommits d x"
  shows "\<exists>r'. c' = c\<lparr>cRound := Some r'\<rparr> \<and> round_ok T K pv N chainID p hash S i ph' seen r'"
proof -
  have d: "d = scData S p" using round_okD(5) [OF ok] AwaitPrecommits by simp
  obtain vs where vs: "rVotes r PrecommitType = Some vs" "votes_of T chainID PrecommitType (scSet S) vs"
    "vote_inv T vs" "\<And>h. quorum_for (scSet S) vs h \<longleftrightarrow> vsMaj23 vs = Some h"
    "\<And>pick. Vote_select False pick PrecommitType r = Return (if vsMaj23 vs = None then Blocks else Ready (Inr vs))"
    by (rule Vote_select_quorum [OF round_okD(1) [OF ok] staffedD(1) [OF assembledD(1) [OF a]], of PrecommitType],
        simp) (rule that)
  then obtain h where h: "vsMaj23 vs = Some h" and made: "got_precommits T d vs c = Return (c', ph')"
    using run r AwaitPrecommits vs(5) by (auto simp: AgreeOn_resume_def split: if_splits)
  then obtain commit where commit: "MakeCommit T vs = Return commit" "c' = c" "ph' = Agreed d commit"
    by (auto simp: got_precommits_def)
  have "h = \<lparr>Hash = hash\<rparr>"
    by (rule majority_hash [OF round_okD(1) [OF ok] assembledD(1) [OF a] most round_okD(4) [OF ok] vs(1) h])
  then have "cmDataHash commit = \<lparr>Hash = hash\<rparr>" using MakeCommit_hash [OF commit(1) h] by simp
  then have "round_ok T K pv N chainID p hash S i ph' seen r"
    using commit(3) d AwaitPrecommits by (intro round_ok_phase [OF ok]) simp_all
  then show ?thesis using commit(2) c by (intro exI [of _ r]) simp
qed

lemma resume_member:
  assumes a: "assembled T K pv N chainID p hash S" and most: "mostly_honest S" and i: "i \<in> scHonest S"
    and now: "now \<in> scClock S"
    and r: "cRound c = Some r" and c: "c = (scNode S i)\<lparr>cRound := Some r\<rparr>"
    and ok: "round_ok T K pv N chainID p hash S i ph seen r"
    and run: "AgreeOn_resume T N False False now ph c = Return (Ready (c', ph'))"
  shows "\<exists>r'. c' = c\<lparr>cRound := Some r'\<rparr> \<and> round_ok T K pv N chainID p hash S i ph' seen r'"
proof (cases ph)
  case AwaitProposal
  then show ?thesis by (rule resume_proposal_member [OF a i now r c ok run])
next
  case (AwaitPrevotes d x)
  then have d: "d = scData S p" "x = hash" using round_okD(5) [OF ok] by simp_all
  obtain vs where "rVotes r PrevoteType = Some vs"
    using round_votes [OF round_okD(1) [OF ok] staffedD(1) [OF assembledD(1) [OF a]], of PrevoteType] by blast
  then have cast: "cast_vote T N now hash PrecommitType (AwaitPrecommits d hash) r c = Return (c', ph')"
    using run r d AwaitPrevotes by (auto simp: AgreeOn_resume_def Vote_select_def split: if_splits)
  have "\<exists>r'. cast_vote T N now hash PrecommitType (AwaitPrecommits d hash) r c =
      Return (c\<lparr>cRound := Some r'\<rparr>, AwaitPrecommits d hash) \<and>
      round_ok T K pv N chainID p hash S i (AwaitPrecommits d hash) seen r'"
    using d AwaitPrevotes by (intro cast_vote_member [OF a i now ok]) (simp_all add: IsVoteTypeValid_def)
  then show ?thesis using cast by auto
next
  case (AwaitPrecommits d x)
  then show ?thesis by (rule resume_precommits_member [OF a most i r c ok run])
qed (use run r in \<open>simp_all add: AgreeOn_resume_def\<close>)

end
