(* ===== verification/Con_MemberMsgs.thy ===== *)
theory Con_MemberMsgs
  imports Con_MemberInv
begin

text \<open>
  How an honest node in a cluster begins its call and handles messages, when a message reaches
  it and when it can go on.
\<close>

section \<open>Beginning\<close>

lemma begin_member:
  assumes a: "assembled T K pv N chainID p hash S" and i: "i \<in> scHonest S" and now: "now \<in> scClock S"
  shows "\<exists>r. AgreeOn_begin T N now (scData S i) (Some (scSet S)) (scNode S i) =
      Return ((scNode S i)\<lparr>cRound := Some r\<rparr>, AwaitProposal) \<and>
    round_ok T K pv N chainID p hash S i AwaitProposal {} r"
proof -
  note st = assembledD(1) [OF a] and ag = assembledD(3) [OF a]
  note node = staffed_node [OF st i]
  have p: "p \<in> scHonest S" "proposer_of (scSet S) = Return (Some (vals S ! p))"
    using ag by (simp_all add: agreeable_def)
  have self: "find_self T (cSelfPK (scNode S i)) 0 (vals S) (-1) = Return (int i)"
    using find_self_nth [OF staffedD(4,5) [OF st] node(1), of _ 0 "-1"] node(2,9) by simp
  have wrap: "wrap32 (int i) = int i" "wrap32 0 = 0"
    using node(1) staffedD(2) [OF st] by simp_all (simp add: wrap32_def)
  let ?info = "\<lparr>piSet = scSet S, piSelf = mock T K (pv i), piSelfIndex = int i, piSelfPK = vkey K pv i\<rparr>"
  let ?r0 = "newRound 0 chainID [] ?info"
  have begins: "AgreeOn_begin T N now (scData S i) (Some (scSet S)) (scNode S i) =
      Return ((scNode S i)\<lparr>cRound := Some r\<rparr>, AwaitProposal)"
    if "Propose_begin T N now (scData S i) ?r0 = Return (r, None)" for r
    using that self wrap node(7-9) by (simp add: AgreeOn_begin_def Let_def)
  have inv0: "round_inv T chainID (scSet S) ?r0" using newRound_inv [where info = ?info] by simp
  obtain r1 where r1: "round_proposer ?r0 = Return (r1, vals S ! p)" "rPropCh r1 = rPropCh ?r0"
    "rVotes r1 = rVotes ?r0" "rConcordId r1 = chainID" using run_proposer [OF inv0 p(2)] .
  note keep = round_proposer_inv [OF inv0 r1(1)]
  have of1: "round_of T K pv chainID i r1" using keep r1(4) wrap(2) by (simp add: round_of_def newRound_def)
  have mine: "Address (vals S ! p) = PubKey_Address T (piSelfPK (rValInfo r1)) \<longleftrightarrow> i = p"
    using of1 node(1,3) staffed_node(1) [OF st p(1)] nth_eq_iff_index_eq [OF staffedD(3) [OF st], of p i]
    by (auto simp: round_of_def)
  have tally: "tally_for S hash r1"
    using st by (auto simp: tally_for_def r1(3) newRound_def stored_def NewVoteSet_def Size_def staffed_def
        split: if_splits)
  have empty: "rPropCh r1 = []" "rTopic r1 = []" using keep by (simp_all add: newRound_def)
  show ?thesis
  proof (cases "i = p")
    case True
    from propose_publishes [OF a _ now, of r1] of1 True obtain bz where
      bz: "propose N now (scData S p) r1 = Return (r1\<lparr>rTopic := [bz]\<rparr>, None)"
        "offers T N chainID (vkey K pv p) (scData S p) bz" using empty(2) by auto
    then have "Propose_begin T N now (scData S i) ?r0 = Return (r1\<lparr>rTopic := [bz]\<rparr>, None)"
      using r1(1) mine True by (simp add: Propose_begin_def isProposer_def)
    from begins [OF this] show ?thesis
      using bz(2) True keep of1 tally empty
      by (intro exI [of _ "r1\<lparr>rTopic := [bz]\<rparr>"])
        (simp add: round_ok_def round_inv_topic logged_def heard_def round_of_def tally_for_def)
  next
    case False
    then have "Propose_begin T N now (scData S i) ?r0 = Return (r1, None)"
      using r1(1) mine by (simp add: Propose_begin_def isProposer_def)
    from begins [OF this] show ?thesis
      using False keep of1 tally empty
      by (intro exI [of _ r1]) (simp add: round_ok_def logged_def heard_def)
  qed
qed

section \<open>Handling messages\<close>

lemma rcvProposal_eq:
  assumes inv: "round_inv T chainID s r" and v: "proposer_of s = Return (Some v)" "PubKey v = Some k"
    and q: "proposal_checkable T chainID q" and r1: "round_proposer r = Return (r1, v)"
  shows "rcvProposal T False False q r = Return
    (if \<not> VerifySignature T k (proposal_bytes T chainID q) (prSignature q) then (r1, Ready (Some ErrProposalSignature))
     else if rPropCh r = [] then (r1\<lparr>rPropCh := [prData q]\<rparr>, Ready None) else (r1, Blocks))"
proof -
  have "ProposalSignBytes T chainID (Proposal_ToProto (Some q)) = Return (proposal_bytes T chainID q)"
    using q unfolding ProposalSignBytes_eq by (simp add: proposal_checkable_def)
  moreover have "rPropCh r1 = rPropCh r" "rConcordId r1 = chainID"
    using round_proposer_inv [OF inv r1] by (simp_all add: round_inv_def)
  moreover have "length (rPropCh r) < 1 \<longleftrightarrow> rPropCh r = []" by (cases "rPropCh r") simp_all
  ultimately show ?thesis using r1 v(2) by (auto simp: rcvProposal_def)
qed

lemma rcvProposal_checkable:
  assumes "rcvProposal T ctxDone pick q r = Return x" and "round_inv T chainID s r"
  shows "proposal_checkable T chainID q"
proof -
  obtain r1 v where r1: "round_proposer r = Return (r1, v)" using assms(1) by (auto simp: rcvProposal_def)
  then have "rConcordId r1 = chainID" using round_proposer_inv [OF assms(2) r1] by (simp add: round_inv_def)
  then show ?thesis
    using assms(1) r1 ProposalSignBytes_eq [of T chainID q] by (auto simp: rcvProposal_def split: if_splits)
qed

text \<open>A round that differs only in what reading the proposer caches.\<close>

lemma round_ok_proposer:
  assumes ok: "round_ok T K pv N chainID p hash S i ph seen r" and r1: "round_proposer r = Return (r1, v)"
  shows "round_ok T K pv N chainID p hash S i ph seen r1"
proof -
  note keep = round_proposer_inv [OF round_okD(1) [OF ok] r1]
  then have "rConcordId r1 = chainID" by (simp add: round_inv_def)
  then show ?thesis
    using ok keep by (simp add: round_ok_def round_of_def tally_for_def heard_def)
qed

lemma handle_proposal_member:
  assumes a: "assembled T K pv N chainID p hash S" and r: "cRound c = Some r"
    and ok: "round_ok T K pv N chainID p hash S i ph seen r" and fair: "fair T K pv N chainID p hash S data"
    and q: "content T N data = OfProposal q"
    and run: "incoming T N sizeOf False False data c = Return (c', Ready res)"
  shows "\<exists>r'. c' = c\<lparr>cRound := Some r'\<rparr> \<and> round_ok T K pv N chainID p hash S i ph (insert data seen) r'"
proof -
  note inv = round_okD(1) [OF ok]
  have p: "proposer_of (scSet S) = Return (Some (vals S ! p))" "PubKey (vals S ! p) = Some (vkey K pv p)"
    using assembledD(3) [OF a] staffed_node(2) [OF assembledD(1) [OF a]] by (simp_all add: agreeable_def)
  obtain r1 where r1: "round_proposer r = Return (r1, vals S ! p)" using run_proposer [OF inv p(1)] by blast
  obtain r' w where rcv: "rcvProposal T False False q r = Return (r', w)"
    using run incoming_proposal_eq [OF q r, of sizeOf False False]
    by (cases "rcvProposal T False False q r") auto
  then have c': "c' = c\<lparr>cRound := Some r'\<rparr>" and w: "w \<noteq> Blocks"
    using run incoming_proposal_eq [OF q r, of sizeOf False False] by (cases w; simp)+
  note checkable = rcvProposal_checkable [OF rcv inv]
  note eq = rcvProposal_eq [OF inv p checkable r1]
  have ok1: "round_ok T K pv N chainID p hash S i ph seen r1" by (rule round_ok_proposer [OF ok r1])
  have other: "\<not> votes_for T N chainID S t j hash data" for t j using q by (simp add: votes_for_def)
  show ?thesis
  proof (cases "VerifySignature T (vkey K pv p) (proposal_bytes T chainID q) (prSignature q)")
    case False
    then have "\<not> offers T N chainID (vkey K pv p) (scData S p) data" using q by (simp add: offers_def)
    then show ?thesis
      using ok1 False rcv eq c' other by (intro exI [of _ r1]) (simp add: round_ok_def heard_def)
  next
    case True
    then have "r' = r1\<lparr>rPropCh := [prData q]\<rparr>" using rcv eq w by (auto split: if_splits)
    moreover have "prData q = scData S p" using fair q True by (simp add: fair_def)
    moreover have "round_inv T chainID (scSet S) r'" using rcvProposal_inv [OF inv rcv] .
    ultimately show ?thesis
      using ok1 c' other
      by (intro exI [of _ r']) (simp add: round_ok_def heard_def round_of_def tally_for_def)
  qed
qed

text \<open>What a set of votes holds after a vote arrives is fair, if it was and the arrival is.\<close>

lemma fair_arrival:
  assumes st: "staffed T K pv chainID S" and fair: "fair T K pv N chainID p hash S data"
    and v: "content T N data = OfVote v" and vs: "vsChainID vs = chainID" "members vs = vals S"
    and held: "\<And>w. stored vs j w \<Longrightarrow> vDataHash w = \<lparr>Hash = hash\<rparr>"
    and inv: "vote_inv T vs" and add: "VoteSet_AddVote T (Some v) (Some vs) = Return (vs', added, e)"
    and j: "j \<in> scHonest S" "stored vs' j w"
  shows "vDataHash w = \<lparr>Hash = hash\<rparr>"
proof (cases "stored vs j w")
  case True
  then show ?thesis by (rule held)
next
  case False
  have "j < length (vsVotes vs)"
    using staffed_node(1) [OF st j(1)] core_invD(4) [OF vote_invD(1) [OF inv]] vs(2) by simp
  then have "good_in T vs j v" "w = v"
    using AddVote_stores(1) [OF inv add] j(2) False by (auto simp: stores_def)
  then show ?thesis
    using fair v j(1) staffed_node(2) [OF st j(1)] vs by (auto simp: good_vote_def fair_def)
qed

lemma handle_vote_member:
  assumes a: "assembled T K pv N chainID p hash S" and r: "cRound c = Some r"
    and ok: "round_ok T K pv N chainID p hash S i ph seen r" and fair: "fair T K pv N chainID p hash S data"
    and v: "content T N data = OfVote v"
    and run: "incoming T N sizeOf False False data c = Return (c', Ready res)"
  shows "\<exists>r'. c' = c\<lparr>cRound := Some r'\<rparr> \<and> round_ok T K pv N chainID p hash S i ph (insert data seen) r'"
proof -
  note inv = round_okD(1) [OF ok] and st = assembledD(1) [OF a]
  have "IsVoteTypeValid (vType v)" using content_valid [OF v] by (simp add: Vote_ValidateBasic_ok)
  then have t: "vType v \<in> {PrevoteType, PrecommitType}" by (auto simp: IsVoteTypeValid_def)
  obtain vs where vs: "rVotes r (vType v) = Some vs" "votes_of T chainID (vType v) (scSet S) vs" "vote_inv T vs"
    "vsChainID vs = chainID" "vsSignedMsgType vs = vType v" "members vs = vals S"
    using round_votes [OF inv staffedD(1) [OF st] t] .
  obtain r' err where rcv: "rcvVote T v r = Return (r', err)" and c': "c' = c\<lparr>cRound := Some r'\<rparr>"
    using run incoming_vote_eq [OF v r, of sizeOf False False] by auto
  then obtain vs' added e where add: "VoteSet_AddVote T (Some v) (Some vs) = Return (vs', added, e)"
    "r' = r\<lparr>rVotes := (rVotes r)(vType v \<mapsto> vs')\<rparr>"
    using vs(1) by (auto simp: rcvVote_def)
  note stores = AddVote_stores [OF vs(3) add(1)]
  have len: "length (vsVotes vs) = length (vals S)" using core_invD(4) [OF vote_invD(1) [OF vs(3)]] vs(6) by simp
  have new: "vDataHash w = \<lparr>Hash = hash\<rparr>" if "j \<in> scHonest S" "stored vs' j w" for j w
    by (rule fair_arrival [OF st fair v vs(4,6) _ vs(3) add(1) that])
      (use round_okD(4) [OF ok] vs(1) that(1) in \<open>auto simp: tally_for_def\<close>)
  have tally: "tally_for S hash r'"
    using new round_okD(4) [OF ok] by (auto simp: tally_for_def add(2) split: if_splits)
  have kept: "vsVotes vs' ! j \<noteq> None" if "vsVotes vs ! j \<noteq> None" "j < length (vals S)" for j
    using stores(1) that len by (auto simp: stores_def)
  have "\<exists>vs. rVotes r' t = Some vs \<and> vsVotes vs ! j \<noteq> None" if d: "votes_for T N chainID S t j hash d" "d \<in> insert data seen" for d t j
  proof (cases "d = data")
    case True
    then have g: "good_vote T chainID t (vals S) j v" using d(1) v by (auto simp: votes_for_def)
    then have "t = vType v" by (simp add: good_vote_def)
    moreover have "vsVotes vs' ! j \<noteq> None" using g vs(4-6) \<open>t = vType v\<close> by (intro stores(2)) simp
    ultimately show ?thesis by (simp add: add(2))
  next
    case False
    then obtain vs0 where vs0: "rVotes r t = Some vs0" "vsVotes vs0 ! j \<noteq> None"
      using round_okD(7) [OF ok] d unfolding heard_def by blast
    have "j < length (vals S)" using d(1) by (auto simp: votes_for_def good_vote_def)
    then show ?thesis using vs0 vs(1) kept [of j] by (cases "t = vType v") (simp_all add: add(2))
  qed
  moreover have "\<not> offers T N chainID (vkey K pv p) (scData S p) data" using v by (simp add: offers_def)
  ultimately have "heard T K pv N chainID p hash S ph (insert data seen) r'"
    using round_okD(7) [OF ok] by (auto simp: heard_def add(2))
  then show ?thesis
    using ok c' tally rcvVote_inv [OF inv rcv]
    by (intro exI [of _ r']) (simp add: round_ok_def round_of_def add(2))
qed

lemma receive_member:
  assumes a: "assembled T K pv N chainID p hash S" and r: "cRound c = Some r"
    and ok: "round_ok T K pv N chainID p hash S i ph seen r" and fair: "fair T K pv N chainID p hash S data"
    and run: "incoming T N sizeOf False False data c = Return (c', Ready res)"
  shows "\<exists>r'. c' = c\<lparr>cRound := Some r'\<rparr> \<and> round_ok T K pv N chainID p hash S i ph (insert data seen) r'"
proof (cases "content T N data")
  case NoContent
  then have "c' = c" using run handle_content [of T N sizeOf False False data c] by (auto simp: incoming_verdict)
  moreover have "c = c\<lparr>cRound := Some r\<rparr>" using r by simp
  ultimately show ?thesis
    using ok NoContent by (intro exI [of _ r]) (simp add: round_ok_def heard_def offers_def votes_for_def)
next
  case (OfProposal q)
  then show ?thesis by (rule handle_proposal_member [OF a r ok fair _ run])
next
  case (OfVote v)
  then show ?thesis by (rule handle_vote_member [OF a r ok fair _ run])
qed

text \<open>A handler that blocks has at most cached the proposer.\<close>

lemma stall_member:
  assumes a: "assembled T K pv N chainID p hash S" and r: "cRound c = Some r"
    and ok: "round_ok T K pv N chainID p hash S i ph seen r"
    and run: "incoming T N sizeOf False False data c = Return (c', Blocks)"
  shows "\<exists>r'. c' = c\<lparr>cRound := Some r'\<rparr> \<and> round_ok T K pv N chainID p hash S i ph seen r'"
proof (cases "content T N data")
  case NoContent
  then show ?thesis using run handle_content [of T N sizeOf False False data c] by (auto simp: incoming_verdict)
next
  case (OfProposal q)
  note inv = round_okD(1) [OF ok]
  have p: "proposer_of (scSet S) = Return (Some (vals S ! p))" "PubKey (vals S ! p) = Some (vkey K pv p)"
    using assembledD(3) [OF a] staffed_node(2) [OF assembledD(1) [OF a]] by (simp_all add: agreeable_def)
  obtain r1 where r1: "round_proposer r = Return (r1, vals S ! p)" using run_proposer [OF inv p(1)] by blast
  obtain r' w where rcv: "rcvProposal T False False q r = Return (r', w)"
    using run incoming_proposal_eq [OF OfProposal r, of sizeOf False False]
    by (cases "rcvProposal T False False q r") auto
  note eq = rcvProposal_eq [OF inv p rcvProposal_checkable [OF rcv inv] r1]
  have "c' = c\<lparr>cRound := Some r'\<rparr>" "w = Blocks"
    using run rcv incoming_proposal_eq [OF OfProposal r, of sizeOf False False]
    by (auto split: wait.splits option.splits)
  moreover have "r' = r1" using rcv eq \<open>w = Blocks\<close> by (auto split: if_splits)
  ultimately show ?thesis using round_ok_proposer [OF ok r1] by blast
next
  case (OfVote v)
  then show ?thesis using run incoming_vote_eq [OF OfVote r, of sizeOf False False] by auto
qed

section \<open>What breaks a node\<close>

lemma vote_returns:
  assumes st: "staffed T K pv chainID S" and r: "cRound c = Some r"
    and ok: "round_ok T K pv N chainID p hash S i ph seen r"
    and v: "content T N data = OfVote v" "marshals T chainID v"
  shows "\<exists>c' res. incoming T N sizeOf False False data c = Return (c', Ready res)"
proof -
  have basic: "IsVoteTypeValid (vType v)" "hash_ok T (vDataHash v)"
    using content_valid [OF v(1)] by (simp_all add: Vote_ValidateBasic_ok)
  then have "vType v \<in> {PrevoteType, PrecommitType}" by (auto simp: IsVoteTypeValid_def)
  then obtain vs where vs: "rVotes r (vType v) = Some vs" "votes_of T chainID (vType v) (scSet S) vs"
      "vsChainID vs = chainID" "vsSignedMsgType vs = vType v" "members vs = vals S"
    using round_votes [OF round_okD(1) [OF ok] staffedD(1) [OF st]] by metis
  have "keys_set vs" using staffedD(4) [OF st] vs(5) by (simp add: keys_set_def)
  moreover have "checkable T vs v" using v(2) basic(2) vs(3) by (simp add: checkable_def)
  moreover have "vote_history T chainID (vType v) (scSet S) vs" using vs(2) by (simp add: votes_of_def)
  ultimately obtain vs' added err where "VoteSet_AddVote T (Some v) (Some vs) = Return (vs', added, err)"
    using AddVote_cases staffedD(1) [OF st] by metis
  then show ?thesis unfolding incoming_vote_eq [OF v(1) r] using vs(1) by (simp add: rcvVote_def)
qed

lemma incoming_breaks:
  assumes a: "assembled T K pv N chainID p hash S" and r: "cRound c = Some r"
    and ok: "round_ok T K pv N chainID p hash S i ph seen r"
    and run: "incoming T N sizeOf False False data c = Panic e"
  shows "fatal T N chainID data"
proof (cases "content T N data")
  case NoContent
  then show ?thesis using run handle_content [of T N sizeOf False False data c] by (auto simp: incoming_verdict)
next
  case (OfProposal q)
  note inv = round_okD(1) [OF ok]
  have p: "proposer_of (scSet S) = Return (Some (vals S ! p))" "PubKey (vals S ! p) = Some (vkey K pv p)"
    using assembledD(3) [OF a] staffed_node(2) [OF assembledD(1) [OF a]] by (simp_all add: agreeable_def)
  obtain r1 where r1: "round_proposer r = Return (r1, vals S ! p)" using run_proposer [OF inv p(1)] by blast
  have "\<not> proposal_checkable T chainID q"
  proof
    assume "proposal_checkable T chainID q"
    then show False
      using run unfolding incoming_proposal_eq [OF OfProposal r] by (auto simp: rcvProposal_eq [OF inv p _ r1] split: if_splits)
  qed
  then show ?thesis using OfProposal by (simp add: fatal_def)
next
  case (OfVote v)
  then show ?thesis using run vote_returns [OF assembledD(1) [OF a] r ok OfVote, of sizeOf] by (auto simp: fatal_def)
qed

section \<open>What reaches a node, and when it goes on\<close>

lemma offer_arrives:
  assumes a: "assembled T K pv N chainID p hash S" and r: "cRound c = Some r"
    and ok: "round_ok T K pv N chainID p hash S i ph seen r" and empty: "rPropCh r = []"
    and offer: "offers T N chainID (vkey K pv p) (scData S p) data"
  shows "\<exists>c' res. incoming T N sizeOf False False data c = Return (c', Ready res)"
proof -
  note inv = round_okD(1) [OF ok]
  have p: "proposer_of (scSet S) = Return (Some (vals S ! p))" "PubKey (vals S ! p) = Some (vkey K pv p)"
    using assembledD(3) [OF a] staffed_node(2) [OF assembledD(1) [OF a]] by (simp_all add: agreeable_def)
  obtain r1 where r1: "round_proposer r = Return (r1, vals S ! p)" using run_proposer [OF inv p(1)] by blast
  obtain q where q: "content T N data = OfProposal q" "proposal_checkable T chainID q"
    using offer by (auto simp: offers_def)
  show ?thesis
    unfolding incoming_proposal_eq [OF q(1) r] rcvProposal_eq [OF inv p q(2) r1] using empty by simp
qed

lemma vote_arrives:
  assumes a: "assembled T K pv N chainID p hash S" and r: "cRound c = Some r"
    and ok: "round_ok T K pv N chainID p hash S i ph seen r"
    and vote: "votes_for T N chainID S t j hash data"
  shows "\<exists>c' res. incoming T N sizeOf False False data c = Return (c', Ready res)"
proof -
  obtain v where "content T N data = OfVote v" "marshals T chainID v"
    using vote by (auto simp: votes_for_def good_vote_def)
  from vote_returns [OF assembledD(1) [OF a] r ok this] show ?thesis .
qed

lemma proposal_goes_on:
  assumes a: "assembled T K pv N chainID p hash S" and i: "i \<in> scHonest S" and now: "now \<in> scClock S"
    and r: "cRound c = Some r" and c: "c = (scNode S i)\<lparr>cRound := Some r\<rparr>"
    and ok: "round_ok T K pv N chainID p hash S i AwaitProposal seen r" and ch: "rPropCh r \<noteq> []"
  shows "\<exists>st. AgreeOn_resume T N False False now AwaitProposal c = Return (Ready st)"
proof -
  obtain d rest where d: "rPropCh r = d # rest" "d = scData S p"
    using ch round_okD(3) [OF ok] by (cases "rPropCh r") auto
  have v: "cValidate c d = Some hash" using assembledD(3) [OF a] i d c by (simp add: agreeable_def)
  have "round_of T K pv chainID i (r\<lparr>rPropCh := rest\<rparr>)" using round_okD(2) [OF ok] by (simp add: round_of_def)
  from vote_publishes [OF a i this _ now, of PrevoteType] show ?thesis
    using r d v by (auto simp: AgreeOn_resume_def Propose_select_def got_proposal_def cast_vote_def IsVoteTypeValid_def)
qed

lemma prevotes_go_on:
  assumes a: "assembled T K pv N chainID p hash S" and i: "i \<in> scHonest S" and now: "now \<in> scClock S"
    and r: "cRound c = Some r" and ok: "round_ok T K pv N chainID p hash S i (AwaitPrevotes d h) seen r"
    and sel: "Vote_select False False PrevoteType r = Return (Ready (Inr vs))"
  shows "\<exists>st. AgreeOn_resume T N False False now (AwaitPrevotes d h) c = Return (Ready st)"
proof -
  have h: "h = hash" using round_okD(5) [OF ok] by simp
  from vote_publishes [OF a i round_okD(2) [OF ok] _ now, of PrecommitType] show ?thesis
    using r sel h by (auto simp: AgreeOn_resume_def cast_vote_def IsVoteTypeValid_def)
qed

lemma precommits_go_on:
  assumes r: "cRound c = Some r" and sel: "Vote_select False False PrecommitType r = Return (Ready (Inr vs))"
    and vs: "vote_inv T vs" "vsSignedMsgType vs = PrecommitType" "vsMaj23 vs = Some h"
  shows "\<exists>st. AgreeOn_resume T N False False now (AwaitPrecommits d x) c = Return (Ready st)"
  using r sel MakeCommit_ok [OF vote_invD(1) [OF vs(1)] vs(2,3)]
  by (simp add: AgreeOn_resume_def got_precommits_def)

text \<open>A node never breaks on its own.\<close>

lemma resume_returns:
  assumes a: "assembled T K pv N chainID p hash S" and i: "i \<in> scHonest S" and now: "now \<in> scClock S"
    and r: "cRound c = Some r" and c: "c = (scNode S i)\<lparr>cRound := Some r\<rparr>"
    and ok: "round_ok T K pv N chainID p hash S i ph seen r"
  shows "AgreeOn_resume T N False False now ph c \<noteq> Panic e"
proof (cases ph)
  case AwaitProposal
  show ?thesis
  proof (cases "rPropCh r = []")
    case True
    then show ?thesis using r AwaitProposal by (simp add: AgreeOn_resume_def Propose_select_def)
  next
    case False
    from proposal_goes_on [OF a i now r c ok [unfolded AwaitProposal] this] obtain st where
      "AgreeOn_resume T N False False now AwaitProposal c = Return (Ready st)" by blast
    then show ?thesis using AwaitProposal by simp
  qed
next
  case (AwaitPrevotes d h)
  obtain vs where
    "\<And>pick. Vote_select False pick PrevoteType r = Return (if vsMaj23 vs = None then Blocks else Ready (Inr vs))"
    by (rule Vote_select_quorum [OF round_okD(1) [OF ok] staffedD(1) [OF assembledD(1) [OF a]], of PrevoteType],
        simp) (rule that)
  then consider "Vote_select False False PrevoteType r = Return Blocks"
    | "Vote_select False False PrevoteType r = Return (Ready (Inr vs))" by (cases "vsMaj23 vs") simp_all
  then show ?thesis
  proof cases
    case 1
    then show ?thesis using r AwaitPrevotes by (simp add: AgreeOn_resume_def)
  next
    case 2
    from prevotes_go_on [OF a i now r ok [unfolded AwaitPrevotes] this] obtain st where
      "AgreeOn_resume T N False False now (AwaitPrevotes d h) c = Return (Ready st)" by blast
    then show ?thesis using AwaitPrevotes by simp
  qed
next
  case (AwaitPrecommits d h)
  obtain vs where vs: "votes_of T chainID PrecommitType (scSet S) vs" "vote_inv T vs"
    "\<And>pick. Vote_select False pick PrecommitType r = Return (if vsMaj23 vs = None then Blocks else Ready (Inr vs))"
    by (rule Vote_select_quorum [OF round_okD(1) [OF ok] staffedD(1) [OF assembledD(1) [OF a]], of PrecommitType],
        simp) (rule that)
  have "vsSignedMsgType vs = PrecommitType"
    using vote_history_inv [of T chainID PrecommitType "scSet S" vs] staffedD(1) [OF assembledD(1) [OF a]] vs(1)
    by (simp add: votes_of_def)
  note t = this
  show ?thesis
  proof (cases "vsMaj23 vs")
    case None
    then show ?thesis using r AwaitPrecommits vs(3) by (simp add: AgreeOn_resume_def)
  next
    case (Some x)
    then have "Vote_select False False PrecommitType r = Return (Ready (Inr vs))" using vs(3) by simp
    from precommits_go_on [OF r this vs(2) t Some] obtain st where
      "AgreeOn_resume T N False False now (AwaitPrecommits d h) c = Return (Ready st)" by blast
    then show ?thesis using AwaitPrecommits by simp
  qed
qed (use r in \<open>simp_all add: AgreeOn_resume_def\<close>)

end
