(* ===== verification/Con_WireSample.thy ===== *)
theory Con_WireSample
  imports Con_Round "HOL-Library.Monad_Syntax"
begin

text \<open>
  A network on which every message can be sent, for the samples of clusters: fields one after
  the other, numbers in unary after their sign, byte strings after their length. With it go keys
  whose signatures have a bounded length.
\<close>

section \<open>Fields\<close>

definition put_nat :: "nat \<Rightarrow> bytes" where
  "put_nat n = replicate n 1 @ [0]"

fun get_nat :: "bytes \<Rightarrow> (nat \<times> bytes) option" where
  "get_nat [] = None"
| "get_nat (b # bs) = (if b = 0 then Some (0, bs) else map_option (map_prod Suc id) (get_nat bs))"

lemma get_put_nat [simp]: "get_nat (put_nat n @ bs) = Some (n, bs)"
  by (induction n) (simp_all add: put_nat_def)

definition put_int :: "int \<Rightarrow> bytes" where
  "put_int i = (if i < 0 then 1 else 0) # put_nat (nat \<bar>i\<bar>)"

fun get_int :: "bytes \<Rightarrow> (int \<times> bytes) option" where
  "get_int [] = None"
| "get_int (s # bs) = map_option (map_prod (\<lambda>n. if s = 1 then - int n else int n) id) (get_nat bs)"

lemma get_put_int [simp]: "get_int (put_int i @ bs) = Some (i, bs)"
  by (simp add: put_int_def)

definition put_bytes :: "bytes \<Rightarrow> bytes" where
  "put_bytes xs = put_nat (length xs) @ xs"

definition get_bytes :: "bytes \<Rightarrow> (bytes \<times> bytes) option" where
  "get_bytes bs = map_option (\<lambda>(n, rest). (take n rest, drop n rest)) (get_nat bs)"

lemma get_put_bytes [simp]: "get_bytes (put_bytes xs @ bs) = Some (xs, bs)"
  by (simp add: get_bytes_def put_bytes_def)

section \<open>Messages\<close>

definition put_vote :: "pb_Vote \<Rightarrow> bytes" where
  "put_vote v = put_int (pvType v) @ put_int (pvHeight v) @ put_int (pvRound v) @
     put_bytes (pbHash (pvDataHash v)) @ put_int (pvTimestamp v) @ put_bytes (pvValidatorAddress v) @
     put_int (pvValidatorIndex v) @ put_bytes (pvSignature v)"

definition get_vote :: "bytes \<Rightarrow> pb_Vote option" where
  "get_vote bs = do {
     (t, bs) \<leftarrow> get_int bs; (height, bs) \<leftarrow> get_int bs; (r, bs) \<leftarrow> get_int bs; (h, bs) \<leftarrow> get_bytes bs;
     (time, bs) \<leftarrow> get_int bs; (adr, bs) \<leftarrow> get_bytes bs; (index, bs) \<leftarrow> get_int bs; (sig, bs) \<leftarrow> get_bytes bs;
     Some \<lparr>pvType = t, pvHeight = height, pvRound = r, pvDataHash = \<lparr>pbHash = h\<rparr>, pvTimestamp = time,
       pvValidatorAddress = adr, pvValidatorIndex = index, pvSignature = sig\<rparr>}"

lemma get_put_vote [simp]: "get_vote (put_vote v) = Some v"
  using get_put_bytes [of "pvSignature v" "[]"] by (simp add: get_vote_def put_vote_def)

definition put_proposal :: "pb_Proposal \<Rightarrow> bytes" where
  "put_proposal q = put_int (ppType q) @ put_int (ppRound q) @ put_int (ppPolRound q) @ put_bytes (ppData q) @
     put_int (ppTimestamp q) @ put_bytes (ppSignature q)"

definition get_proposal :: "bytes \<Rightarrow> pb_Proposal option" where
  "get_proposal bs = do {
     (t, bs) \<leftarrow> get_int bs; (r, bs) \<leftarrow> get_int bs; (pol, bs) \<leftarrow> get_int bs; (d, bs) \<leftarrow> get_bytes bs;
     (time, bs) \<leftarrow> get_int bs; (sig, bs) \<leftarrow> get_bytes bs;
     Some \<lparr>ppType = t, ppRound = r, ppPolRound = pol, ppData = d, ppTimestamp = time, ppSignature = sig\<rparr>}"

lemma get_put_proposal [simp]: "get_proposal (put_proposal q) = Some q"
  using get_put_bytes [of "ppSignature q" "[]"] by (simp add: get_proposal_def put_proposal_def)

definition put_message :: "pb_Message \<Rightarrow> bytes" where
  "put_message m =
     (case Sum m of
        None \<Rightarrow> [0]
      | Some (Message_Proposal None) \<Rightarrow> [1]
      | Some (Message_Proposal (Some q)) \<Rightarrow> 2 # put_proposal q
      | Some (Message_Vote None) \<Rightarrow> [3]
      | Some (Message_Vote (Some v)) \<Rightarrow> 4 # put_vote v)"

fun get_message :: "bytes \<Rightarrow> pb_Message option" where
  "get_message [] = None"
| "get_message (b # bs) =
     (if b = 0 then Some \<lparr>Sum = None\<rparr>
      else if b = 1 then Some \<lparr>Sum = Some (Message_Proposal None)\<rparr>
      else if b = 2 then map_option (\<lambda>q. \<lparr>Sum = Some (Message_Proposal (Some q))\<rparr>) (get_proposal bs)
      else if b = 3 then Some \<lparr>Sum = Some (Message_Vote None)\<rparr>
      else map_option (\<lambda>v. \<lparr>Sum = Some (Message_Vote (Some v))\<rparr>) (get_vote bs))"

lemma get_put_message [simp]: "get_message (put_message m) = Some m"
  by (cases m) (auto simp: put_message_def split: option.split pb_Sum.split)

definition wire_net :: net where
  "wire_net = \<lparr>Marshal = (\<lambda>m. Some (put_message m)), Unmarshal = get_message, Publish = (\<lambda>_. True),
     Join = (\<lambda>_. True), Subscribe = (\<lambda>_. True), RegisterTopicValidator = (\<lambda>_. True)\<rparr>"

section \<open>Keys\<close>

text \<open>As \<open>sample_tm\<close>, with signatures of at most 64 bytes.\<close>

definition short_tm :: "bytes tm" where
  "short_tm = sample_tm\<lparr>VerifySignature := (\<lambda>k m s. s = 0 # take 63 (k @ m))\<rparr>"

definition short_keys :: "(bytes, bytes) PrivKeys" where
  "short_keys = \<lparr>PrivKey_PubKey = (\<lambda>sk. sk), PrivKey_Sign = (\<lambda>sk m. Some (0 # take 63 (sk @ m)))\<rparr>"

end
