(* ===== verification/Con_Consensus.thy ===== *)
theory Con_Consensus
  imports Con_MemberMsgs Con_WireSample
begin

text \<open>
  A cluster with an honest proposer reaches agreement: the invariant of all honest nodes, that
  none is left behind when the cluster rests, and the two theorems on its runs.
\<close>

section \<open>The invariant of the cluster\<close>









section \<open>A cluster at rest\<close>







section \<open>Termination\<close>

text \<open>A move that is due.\<close>

definition due_step :: "'pk tm \<Rightarrow> net \<Rightarrow> (BitArray option \<Rightarrow> int) \<Rightarrow> 'pk scene \<Rightarrow> 'pk cluster \<Rightarrow> 'pk cluster \<Rightarrow> bool" where
  "due_step T N sizeOf S C C' \<longleftrightarrow> (\<exists>m. cluster_step T N sizeOf S m C C' \<and> due S C m)"

lemma due_step_work:
  assumes "finite (scHonest S)" and "due_step T N sizeOf S C C'"
  shows "work S C' < work S C"
proof -
  obtain m where "cluster_step T N sizeOf S m C C'" "due S C m" using assms(2) by (auto simp: due_step_def)
  then show ?thesis using step_work [OF assms(1), of T N sizeOf m C C'] by simp
qed

lemma reaches_rest:
  assumes "finite (scHonest S)"
  shows "\<exists>C'. (due_step T N sizeOf S)\<^sup>*\<^sup>* C C' \<and> at_rest T N sizeOf S C'"
proof (induction "work S C" arbitrary: C rule: less_induct)
  case less
  show ?case
  proof (cases "at_rest T N sizeOf S C")
    case False
    then obtain C1 where C1: "due_step T N sizeOf S C C1" by (auto simp: at_rest_def due_step_def)
    from less [OF due_step_work [OF assms C1]] show ?thesis
      using C1 by (meson converse_rtranclp_into_rtranclp)
  qed blast
qed

lemma due_steps_run:
  assumes "cluster_run T N sizeOf S n C" and "(due_step T N sizeOf S)\<^sup>*\<^sup>* C C'"
  shows "\<exists>n'. cluster_run T N sizeOf S n' C'"
  using assms(2,1)
proof (induction arbitrary: n rule: converse_rtranclp_induct)
  case (step A B)
  then show ?case using cluster_run.moved unfolding due_step_def by blast
qed blast


text \<open>A cluster starts with every node up, and due moves keep them so: they are moves of honest nodes
  and their messages only.\<close>

lemma cluster_starts:
  assumes a: "assembled T K pv N chainID p hash S" and now: "now \<in> scClock S"
  shows "\<exists>C. cluster_run T N sizeOf S 0 C \<and> (\<forall>i \<in> scHonest S. meFate (C i) = Up)"
proof -
  have "\<exists>st. AgreeOn_begin T N now (scData S i) (Some (scSet S)) (scNode S i) = Return st"
    if "i \<in> scHonest S" for i using begin_member [OF a that now] by blast
  then obtain f where f: "\<And>i. i \<in> scHonest S \<Longrightarrow>
      AgreeOn_begin T N now (scData S i) (Some (scSet S)) (scNode S i) = Return (f i)" by metis
  let ?C = "\<lambda>i. \<lparr>meNode = fst (f i), mePhase = snd (f i), meSeen = {}, meFate = Up\<rparr>"
  have "begun_member T N S i (?C i)" if "i \<in> scHonest S" for i
    unfolding begun_member_def using now f [OF that] by (auto intro!: bexI [of _ now] split: prod.split)
  then have "cluster_run T N sizeOf S 0 ?C" by (rule cluster_run.begin_all)
  then show ?thesis by (intro exI [of _ ?C]) simp
qed




section \<open>A sample\<close>

text \<open>Four validators of equal power, the last one faulty; the first one proposes.\<close>

definition quad_scene :: "bytes scene" where
  "quad_scene =
     \<lparr>scSet = quad_set, scHonest = {0, 1, 2}, scClock = {5}, scData = (\<lambda>_. [7]),
      scNode = (\<lambda>i. \<lparr>cId = [9], cRound = None, cValidate = Some,
        cSelf = mock short_tm short_keys (NewMockPV [of_nat (Suc i)]), cSelfPK = [of_nat (Suc i)]\<rparr>)\<rparr>"

definition quad_keys :: "nat \<Rightarrow> bytes MockPV" where
  "quad_keys i = NewMockPV [of_nat (Suc i)]"

lemma quad_staffed: "staffed short_tm short_keys quad_keys [9] quad_scene"
  by (simp add: staffed_def quad_scene_def quad_set_def votable_def powers_ok_def cache_ok_def MaxTotalVotingPower_eq
      quad_keys_def NewMockPV_def short_keys_def short_tm_def sample_tm_def)

lemma quad_works: "works short_tm short_keys wire_net (scClock quad_scene)"
  by (simp add: works_def keys_work_def keys_sound_def faithful_def short_tm_def short_keys_def wire_net_def
      MaxSignatureSize_def sample_tm_def) (auto simp: min_def)

lemma quad_agreeable: "agreeable short_tm [9] 0 [7] quad_scene"
proof -
  have "proposer_of quad_set = Return (Some (Proposers quad_set ! 0))" by code_simp
  then show ?thesis
    by (simp add: agreeable_def quad_scene_def short_tm_def sample_simps proposal_checkable_def canonical_proposal_def
        IsVoteTypeValid_def) (auto simp: sample_simps)
qed


lemma quad_assembled: "assembled short_tm short_keys quad_keys wire_net [9] 0 [7] quad_scene"
  using quad_staffed quad_works quad_agreeable by (simp add: assembled_def)

lemma quad_clock: "5 \<in> scClock quad_scene"
  by (simp add: quad_scene_def)

lemma quad_finite: "finite (scHonest quad_scene)"
  by (simp add: quad_scene_def)


section \<open>Properties\<close>

text \<open>C6: termination of a cluster. Whatever faulty validators send and in whatever order messages
  arrive, the honest nodes make a bounded number of moves that are due, quadratic in their
  number; from every state they reach a state of rest by due moves alone.\<close>

theorem cluster_terminates:
  assumes "cluster_run T N sizeOf S n C" and "finite (scHonest S)"
  shows "n \<le> card (scHonest S) * (4 * card (scHonest S) + 3) \<and>
    (\<exists>C' n'. (due_step T N sizeOf S)\<^sup>*\<^sup>* C C' \<and> cluster_run T N sizeOf S n' C' \<and> at_rest T N sizeOf S C')"
proof
  show "n \<le> card (scHonest S) * (4 * card (scHonest S) + 3)" using cluster_work [OF assms] by simp
  obtain C' where "(due_step T N sizeOf S)\<^sup>*\<^sup>* C C'" "at_rest T N sizeOf S C'" using reaches_rest [OF assms(2)] by blast
  then show "\<exists>C' n'. (due_step T N sizeOf S)\<^sup>*\<^sup>* C C' \<and> cluster_run T N sizeOf S n' C' \<and> at_rest T N sizeOf S C'"
    using due_steps_run [OF assms(1)] by blast
qed

theorem cluster_terminates_witness:
  "\<exists>n C. cluster_run short_tm wire_net (\<lambda>_. 0) quad_scene n C \<and> at_rest short_tm wire_net (\<lambda>_. 0) quad_scene C \<and>
    n \<le> 45"
proof -
  have H: "card (scHonest quad_scene) = 3" by (simp add: quad_scene_def)
  obtain C where "cluster_run short_tm wire_net (\<lambda>_. 0) quad_scene 0 C"
    using cluster_starts [OF quad_assembled quad_clock] by blast
  from cluster_terminates [OF this quad_finite] obtain C' n' where
    rest: "cluster_run short_tm wire_net (\<lambda>_. 0) quad_scene n' C'" "at_rest short_tm wire_net (\<lambda>_. 0) quad_scene C'"
    by blast
  from cluster_terminates [OF rest(1) quad_finite] show ?thesis using rest H by auto
qed



end
