(* ===== verification/Go_Text.thy ===== *)
theory Go_Text
  imports Complex_Main "HOL-Library.Log_Nat" Go_Fmt
begin

text \<open>
  More of what the Go standard library prints: bytes in hexadecimal (\<open>%X\<close>), padded decimals,
  joined strings, times in UTC in the layout \<open>RFC3339Nano\<close>, and \<open>float64\<close> numbers with a
  fixed number of decimals (\<open>%.2f\<close>). A string is a list of characters.
\<close>

section \<open>Strings\<close>

definition newline :: string where
  "newline = [CHR 0x0A]"

fun strings_Join :: "string list \<Rightarrow> string \<Rightarrow> string" where
  "strings_Join [] sep = []"
| "strings_Join [x] sep = x"
| "strings_Join (x # y # ys) sep = x @ sep @ strings_Join (y # ys) sep"

definition hex_digit :: "nat \<Rightarrow> char" where
  "hex_digit n = char_of (if n < 10 then 48 + n else 55 + n)"

fun go_X :: "bytes \<Rightarrow> string" where
  "go_X [] = []"
| "go_X (b # bs) = hex_digit (unat b div 16) # hex_digit (unat b mod 16) # go_X bs"

lemma hex_digit_inj: "m < 16 \<Longrightarrow> n < 16 \<Longrightarrow> hex_digit m = hex_digit n \<longleftrightarrow> m = n"
proof
  assume "m < 16" "n < 16" "hex_digit m = hex_digit n"
  then have "(if m < 10 then 48 + m else 55 + m) = (if n < 10 then 48 + n else 55 + n)"
    by (simp add: hex_digit_def split: if_splits)
  then show "m = n" using \<open>m < 16\<close> \<open>n < 16\<close> by (auto split: if_splits)
qed simp

lemma go_X_inj [simp]: "go_X xs = go_X ys \<longleftrightarrow> xs = ys"
proof (induction xs arbitrary: ys)
  case (Cons x xs)
  have small: "unat b div 16 < 16" "unat b mod 16 < 16" for b :: "8 word"
    using unsigned_less [of b] by (simp_all add: div_less_iff_less_mult)
  have "unat b = unat c \<longleftrightarrow> unat b div 16 = unat c div 16 \<and> unat b mod 16 = unat c mod 16" for b c :: "8 word"
    by (metis div_mult_mod_eq)
  then have "b = c \<longleftrightarrow> unat b div 16 = unat c div 16 \<and> unat b mod 16 = unat c mod 16" for b c :: "8 word"
    by (metis word_unat_eq_iff)
  then show ?case using Cons.IH small by (cases ys) (auto simp: hex_digit_inj)
next
  case Nil
  then show ?case by (cases ys) auto
qed

text \<open>A decimal of at least \<open>w\<close> places, and \<open>%02d\<close>, where the sign takes a place.\<close>

definition padded :: "nat \<Rightarrow> nat \<Rightarrow> string" where
  "padded w n = replicate (w - length (go_nat n)) (CHR ''0'') @ go_nat n"

definition go_02d :: "int \<Rightarrow> string" where
  "go_02d i = (if i < 0 then ''-'' @ padded 1 (nat (- i)) else padded 2 (nat i))"

section \<open>Times\<close>

text \<open>
  A time is the number of nanoseconds since January 1 of the year 1, as in \<open>Pb_Types\<close>. The
  year comes from cycles of 400, 100, 4 and 1 years.
\<close>

definition civil_year :: "int \<Rightarrow> int \<times> int" where
  "civil_year d =
     (let d400 = d mod 146097;
          n100 = min 3 (d400 div 36524);
          d100 = d400 - 36524 * n100;
          d4 = d100 mod 1461;
          n1 = min 3 (d4 div 365)
      in (1 + 400 * (d div 146097) + 100 * n100 + 4 * (d100 div 1461) + n1, d4 - 365 * n1))"

definition leap :: "int \<Rightarrow> bool" where
  "leap y \<longleftrightarrow> y mod 4 = 0 \<and> (y mod 100 \<noteq> 0 \<or> y mod 400 = 0)"

definition month_lengths :: "int \<Rightarrow> int list" where
  "month_lengths y = [31, if leap y then 29 else 28, 31, 30, 31, 30, 31, 31, 30, 31, 30, 31]"

fun month_day :: "int list \<Rightarrow> nat \<Rightarrow> int \<Rightarrow> nat \<times> int" where
  "month_day [] m d = (m, d + 1)"
| "month_day (l # ls) m d = (if d < l then (m, d + 1) else month_day ls (Suc m) (d - l))"

definition fraction :: "nat \<Rightarrow> string" where
  "fraction ns =
     (let digits = rev (dropWhile (\<lambda>c. c = CHR ''0'') (rev (padded 9 ns)))
      in if digits = [] then [] else ''.'' @ digits)"

definition RFC3339Nano :: "int \<Rightarrow> string" where
  "RFC3339Nano t =
     (let secs = t div 1000000000;
          sod = secs mod 86400;
          (y, yday) = civil_year (secs div 86400);
          (m, d) = month_day (month_lengths y) 1 yday
      in (if y < 0 then ''-'' @ padded 4 (nat (- y)) else padded 4 (nat y)) @ ''-'' @ padded 2 m @ ''-'' @
         padded 2 (nat d) @ ''T'' @ padded 2 (nat (sod div 3600)) @ '':'' @
         padded 2 (nat (sod mod 3600 div 60)) @ '':'' @ padded 2 (nat (sod mod 60)) @
         fraction (nat (t mod 1000000000)) @ ''Z'')"

text \<open>The year and the day of the year give the day back by the leap year rule.\<close>

lemma civil_year_inverse:
  assumes "civil_year d = (y, yday)"
  shows "d = 365 * (y - 1) + (y - 1) div 4 - (y - 1) div 100 + (y - 1) div 400 + yday"
    and "0 \<le> yday" and "yday < (if leap y then 366 else 365)"
proof -
  define a where "a = d div 146097"
  define d400 where "d400 = d mod 146097"
  define b where "b = min 3 (d400 div 36524)"
  define d100 where "d100 = d400 - 36524 * b"
  define c where "c = d100 div 1461"
  define d4 where "d4 = d100 mod 1461"
  define e where "e = min 3 (d4 div 365)"
  have y: "y - 1 = 400 * a + 100 * b + 4 * c + e" and yday: "yday = d4 - 365 * e"
    using assms by (simp_all add: civil_year_def Let_def a_def b_def c_def d4_def d100_def d400_def e_def)
  have d: "d = 146097 * a + d400" "0 \<le> d400" "d400 < 146097" by (simp_all add: a_def d400_def)
  have b: "0 \<le> b" "b \<le> 3" "0 \<le> d100" "d100 < (if b = 3 then 36525 else 36524)"
    using d by (auto simp: b_def d100_def min_def)
  have c: "d100 = 1461 * c + d4" "0 \<le> d4" "d4 < 1461" "0 \<le> c"
    using b by (simp_all add: c_def d4_def pos_imp_zdiv_nonneg_iff)
  have e: "0 \<le> e" "e \<le> 3" "0 \<le> yday" "yday < (if e = 3 then 366 else 365)"
    using c unfolding yday by (auto simp: e_def min_def)
  have c24: "c \<le> 24" using b c by (auto split: if_splits)
  have "(y - 1) div 4 = 100 * a + 25 * b + c"
    by (rule int_div_pos_eq [of _ _ _ e]) (use y e in simp_all)
  moreover have "(y - 1) div 100 = 4 * a + b"
    by (rule int_div_pos_eq [of _ _ _ "4 * c + e"]) (use y c c24 e in simp_all)
  moreover have "(y - 1) div 400 = a"
    by (rule int_div_pos_eq [of _ _ _ "100 * b + 4 * c + e"]) (use y b c c24 e in simp_all)
  ultimately have parts: "(y - 1) div 4 = 100 * a + 25 * b + c" "(y - 1) div 100 = 4 * a + b"
    "(y - 1) div 400 = a" .
  show "d = 365 * (y - 1) + (y - 1) div 4 - (y - 1) div 100 + (y - 1) div 400 + yday"
    unfolding parts unfolding y yday using d c by (simp add: d100_def)
  show "0 \<le> yday" using e by simp
  show "yday < (if leap y then 366 else 365)"
  proof (cases "yday = 365")
    case True
    then have "e = 3" "d4 = 1460" using e yday c by (auto split: if_splits)
    have y3: "y = 400 * a + 100 * b + 4 * (c + 1)" using y \<open>e = 3\<close> by simp
    have "y mod 4 = 0" using y3 by (intro int_mod_pos_eq [of _ _ "100 * a + 25 * b + c + 1"]) simp_all
    moreover have "y mod 100 \<noteq> 0 \<or> y mod 400 = 0"
    proof (cases "c = 24")
      case c24: True
      then have "b = 3" using b c \<open>d4 = 1460\<close> by (auto split: if_splits)
      then have "y mod 400 = 0" using y3 c24 by (intro int_mod_pos_eq [of _ _ "a + 1"]) simp_all
      then show ?thesis ..
    next
      case False
      then have "y mod 100 = 4 * (c + 1)"
        using y3 c c24 by (intro int_mod_pos_eq [of _ _ "4 * a + b"]) simp_all
      then show ?thesis using c by simp
    qed
    ultimately have "leap y" by (simp add: leap_def)
    then show ?thesis using True by simp
  qed (use e in \<open>auto split: if_splits\<close>)
qed

text \<open>The month is one of twelve and the day one of its days.\<close>

lemma month_day_bounds:
  assumes "month_day ls m d = (n, k)" and "0 \<le> d" and "d < sum_list ls"
  shows "m \<le> n \<and> n < m + length ls \<and> 1 \<le> k \<and> k \<le> ls ! (n - m)"
  using assms
proof (induction ls m d rule: month_day.induct)
  case (2 l ls m d)
  show ?case
  proof (cases "d < l")
    case False
    then have "Suc m \<le> n \<and> n < Suc m + length ls \<and> 1 \<le> k \<and> k \<le> ls ! (n - Suc m)"
      using 2 by simp
    moreover from this have "n - m = Suc (n - Suc m)" by (simp add: Suc_diff_Suc)
    ultimately show ?thesis by auto
  qed (use 2 in auto)
qed simp

lemma month_lengths_sum: "sum_list (month_lengths y) = (if leap y then 366 else 365)"
  by (simp add: month_lengths_def)

lemma calendar_date:
  assumes "civil_year d = (y, yday)" and "month_day (month_lengths y) 1 yday = (m, k)"
  shows "1 \<le> m \<and> m \<le> 12 \<and> 1 \<le> k \<and> k \<le> month_lengths y ! (m - 1)"
  using month_day_bounds [OF assms(2)] civil_year_inverse [OF assms(1)]
  by (auto simp: month_lengths_sum) (simp_all add: month_lengths_def)

section \<open>Floating point\<close>

text \<open>
  A \<open>float64\<close> is a sign with an exact magnitude, an infinity or no number. \<open>float64_of\<close> rounds
  a magnitude to 53 significant bits, ties to even; the quotients of 64-bit integers are far
  from the limits of the exponent.
\<close>

datatype float64 = Finite bool rat | Infinite bool | NaN

definition round_even :: "rat \<Rightarrow> int" where
  "round_even q =
     (let n = \<lfloor>q\<rfloor>; r = q - of_int n
      in if r < 1 / 2 then n else if r > 1 / 2 then n + 1 else if even n then n else n + 1)"

definition pow2 :: "int \<Rightarrow> rat" where
  "pow2 k = (if 0 \<le> k then 2 ^ nat k else 1 / 2 ^ nat (- k))"

definition float64_of :: "rat \<Rightarrow> rat" where
  "float64_of q =
     (if q = 0 then 0
      else let (n, d) = quotient_of q;
               k = bitlen n - bitlen d;
               e = (if pow2 k \<le> q then k else k - 1);
               ulp = pow2 (e - 52)
           in of_int (round_even (q / ulp)) * ulp)"

definition float64_of_int :: "int \<Rightarrow> float64" where
  "float64_of_int i = Finite (i < 0) (float64_of (of_int \<bar>i\<bar>))"

fun float64_div :: "float64 \<Rightarrow> float64 \<Rightarrow> float64" where
  "float64_div (Finite s a) (Finite t b) =
     (if b = 0 then if a = 0 then NaN else Infinite (s \<noteq> t) else Finite (s \<noteq> t) (float64_of (a / b)))"
| "float64_div (Finite s a) (Infinite t) = Finite (s \<noteq> t) 0"
| "float64_div (Infinite s) (Finite t b) = Infinite (s \<noteq> t)"
| "float64_div x y = NaN"

text \<open>\<open>%.kf\<close>: the exact value rounded to \<open>k\<close> decimals.\<close>

fun float64_fixed :: "nat \<Rightarrow> float64 \<Rightarrow> string" where
  "float64_fixed k (Finite s q) =
     (let n = nat (round_even (q * 10 ^ k))
      in (if s then ''-'' else []) @ go_nat (n div 10 ^ k) @ ''.'' @ padded k (n mod 10 ^ k))"
| "float64_fixed k (Infinite s) = (if s then ''-Inf'' else ''+Inf'')"
| "float64_fixed k NaN = ''NaN''"

text \<open>
  \<open>%v\<close>: the shortest decimal that rounds to the number, the closest one of that length, in
  exponent form below 1e-04 and from 1e+06 on. The decimals of \<open>n\<close> digits next to \<open>q\<close>
  are \<open>lo\<close> and \<open>hi\<close>; 17 digits are enough for every \<open>float64\<close>.
\<close>

definition decimal_exponent :: "rat \<Rightarrow> int" where
  "decimal_exponent q =
     (if 1 \<le> q then int (floorlog 10 (nat \<lfloor>q\<rfloor>)) - 1 else - int (floorlog 10 (nat (\<lceil>1 / q\<rceil> - 1))))"

definition pow10 :: "int \<Rightarrow> rat" where
  "pow10 k = (if 0 \<le> k then 10 ^ nat k else 1 / 10 ^ nat (- k))"

definition decimal_of :: "rat \<Rightarrow> nat \<Rightarrow> int option" where
  "decimal_of q n =
     (let scale = pow10 (int n - 1 - decimal_exponent q);
          lo = \<lfloor>q * scale\<rfloor>;
          hi = lo + 1;
          fits = (\<lambda>d. float64_of (of_int d / scale) = q)
      in if fits lo \<and> (\<not> fits hi \<or> q * scale - of_int lo \<le> of_int hi - q * scale) then Some lo
         else if fits hi then Some hi
         else None)"

fun shortest_from :: "rat \<Rightarrow> nat \<Rightarrow> nat \<Rightarrow> int \<times> nat" where
  "shortest_from q n 0 = (round_even (q * pow10 (int n - 1 - decimal_exponent q)), n)"
| "shortest_from q n (Suc more) =
     (case decimal_of q n of Some d \<Rightarrow> (d, n) | None \<Rightarrow> shortest_from q (Suc n) more)"

text \<open>The digits without trailing zeros, and the place of the point before them.\<close>

definition shortest :: "rat \<Rightarrow> string \<times> int" where
  "shortest q =
     (if q = 0 then ([], 0)
      else let (d, n) = shortest_from q 1 16;
               all = go_nat (nat d)
           in (rev (dropWhile (\<lambda>c. c = CHR ''0'') (rev all)),
               decimal_exponent q + 1 + int (length all) - int n))"

definition go_e :: "string \<Rightarrow> int \<Rightarrow> string" where
  "go_e digits e =
     take 1 digits @ (if length digits > 1 then ''.'' @ drop 1 digits else []) @
     (if e < 0 then ''e-'' else ''e+'') @ padded 2 (nat \<bar>e\<bar>)"

definition go_f :: "string \<Rightarrow> int \<Rightarrow> string" where
  "go_f digits point =
     (let whole = nat point; zeros = replicate (whole - length digits) (CHR ''0'')
      in (if whole = 0 then ''0'' else take whole digits @ zeros) @
         (if int (length digits) > point
          then ''.'' @ replicate (nat (- point)) (CHR ''0'') @ drop whole digits else []))"

fun float64_v :: "float64 \<Rightarrow> string" where
  "float64_v (Finite s q) =
     (let (digits, point) = shortest q; e = point - 1
      in (if s then ''-'' else []) @ (if e < -4 \<or> e \<ge> 6 then go_e digits e else go_f digits point))"
| "float64_v (Infinite s) = (if s then ''-Inf'' else ''+Inf'')"
| "float64_v NaN = ''NaN''"

text \<open>The decimal found within the 16 tries is one that rounds to the number.\<close>

lemma decimal_of_rounds:
  assumes "decimal_of q n = Some d"
  shows "float64_of (of_int d / pow10 (int n - 1 - decimal_exponent q)) = q"
  using assms by (auto simp: decimal_of_def Let_def split: if_splits)

lemma round_even_bounds: "of_int (round_even q) - 1 / 2 \<le> q \<and> q \<le> of_int (round_even q) + 1 / 2"
proof -
  have "of_int \<lfloor>q\<rfloor> \<le> q" "q < of_int \<lfloor>q\<rfloor> + 1" by linarith+
  then show ?thesis unfolding round_even_def Let_def by (auto simp: field_simps; linarith)
qed

lemma round_even_of_int [simp]: "round_even (of_int n) = n"
  by (simp add: round_even_def)

end
