(* ===== verification/Con_Text.thy ===== *)
theory Con_Text
  imports Go_Text Con_Msgs Con_CommitSafety Con_PrivValidator
begin

text \<open>
  The texts the program prints: the \<open>String\<close> methods of \<^verbatim>\<open>src/concord/proposer.go\<close>,
  \<^verbatim>\<open>proposer_set.go\<close>, \<^verbatim>\<open>vote.go\<close>, \<^verbatim>\<open>commit.go\<close>, \<^verbatim>\<open>proposal.go\<close>, \<^verbatim>\<open>msgs.go\<close> and
  \<^verbatim>\<open>priv_validator.go\<close>, the strings and the JSON form of a vote set (\<^verbatim>\<open>vote_set.go\<close>) and the
  \<open>Error\<close> methods (\<^verbatim>\<open>errors.go\<close>, \<^verbatim>\<open>vote.go\<close>, \<^verbatim>\<open>proposer_set.go\<close>). Printing is not harmless: the
  string of a vote can panic, and printing a set fills its caches, so these functions return
  outcomes and states like any others.

  The third-party formatters are the record \<open>printers\<close>: \<open>HexBytes.Format\<close>, the string of a
  public key, \<open>tmbytes.Fingerprint\<close>, \<open>tmtime.Canonical\<close>, \<open>proto.EnumName\<close>, the strings of a bit
  array and of a peer identifier. What \<open>fmt\<close> itself does is written out: \<open>%v\<close> of a struct puts
  its fields in braces, a nil pointer is \<open><nil>\<close>, and a panic of a \<open>String\<close> method that \<open>fmt\<close>
  calls is caught and printed.
\<close>

record 'pk printers =
  FormatHex :: "bytes \<Rightarrow> string"
  FormatKey :: "'pk \<Rightarrow> string"
  Fingerprint :: "bytes \<Rightarrow> bytes"
  time_Canonical :: "time \<Rightarrow> time"
  EnumName :: "(int \<rightharpoonup> string) \<Rightarrow> int \<Rightarrow> string"
  FormatBits :: "BitArray option \<Rightarrow> string"
  FormatPeer :: "bytes \<Rightarrow> string"

section \<open>Parts\<close>

definition CanonicalTime :: "'pk printers \<Rightarrow> time \<Rightarrow> string" where
  "CanonicalTime F t = RFC3339Nano (time_Canonical F t)"

definition SignedMsgType_name :: "int \<rightharpoonup> string" where
  "SignedMsgType_name = map_of
     [(0, ''SIGNED_MSG_TYPE_UNKNOWN''), (1, ''SIGNED_MSG_TYPE_PREVOTE''),
      (2, ''SIGNED_MSG_TYPE_PRECOMMIT''), (32, ''SIGNED_MSG_TYPE_PROPOSAL'')]"

definition SignedMsgType_String :: "'pk printers \<Rightarrow> SignedMsgType \<Rightarrow> string" where
  "SignedMsgType_String F x = EnumName F SignedMsgType_name x"

text \<open>\<open>%v\<close> of a \<open>DataHash\<close>, a struct with one field, and \<open>%X\<close> of a fingerprint.\<close>

definition hash_text :: "'pk printers \<Rightarrow> DataHash \<Rightarrow> string" where
  "hash_text F h = ''{'' @ FormatHex F (Hash h) @ ''}''"

definition print_text :: "'pk printers \<Rightarrow> bytes \<Rightarrow> string" where
  "print_text F bz = go_X (Fingerprint F bz)"

section \<open>Validators\<close>

definition Proposer_String :: "'pk printers \<Rightarrow> 'pk Proposer option \<Rightarrow> string" where
  "Proposer_String F v =
     (case v of
        None \<Rightarrow> ''nil-Proposer''
      | Some v \<Rightarrow>
          ''Proposer{'' @ FormatHex F (Address v) @ '' '' @
          (case PubKey v of None \<Rightarrow> ''<nil>'' | Some pk \<Rightarrow> FormatKey F pk) @
          '' VP:'' @ go_int (VotingPower v) @ '' A:'' @ go_int (ProposerPriority v) @ ''}'')"

definition ValidatorListString :: "'pk printers \<Rightarrow> 'pk Proposer list \<Rightarrow> string" where
  "ValidatorListString F vals =
     strings_Join (map (\<lambda>val. FormatHex F (Address val) @ '':'' @ go_int (VotingPower val)) vals) '',''"

text \<open>\<open>GetProposer\<close> in the arguments of \<open>Sprintf\<close> may fill the cached proposer.\<close>

definition Set_StringIndented :: "'pk printers \<Rightarrow> string \<Rightarrow> 'pk ProposerSet option \<Rightarrow>
    ('pk ProposerSet option \<times> string) outcome" where
  "Set_StringIndented F indent vals =
     (case vals of
        None \<Rightarrow> Return (None, ''nil-ProposerSet'')
      | Some s \<Rightarrow>
          let valStrings = Iterate s (\<lambda>index val acc. (False, acc @ [Proposer_String F (Some val)])) []
          in obind (GetProposer s) (\<lambda>(s', proposer). Return (Some s',
               ''ProposerSet{'' @ newline @
               indent @ ''  Proposer: '' @ Proposer_String F proposer @ newline @
               indent @ ''  Validators:'' @ newline @
               indent @ ''    '' @ strings_Join valStrings (newline @ indent @ ''    '') @ newline @
               indent @ ''}'')))"

definition Set_String :: "'pk printers \<Rightarrow> 'pk ProposerSet option \<Rightarrow>
    ('pk ProposerSet option \<times> string) outcome" where
  "Set_String F vals = Set_StringIndented F [] vals"

definition MockPV_String :: "'pk printers \<Rightarrow> 'pk tm \<Rightarrow> ('sk, 'pk) PrivKeys \<Rightarrow> 'sk MockPV \<Rightarrow> string outcome"
where
  "MockPV_String F T K pv =
     (case MockPV_GetPubKey K pv of
        None \<Rightarrow> Panic NilDereference
      | Some mpv \<Rightarrow> Return (''MockPV{'' @ FormatHex F (PubKey_Address T mpv) @ ''}''))"

section \<open>Votes, commits and proposals\<close>

definition nilVoteStr :: string where
  "nilVoteStr = ''nil-Vote''"

definition Vote_String :: "'pk printers \<Rightarrow> Vote option \<Rightarrow> string outcome" where
  "Vote_String F vote =
     (case vote of
        None \<Rightarrow> Return nilVoteStr
      | Some v \<Rightarrow>
          obind
            (if vType v = PrevoteType then Return ''Prevote''
             else if vType v = PrecommitType then Return ''Precommit''
             else Panic PanicUnknownVoteType)
            (\<lambda>typeString. Return
              (''Vote{'' @ go_int (vValidatorIndex v) @ '':'' @ print_text F (vValidatorAddress v) @ '' '' @
               SignedMsgType_String F (vType v) @ ''('' @ typeString @ '') '' @
               print_text F (Hash (vDataHash v)) @ '' '' @ print_text F (vSignature v) @ '' @ '' @
               CanonicalTime F (vTimestamp v) @ ''}'')))"

definition CommitSig_String :: "'pk printers \<Rightarrow> CommitSig \<Rightarrow> string" where
  "CommitSig_String F cs =
     ''CommitSig{'' @ print_text F (csSignature cs) @ '' by '' @ print_text F (csValidatorAddress cs) @
     '' on '' @ go_nat (unat (csDataHashFlag cs)) @ '' @ '' @ CanonicalTime F (csTimestamp cs) @ ''}''"

definition Commit_StringIndented :: "'pk printers \<Rightarrow> string \<Rightarrow> Commit option \<Rightarrow> string" where
  "Commit_StringIndented F indent commit =
     (case commit of
        None \<Rightarrow> ''nil-Commit''
      | Some c \<Rightarrow>
          ''Commit{'' @ newline @
          indent @ ''  DataHash:    '' @ hash_text F (cmDataHash c) @ newline @
          indent @ ''  Signatures:'' @ newline @
          indent @ ''    '' @ strings_Join (map (CommitSig_String F) (cmSignatures c))
            (newline @ indent @ ''    '') @ newline @
          indent @ ''}#'' @ FormatHex F (case cmhash c of None \<Rightarrow> [] | Some h \<Rightarrow> h))"

definition Proposal_String :: "'pk printers \<Rightarrow> Proposal option \<Rightarrow> string outcome" where
  "Proposal_String F p =
     (case p of
        None \<Rightarrow> Panic NilDereference
      | Some p \<Rightarrow> Return
          (''Proposal{'' @ go_int (prRound p) @ '' ('' @ go_int (prPOLRound p) @ '') '' @
           print_text F (prSignature p) @ '' @ '' @ CanonicalTime F (prTimestamp p) @ ''}''))"

section \<open>Messages\<close>

text \<open>\<open>%v\<close> of a pointer with a \<open>String\<close> method: \<open>fmt\<close> recovers from its panic.\<close>

definition fmt_panic :: "panic \<Rightarrow> string" where
  "fmt_panic p =
     ''%!v(PANIC=String method: '' @
     (if p = PanicUnknownVoteType then ''Unknown vote type''
      else ''runtime error: invalid memory address or nil pointer dereference'') @ '')''"

definition fmt_v :: "('a option \<Rightarrow> string outcome) \<Rightarrow> 'a option \<Rightarrow> string" where
  "fmt_v String p =
     (case String p of
        Return s \<Rightarrow> s
      | Panic r \<Rightarrow> if p = None then ''<nil>'' else fmt_panic r)"

definition ProposalMessage_String :: "'pk printers \<Rightarrow> ProposalMessage \<Rightarrow> string" where
  "ProposalMessage_String F m = ''[Proposal '' @ fmt_v (Proposal_String F) (pmProposal m) @ '']''"

definition ProposalPOLMessage_String :: "'pk printers \<Rightarrow> ProposalPOLMessage \<Rightarrow> string" where
  "ProposalPOLMessage_String F m =
     ''[ProposalPOL H:'' @ go_int (polHeight m) @ '' POLR:'' @ go_int (polProposalPOLRound m) @
     '' POL:'' @ FormatBits F (polProposalPOL m) @ '']''"

definition VoteMessage_String :: "'pk printers \<Rightarrow> VoteMessage \<Rightarrow> string" where
  "VoteMessage_String F m = ''[Vote '' @ fmt_v (Vote_String F) (vmVote m) @ '']''"

definition HasVoteMessage_String :: "'pk printers \<Rightarrow> HasVoteMessage \<Rightarrow> string" where
  "HasVoteMessage_String F m =
     ''[HasVote VI:'' @ go_int (hvIndex m) @ '' V:{'' @ go_int (hvHeight m) @ ''/'' @ go_02d (hvRound m) @
     ''/'' @ SignedMsgType_String F (hvType m) @ ''}]''"

definition VoteSetMaj23Message_String :: "'pk printers \<Rightarrow> VoteSetMaj23Message \<Rightarrow> string" where
  "VoteSetMaj23Message_String F m =
     ''[VSM23 '' @ SignedMsgType_String F (vsmType m) @ '' '' @ hash_text F (vsmDataHash m) @ '']''"

definition VoteSetBitsMessage_String :: "'pk printers \<Rightarrow> VoteSetBitsMessage \<Rightarrow> string" where
  "VoteSetBitsMessage_String F m =
     ''[VSB '' @ go_int (vsbHeight m) @ ''/'' @ go_02d (vsbRound m) @ ''/'' @
     SignedMsgType_String F (vsbType m) @ '' '' @ hash_text F (vsbDataHash m) @ '' '' @
     FormatBits F (vsbVotes m) @ '']''"

section \<open>Vote sets\<close>

definition nilVoteSetString :: string where
  "nilVoteSetString = ''nil-VoteSet''"

definition VoteSet_voteStrings :: "'pk printers \<Rightarrow> 'pk VoteSet \<Rightarrow> string list outcome" where
  "VoteSet_voteStrings F vs =
     omap (\<lambda>vote. if vote = None then Return nilVoteStr else Vote_String F vote) (vsVotes vs)"

definition VoteStrings :: "'pk printers \<Rightarrow> 'pk VoteSet \<Rightarrow> string list outcome" where
  "VoteStrings F vs = VoteSet_voteStrings F vs"

text \<open>\<open>%v\<close> of the map \<open>peerMaj23s\<close>: \<open>fmt\<close> prints the keys in increasing order.\<close>

definition peers_text :: "'pk printers \<Rightarrow> (bytes \<rightharpoonup> DataHash) \<Rightarrow> string" where
  "peers_text F m =
     ''map['' @ strings_Join (map (\<lambda>p. FormatPeer F p @ '':'' @ hash_text F (the (m p)))
       (sorted_list_of_set (dom m))) '' '' @ '']''"

definition VoteSet_StringIndented :: "'pk printers \<Rightarrow> string \<Rightarrow> 'pk VoteSet \<Rightarrow> string outcome" where
  "VoteSet_StringIndented F indent vs =
     obind (omap (\<lambda>vote. if vote = None then Return nilVoteStr else Vote_String F vote) (vsVotes vs))
       (\<lambda>voteStrings. Return
         (''VoteSet{'' @ newline @
          indent @ '' T:'' @ SignedMsgType_String F (vsSignedMsgType vs) @ newline @
          indent @ ''  '' @ strings_Join voteStrings (newline @ indent @ ''  '') @ newline @
          indent @ ''  '' @ FormatBits F (Some (vsVotesBitArray vs)) @ newline @
          indent @ ''  '' @ peers_text F (vsPeerMaj23s vs) @ newline @
          indent @ ''}''))"

definition VoteSet_String :: "'pk printers \<Rightarrow> 'pk VoteSet option \<Rightarrow> string outcome" where
  "VoteSet_String F vs =
     (case vs of None \<Rightarrow> Return nilVoteSetString | Some s \<Rightarrow> VoteSet_StringIndented F [] s)"

text \<open>The share of the power that has voted, a quotient of floating point numbers.\<close>

definition sumTotalFrac :: "'pk VoteSet \<Rightarrow> ('pk VoteSet \<times> int \<times> int \<times> float64) outcome" where
  "sumTotalFrac vs =
     obind (TotalVotingPower (vsValSet vs)) (\<lambda>(valSet, total).
       let voted = vsSum vs;
           fracVoted = float64_div (float64_of_int voted) (float64_of_int total)
       in Return (vs\<lparr>vsValSet := valSet\<rparr>, voted, total, fracVoted))"

definition VoteSet_bitArrayString :: "'pk printers \<Rightarrow> 'pk VoteSet \<Rightarrow> ('pk VoteSet \<times> string) outcome" where
  "VoteSet_bitArrayString F vs =
     (let bAString = FormatBits F (Some (vsVotesBitArray vs))
      in obind (sumTotalFrac vs) (\<lambda>(vs', voted, total, fracVoted). Return (vs',
           bAString @ '' '' @ go_int voted @ ''/'' @ go_int total @ '' = '' @ float64_fixed 2 fracVoted)))"

definition BitArrayString :: "'pk printers \<Rightarrow> 'pk VoteSet \<Rightarrow> ('pk VoteSet \<times> string) outcome" where
  "BitArrayString F vs = VoteSet_bitArrayString F vs"

definition VoteSet_LogString :: "'pk VoteSet option \<Rightarrow> ('pk VoteSet option \<times> string) outcome" where
  "VoteSet_LogString vs =
     (case vs of
        None \<Rightarrow> Return (None, nilVoteSetString)
      | Some s \<Rightarrow> obind (sumTotalFrac s) (\<lambda>(s', voted, total, frac). Return (Some s',
          ''Votes:'' @ go_int voted @ ''/'' @ go_int total @ ''('' @ float64_fixed 3 frac @ '')'')))"

text \<open>\<open>%v\<close> of a pointer to a struct without a \<open>String\<close> method.\<close>

definition hash_ptr_text :: "'pk printers \<Rightarrow> DataHash option \<Rightarrow> string" where
  "hash_ptr_text F h = (case h of None \<Rightarrow> ''<nil>'' | Some h \<Rightarrow> ''&'' @ hash_text F h)"

definition VoteSet_StringShort :: "'pk printers \<Rightarrow> 'pk VoteSet option \<Rightarrow>
    ('pk VoteSet option \<times> string) outcome" where
  "VoteSet_StringShort F vs =
     (case vs of
        None \<Rightarrow> Return (None, nilVoteSetString)
      | Some s \<Rightarrow> obind (sumTotalFrac s) (\<lambda>(s', voted, total, frac). Return (Some s',
          ''VoteSet{T:'' @ SignedMsgType_String F (vsSignedMsgType s) @ '' +2/3:'' @
          hash_ptr_text F (vsMaj23 s) @ ''('' @ float64_v frac @ '') '' @
          FormatBits F (Some (vsVotesBitArray s)) @ '' '' @ peers_text F (vsPeerMaj23s s) @ ''}'')))"

record VoteSetJSON =
  jVotes :: "string list"
  jVotesBitArray :: string
  jPeerMaj23s :: "bytes \<rightharpoonup> DataHash"

text \<open>\<open>tmjson.Marshal\<close> is third-party code: \<open>None\<close> is its error.\<close>

definition VoteSet_MarshalJSON :: "'pk printers \<Rightarrow> (VoteSetJSON \<Rightarrow> bytes option) \<Rightarrow> 'pk VoteSet \<Rightarrow>
    ('pk VoteSet \<times> bytes option) outcome" where
  "VoteSet_MarshalJSON F MarshalJSON vs =
     obind (VoteSet_voteStrings F vs) (\<lambda>votes.
     obind (VoteSet_bitArrayString F vs) (\<lambda>(vs', bits). Return (vs',
       MarshalJSON \<lparr>jVotes = votes, jVotesBitArray = bits, jPeerMaj23s = vsPeerMaj23s vs\<rparr>)))"

section \<open>Errors\<close>

definition ErrVoteConflictingVotes_Error :: "'pk printers \<Rightarrow> Vote \<Rightarrow> Vote \<Rightarrow> string" where
  "ErrVoteConflictingVotes_Error F voteA voteB =
     ''conflicting votes from validator '' @ FormatHex F (vValidatorAddress voteA)"

definition ErrNotEnoughVotingPowerSigned_Error :: "int \<Rightarrow> int \<Rightarrow> string" where
  "ErrNotEnoughVotingPowerSigned_Error got needed =
     ''invalid commit -- insufficient voting power: got '' @ go_int got @ '', needed more than '' @
     go_int needed"

definition IsErrNotEnoughVotingPowerSigned :: "verify_error option \<Rightarrow> bool" where
  "IsErrNotEnoughVotingPowerSigned err =
     (case err of Some (ErrNotEnoughVotingPowerSigned got needed) \<Rightarrow> True | _ \<Rightarrow> False)"

record ErrInvalidCommitHeight =
  ichExpected :: int
  ichActual :: int

definition NewErrInvalidCommitHeight :: "int \<Rightarrow> int \<Rightarrow> ErrInvalidCommitHeight" where
  "NewErrInvalidCommitHeight expected actual = \<lparr>ichExpected = expected, ichActual = actual\<rparr>"

definition ErrInvalidCommitHeight_Error :: "ErrInvalidCommitHeight \<Rightarrow> string" where
  "ErrInvalidCommitHeight_Error e =
     ''Invalid commit -- wrong height: '' @ go_int (ichExpected e) @ '' vs '' @ go_int (ichActual e)"

definition ErrInvalidCommitSignatures_Error :: "nat \<Rightarrow> nat \<Rightarrow> string" where
  "ErrInvalidCommitSignatures_Error expected actual =
     ''Invalid commit -- wrong set size: '' @ go_nat expected @ '' vs '' @ go_nat actual"

section \<open>What printing does\<close>

lemma Vote_String_returns:
  "returns (Vote_String F vt) \<longleftrightarrow> (case vt of None \<Rightarrow> True | Some v \<Rightarrow> IsVoteTypeValid (vType v))"
  by (auto simp: Vote_String_def IsVoteTypeValid_def split: option.splits)

lemma omap_returns: "returns (omap f xs) \<longleftrightarrow> (\<forall>x \<in> set xs. returns (f x))"
proof (induction xs)
  case (Cons x xs)
  then show ?case by (cases "f x"; cases "omap f xs") auto
qed simp

lemma returns_obind_Return [simp]: "returns (obind m (\<lambda>x. Return (f x))) \<longleftrightarrow> returns m"
  by (cases m) auto

lemma voteStrings_returns:
  "returns (VoteSet_voteStrings F vs) \<longleftrightarrow> (\<forall>v. Some v \<in> set (vsVotes vs) \<longrightarrow> IsVoteTypeValid (vType v))"
  by (auto simp: VoteSet_voteStrings_def omap_returns Vote_String_returns split: option.splits)

lemma StringIndented_returns:
  "returns (VoteSet_StringIndented F indent vs) \<longleftrightarrow> returns (VoteSet_voteStrings F vs)"
  by (simp add: VoteSet_StringIndented_def VoteSet_voteStrings_def)

lemma sumTotalFrac_ok:
  assumes "core_inv T vs"
  shows "sumTotalFrac vs = Return (vs\<lparr>vsValSet := cached (vsValSet vs)\<rparr>, vsSum vs, power_sum (members vs),
    float64_div (float64_of_int (vsSum vs)) (float64_of_int (power_sum (members vs))))"
  using core_invD(1,2) [OF assms] by (simp add: sumTotalFrac_def TotalVotingPower_ok Let_def)

text \<open>A vote is missing from all slots.\<close>

abbreviation no_votes :: "'pk VoteSet \<Rightarrow> bool" where
  "no_votes vs \<equiv> \<forall>v \<in> set (vsVotes vs). v = None"

text \<open>A message never panics when it is printed, whatever vote it carries: \<open>fmt\<close> recovers.\<close>

lemma VoteMessage_String_unknown:
  assumes "\<not> IsVoteTypeValid (vType v)"
  shows "VoteMessage_String F \<lparr>vmVote = Some v\<rparr> =
    ''[Vote %!v(PANIC=String method: Unknown vote type)]''"
  using assms
  by (simp add: VoteMessage_String_def fmt_v_def Vote_String_def fmt_panic_def IsVoteTypeValid_def)

text \<open>Printing a set fills its cached proposer and leaves the rest alone; printed again, the set
  gives the same text.\<close>

theorem Set_String_prints:
  assumes "wf_set s" and "Proposers s \<noteq> []"
  shows "\<exists>s' txt. Set_String F (Some s) = Return (Some s', txt) \<and> Proposers s' = Proposers s \<and>
    totalVotingPower s' = totalVotingPower s \<and> Set_String F (Some s') = Return (Some s', txt)"
proof -
  from GetProposer_ok [OF assms] obtain s' v where p: "GetProposer s = Return (s', Some v)" by blast
  then show ?thesis
    using GetProposer_again [OF p]
    by (simp add: Set_String_def Set_StringIndented_def Let_def Iterate_def)
qed

section \<open>Property\<close>

definition sample_printers :: "bytes printers" where
  "sample_printers =
     \<lparr>FormatHex = go_X, FormatKey = go_X, Fingerprint = take 6, time_Canonical = (\<lambda>t. t),
      EnumName = (\<lambda>m x. case m x of None \<Rightarrow> go_int x | Some s \<Rightarrow> s),
      FormatBits = (\<lambda>b. ''BA''), FormatPeer = go_X\<rparr>"

definition odd_vote :: Vote where
  "odd_vote =
     (let v = (sample_vote [2] 0 [7])\<lparr>vType := ProposalType\<rparr>
      in v\<lparr>vSignature := [2] @ sign_bytes sample_tm [9] v\<rparr>)"

lemma odd_vote_added:
  "case VoteSet_AddVote sample_tm (Some odd_vote) (Some (NewVoteSet [9] ProposalType sample_set)) of
     Return (vs, added, err) \<Rightarrow> \<not> no_votes vs
   | Panic p \<Rightarrow> False"
  by code_simp

lemma odd_vote_set:
  "\<exists>vs added err. VoteSet_AddVote sample_tm (Some odd_vote) (Some (NewVoteSet [9] ProposalType sample_set)) =
     Return (vs, added, err) \<and> \<not> no_votes vs"
proof (cases "VoteSet_AddVote sample_tm (Some odd_vote) (Some (NewVoteSet [9] ProposalType sample_set))")
  case (Return x)
  then show ?thesis using odd_vote_added by (cases x) simp
qed (use odd_vote_added in simp)

text \<open>C37: printing a vote set. At every moment of the life of a set of prevotes or precommits its
  text and its JSON form can be made. In a set of any other type, which takes votes of its type
  all the same, both panic once there is a vote. The short forms, which print no vote, never panic
  and only fill the cached total.\<close>

theorem VoteSet_prints:
  assumes "vote_history T chainID t s vs" and "votable s"
  shows "(returns (VoteSet_String F (Some vs)) \<longleftrightarrow> IsVoteTypeValid t \<or> no_votes vs) \<and>
    (returns (VoteSet_MarshalJSON F M vs) \<longleftrightarrow> IsVoteTypeValid t \<or> no_votes vs) \<and>
    (let vs' = vs\<lparr>vsValSet := cached (vsValSet vs)\<rparr> in
      (\<exists>txt. BitArrayString F vs = Return (vs', txt)) \<and>
      (\<exists>txt. VoteSet_LogString (Some vs) = Return (Some vs', txt)) \<and>
      (\<exists>txt. VoteSet_StringShort F (Some vs) = Return (Some vs', txt)))"
proof -
  from vote_history_inv [OF assms] have inv: "core_inv T vs" and t: "vsSignedMsgType vs = t"
    using vote_invD(1) by auto
  have "vType v = t" if "Some v \<in> set (vsVotes vs)" for v
    using that core_invD(3) [OF inv] t by (auto simp: in_set_conv_nth slots_ok_def good_vote_def)
  then have "returns (VoteSet_voteStrings F vs) \<longleftrightarrow> IsVoteTypeValid t \<or> no_votes vs"
    unfolding voteStrings_returns by (metis not_None_eq)
  moreover have "returns (VoteSet_MarshalJSON F M vs) \<longleftrightarrow> returns (VoteSet_voteStrings F vs)"
    using sumTotalFrac_ok [OF inv]
    by (cases "VoteSet_voteStrings F vs") (auto simp: VoteSet_MarshalJSON_def VoteSet_bitArrayString_def)
  ultimately show ?thesis
    using sumTotalFrac_ok [OF inv]
    by (simp add: VoteSet_String_def StringIndented_returns BitArrayString_def VoteSet_bitArrayString_def
        VoteSet_LogString_def VoteSet_StringShort_def)
qed

theorem VoteSet_prints_witness:
  "(\<exists>vs. VoteSet_AddVote sample_tm (Some (sample_vote [2] 0 [7])) (Some sample_start) = Return (vs, True, None) \<and>
      returns (VoteSet_String sample_printers (Some vs))) \<and>
    (\<exists>vs added err. VoteSet_AddVote sample_tm (Some odd_vote) (Some (NewVoteSet [9] ProposalType sample_set)) =
        Return (vs, added, err) \<and> \<not> returns (VoteSet_String sample_printers (Some vs)))"
proof -
  obtain vs where vs: "vote_history sample_tm [9] PrecommitType sample_set vs"
    "VoteSet_AddVote sample_tm (Some (sample_vote [2] 0 [7])) (Some sample_start) = Return (vs, True, None)"
    using sample_vote_7 by blast
  moreover obtain ws added err where
    ws: "VoteSet_AddVote sample_tm (Some odd_vote) (Some (NewVoteSet [9] ProposalType sample_set)) =
      Return (ws, added, err)" "\<not> no_votes ws"
    using odd_vote_set by blast
  ultimately show ?thesis
    using VoteSet_prints [OF vs(1) sample_set_votable, of sample_printers]
      VoteSet_prints [OF vote_history.voted [OF opened ws(1)] sample_set_votable, of sample_printers]
    by (auto simp: IsVoteTypeValid_def msg_type_defs)
qed

end
