(* ===== verification/Con_RoundState.thy ===== *)
theory Con_RoundState
  imports Con_Msgs Go_Text
begin

text \<open>
  The state of a Tendermint round, its events and texts, from \<^verbatim>\<open>src/concord/round_state.go\<close>. The code
  uses Tendermint's validator sets, blocks, part sets, proposals and vote sets through a few
  functions; they and their types are parameters (\<open>tm_types\<close>). The set's \<open>GetProposer\<close> may
  change the set and gives the address of the validator it returns, or \<open>None\<close> for nil. All of
  them take pointers that may be nil.
\<close>

record ('set, 'block, 'parts, 'header) tm_types =
  ts_GetProposer :: "'set option \<Rightarrow> ('set option \<times> bytes option) outcome"
  ts_GetByAddress :: "'set option \<Rightarrow> bytes \<Rightarrow> int outcome"
  block_Hash :: "'block option \<Rightarrow> bytes"
  parts_Header :: "'parts option \<Rightarrow> 'header outcome"

record ('set, 'prop, 'block, 'parts, 'votes) RoundState =
  rsHeight :: int
  rsRound :: int
  rsStep :: RoundStepType
  rsStartTime :: time
  rsCommitTime :: time
  rsValidators :: "'set option"
  rsProposal :: "'prop option"
  rsProposalBlock :: "'block option"
  rsProposalBlockParts :: "'parts option"
  rsLockedRound :: int
  rsLockedBlock :: "'block option"
  rsLockedBlockParts :: "'parts option"
  rsValidRound :: int
  rsValidBlock :: "'block option"
  rsValidBlockParts :: "'parts option"
  rsCommitRound :: int
  rsLastCommit :: "'votes option"
  rsLastValidators :: "'set option"
  rsTriggeredTimeoutPrecommit :: bool

record ValidatorInfo =
  viAddress :: bytes
  viIndex :: int

record RoundStateSimple =
  rssHeightRoundStep :: string
  rssStartTime :: time
  rssProposalBlockHash :: bytes
  rssLockedBlockHash :: bytes
  rssValidBlockHash :: bytes
  rssProposer :: ValidatorInfo

text \<open>The first two statements of \<open>RoundStateSimple\<close> and \<open>NewRoundEvent\<close>.\<close>

definition proposer_info :: "('set, 'block, 'parts, 'header) tm_types \<Rightarrow>
    ('set, 'prop, 'block, 'parts, 'votes) RoundState \<Rightarrow>
    (('set, 'prop, 'block, 'parts, 'votes) RoundState \<times> ValidatorInfo) outcome" where
  "proposer_info M rs =
     obind (ts_GetProposer M (rsValidators rs)) (\<lambda>(validators, proposer).
       case proposer of
         None \<Rightarrow> Panic NilDereference
       | Some addr \<Rightarrow> obind (ts_GetByAddress M validators addr) (\<lambda>idx.
           Return (rs\<lparr>rsValidators := validators\<rparr>, \<lparr>viAddress = addr, viIndex = idx\<rparr>)))"

definition RoundState_Simple :: "('set, 'block, 'parts, 'header) tm_types \<Rightarrow>
    ('set, 'prop, 'block, 'parts, 'votes) RoundState \<Rightarrow>
    (('set, 'prop, 'block, 'parts, 'votes) RoundState \<times> RoundStateSimple) outcome" where
  "RoundState_Simple M rs =
     obind (proposer_info M rs) (\<lambda>(rs', info). Return (rs',
       \<lparr>rssHeightRoundStep =
          go_int (rsHeight rs) @ ''/'' @ go_int (rsRound rs) @ ''/'' @ go_nat (unat (rsStep rs)),
        rssStartTime = rsStartTime rs,
        rssProposalBlockHash = block_Hash M (rsProposalBlock rs),
        rssLockedBlockHash = block_Hash M (rsLockedBlock rs),
        rssValidBlockHash = block_Hash M (rsValidBlock rs),
        rssProposer = info\<rparr>))"

record EventDataNewRound =
  enHeight :: int
  enRound :: int
  enStep :: string
  enProposer :: ValidatorInfo

definition NewRoundEvent :: "('set, 'block, 'parts, 'header) tm_types \<Rightarrow>
    ('set, 'prop, 'block, 'parts, 'votes) RoundState \<Rightarrow>
    (('set, 'prop, 'block, 'parts, 'votes) RoundState \<times> EventDataNewRound) outcome" where
  "NewRoundEvent M rs =
     obind (proposer_info M rs) (\<lambda>(rs', info). Return (rs',
       \<lparr>enHeight = rsHeight rs, enRound = rsRound rs, enStep = RoundStep_String (rsStep rs),
        enProposer = info\<rparr>))"

record 'header EventDataCompleteProposal =
  ecHeight :: int
  ecRound :: int
  ecStep :: string
  ecHash :: bytes
  ecPartSetHeader :: 'header

definition CompleteProposalEvent :: "('set, 'block, 'parts, 'header) tm_types \<Rightarrow>
    ('set, 'prop, 'block, 'parts, 'votes) RoundState \<Rightarrow> 'header EventDataCompleteProposal outcome" where
  "CompleteProposalEvent M rs =
     obind (parts_Header M (rsProposalBlockParts rs)) (\<lambda>header. Return
       \<lparr>ecHeight = rsHeight rs, ecRound = rsRound rs, ecStep = RoundStep_String (rsStep rs),
        ecHash = block_Hash M (rsProposalBlock rs), ecPartSetHeader = header\<rparr>)"

record EventDataRoundState =
  erHeight :: int
  erRound :: int
  erStep :: string

definition RoundStateEvent :: "('set, 'prop, 'block, 'parts, 'votes) RoundState \<Rightarrow> EventDataRoundState" where
  "RoundStateEvent rs =
     \<lparr>erHeight = rsHeight rs, erRound = rsRound rs, erStep = RoundStep_String (rsStep rs)\<rparr>"

section \<open>Texts\<close>

text \<open>
  The texts of Tendermint's values. Printing a set may change it and may panic. The text of a time
  is a parameter too: it depends on its zone and clock reading, which a \<open>time\<close> does not have.
\<close>

record ('set, 'prop, 'block, 'parts, 'votes) tm_texts =
  set_StringIndented :: "'set option \<Rightarrow> string \<Rightarrow> ('set option \<times> string) outcome"
  prop_String :: "'prop option \<Rightarrow> string"
  block_StringShort :: "'block option \<Rightarrow> string"
  parts_StringShort :: "'parts option \<Rightarrow> string"
  votes_StringShort :: "'votes option \<Rightarrow> string"
  time_String :: "time \<Rightarrow> string"

definition RoundState_StringIndented :: "('set, 'prop, 'block, 'parts, 'votes) tm_texts \<Rightarrow> string \<Rightarrow>
    ('set, 'prop, 'block, 'parts, 'votes) RoundState \<Rightarrow>
    (('set, 'prop, 'block, 'parts, 'votes) RoundState \<times> string) outcome" where
  "RoundState_StringIndented F indent rs =
     obind (set_StringIndented F (rsValidators rs) (indent @ ''  '')) (\<lambda>(validators, vals).
     obind (set_StringIndented F (rsLastValidators rs) (indent @ ''  '')) (\<lambda>(lastValidators, lastVals).
       Return (rs\<lparr>rsValidators := validators, rsLastValidators := lastValidators\<rparr>,
         ''RoundState{'' @ newline @
         indent @ ''  H:'' @ go_int (rsHeight rs) @ '' R:'' @ go_int (rsRound rs) @ '' S:'' @
           RoundStep_String (rsStep rs) @ newline @
         indent @ ''  StartTime:     '' @ time_String F (rsStartTime rs) @ newline @
         indent @ ''  CommitTime:    '' @ time_String F (rsCommitTime rs) @ newline @
         indent @ ''  Validators:    '' @ vals @ newline @
         indent @ ''  Proposal:      '' @ prop_String F (rsProposal rs) @ newline @
         indent @ ''  ProposalBlock: '' @ parts_StringShort F (rsProposalBlockParts rs) @ '' '' @
           block_StringShort F (rsProposalBlock rs) @ newline @
         indent @ ''  LockedRound:   '' @ go_int (rsLockedRound rs) @ newline @
         indent @ ''  LockedBlock:   '' @ parts_StringShort F (rsLockedBlockParts rs) @ '' '' @
           block_StringShort F (rsLockedBlock rs) @ newline @
         indent @ ''  ValidRound:   '' @ go_int (rsValidRound rs) @ newline @
         indent @ ''  ValidBlock:   '' @ parts_StringShort F (rsValidBlockParts rs) @ '' '' @
           block_StringShort F (rsValidBlock rs) @ newline @
         indent @ ''  LastCommit:    '' @ votes_StringShort F (rsLastCommit rs) @ newline @
         indent @ ''  LastValidators:'' @ lastVals @ newline @
         indent @ ''}'')))"

definition RoundState_String :: "('set, 'prop, 'block, 'parts, 'votes) tm_texts \<Rightarrow>
    ('set, 'prop, 'block, 'parts, 'votes) RoundState \<Rightarrow>
    (('set, 'prop, 'block, 'parts, 'votes) RoundState \<times> string) outcome" where
  "RoundState_String F rs = RoundState_StringIndented F [] rs"

definition RoundState_StringShort :: "(time \<Rightarrow> string) \<Rightarrow>
    ('set, 'prop, 'block, 'parts, 'votes) RoundState \<Rightarrow> string" where
  "RoundState_StringShort time_text rs =
     ''RoundState{H:'' @ go_int (rsHeight rs) @ '' R:'' @ go_int (rsRound rs) @ '' S:'' @
     RoundStep_String (rsStep rs) @ '' ST:'' @ time_text (rsStartTime rs) @ ''}''"

text \<open>What a node knows of a peer (\<^verbatim>\<open>peer_round_state.go\<close>).\<close>

record 'header PeerRoundState =
  prsHeight :: int
  prsRound :: int
  prsStep :: RoundStepType
  prsStartTime :: time
  prsProposal :: bool
  prsProposalBlockPartSetHeader :: 'header
  prsProposalBlockParts :: "BitArray option"
  prsProposalPOLRound :: int
  prsProposalPOL :: "BitArray option"
  prsPrevotes :: "BitArray option"
  prsPrecommits :: "BitArray option"
  prsLastCommitRound :: int
  prsLastCommit :: "BitArray option"
  prsCatchupCommitRound :: int
  prsCatchupCommit :: "BitArray option"

definition PeerRoundState_StringIndented :: "(time \<Rightarrow> string) \<Rightarrow> ('header \<Rightarrow> string) \<Rightarrow>
    (BitArray option \<Rightarrow> string) \<Rightarrow> string \<Rightarrow> 'header PeerRoundState \<Rightarrow> string" where
  "PeerRoundState_StringIndented time_text header_text bits_text indent prs =
     ''PeerRoundState{'' @ newline @
     indent @ ''  '' @ go_int (prsHeight prs) @ ''/'' @ go_int (prsRound prs) @ ''/'' @
       RoundStep_String (prsStep prs) @ '' @'' @ time_text (prsStartTime prs) @ newline @
     indent @ ''  Proposal '' @ header_text (prsProposalBlockPartSetHeader prs) @ '' -> '' @
       bits_text (prsProposalBlockParts prs) @ newline @
     indent @ ''  POL      '' @ bits_text (prsProposalPOL prs) @ '' (round '' @
       go_int (prsProposalPOLRound prs) @ '')'' @ newline @
     indent @ ''  Prevotes   '' @ bits_text (prsPrevotes prs) @ newline @
     indent @ ''  Precommits '' @ bits_text (prsPrecommits prs) @ newline @
     indent @ ''  LastCommit '' @ bits_text (prsLastCommit prs) @ '' (round '' @
       go_int (prsLastCommitRound prs) @ '')'' @ newline @
     indent @ ''  Catchup    '' @ bits_text (prsCatchupCommit prs) @ '' (round '' @
       go_int (prsCatchupCommitRound prs) @ '')'' @ newline @
     indent @ ''}''"

definition PeerRoundState_String :: "(time \<Rightarrow> string) \<Rightarrow> ('header \<Rightarrow> string) \<Rightarrow>
    (BitArray option \<Rightarrow> string) \<Rightarrow> 'header PeerRoundState \<Rightarrow> string" where
  "PeerRoundState_String time_text header_text bits_text prs =
     PeerRoundState_StringIndented time_text header_text bits_text [] prs"

section \<open>What the compressed state keeps\<close>

text \<open>The height, round and step in the compressed state determine those of the state; the step's
  name does so for the valid steps only.\<close>

lemma go_int_slash:
  assumes "go_int a @ ''/'' @ s = go_int b @ ''/'' @ t"
  shows "a = b \<and> s = t"
proof -
  have no_slash: "CHR ''/'' \<notin> set (go_int i)" for i
  proof
    assume "CHR ''/'' \<in> set (go_int i)"
    then have "\<exists>n. CHR ''/'' \<in> set (go_nat n)" by (auto simp: go_int_def split: if_splits)
    then obtain n where "CHR ''/'' \<in> set (go_nat n)" ..
    from go_nat_digits [OF this] show False by simp
  qed
  have split: "takeWhile (\<lambda>c. c \<noteq> CHR ''/'') (go_int i @ ''/'' @ u) = go_int i" for i u
    using no_slash by (subst takeWhile_append2) auto
  have "go_int a = go_int b" using arg_cong [OF assms, of "takeWhile (\<lambda>c. c \<noteq> CHR ''/'')"] split by simp
  then show ?thesis using assms by simp
qed

lemma RoundState_Simple_determines:
  assumes "RoundState_Simple M rs = Return (rs', x)" and "RoundState_Simple M us = Return (us', y)"
    and "rssHeightRoundStep x = rssHeightRoundStep y"
  shows "rsHeight rs = rsHeight us \<and> rsRound rs = rsRound us \<and> rsStep rs = rsStep us"
proof -
  have "go_int (rsHeight rs) @ ''/'' @ go_int (rsRound rs) @ ''/'' @ go_nat (unat (rsStep rs)) =
      go_int (rsHeight us) @ ''/'' @ go_int (rsRound us) @ ''/'' @ go_nat (unat (rsStep us))"
    using assms by (auto simp: RoundState_Simple_def)
  from go_int_slash [OF this] have "rsHeight rs = rsHeight us" and
    "go_int (rsRound rs) @ ''/'' @ go_nat (unat (rsStep rs)) = go_int (rsRound us) @ ''/'' @ go_nat (unat (rsStep us))"
    by simp_all
  moreover from go_int_slash [OF this(2)] have "rsRound rs = rsRound us" "rsStep rs = rsStep us"
    by (simp_all add: word_unat_eq_iff)
  ultimately show ?thesis by simp
qed

end
