(* ===== verification/Spec2Isabelle.thy ===== *)
theory Spec2Isabelle
  imports Con_SetProto Con_Random Con_Consensus Con_Text Con_RoundState
begin

text \<open>
  A verification development of iotwal's consensus library, the Go package \<^verbatim>\<open>src/concord\<close>: a BFT
  agreement protocol derived from Tendermint. A node calls \<open>AgreeOn\<close> with data and a set of
  validators. The set's proposer signs and publishes the data; every validator validates it to a
  hash and publishes a signed prevote and then a precommit for it; two thirds of the voting
  power decide, and the precommits make the commit that is returned and that others can verify.

  \<^bold>\<open>Conventions.\<close> A Go function that can panic gives an \<open>outcome\<close> (\<open>Return\<close> or \<open>Panic\<close> with the
  reason), one that can fail a sum or an optional error of an error datatype with a constructor
  for each error the source makes. A method on a pointer takes and returns the object. \<open>int64\<close>
  is \<open>int\<close> with the wrap-around written out (\<open>Go_Int\<close>, tied there to 64-bit words), bytes are
  8-bit words. Third-party code is a parameter: the record \<open>tm\<close> (hash sizes, keys, signatures,
  marshalling of sign bytes, Merkle roots), \<open>PrivKeys\<close>, \<open>net\<close> (pubsub and protobuf), \<open>sizeOf\<close>
  (bit arrays), the clock \<open>now\<close> and the caller's validation \<open>cValidate\<close>. Its documented
  behaviour is named where it is used: \<open>marshal_injective\<close>, \<open>key_codec\<close>, \<open>keys_sound\<close>.
  \<open>sample_tm\<close>, \<open>sample_keys\<close> and \<open>sample_net\<close> are concrete instances of them, which the
  witnesses evaluate, and \<open>Con_WireSample\<close> has a network on which every message can be sent.

  \<^bold>\<open>Basis.\<close> \<open>Prelude\<close> (outcomes, byte strings and their order, slices), \<open>Go_Int\<close>, \<open>Go_Sort\<close>
  (\<open>sort.Sort\<close>; locale \<open>go_less\<close> is the contract of \<open>Less\<close>, and under \<open>go_key\<close>, a comparison of
  keys, the sort is the library's \<open>sort_key\<close>), \<open>Go_Fmt\<close> (decimals), \<open>Go_Text\<close> (hexadecimals,
  times, \<open>float64\<close>), \<open>Go_Wire\<close> (locale \<open>wire\<close>, the contract of \<open>ToProto\<close> and \<open>FromProto\<close>,
  interpreted for hashes, votes, commit signatures, commits and proposals), \<open>Pb_Types\<close>
  (\<^verbatim>\<open>pb/*.pb.go\<close>).

  \<^bold>\<open>Validators\<close> (\<^verbatim>\<open>proposer.go\<close>, \<^verbatim>\<open>proposer_set.go\<close>).
  \<^item> \<open>Con_Proposer\<close>: a validator and the linear order of \<open>standing\<close>s that both comparisons of
    validators follow. \<open>Con_ProposerSet\<close>: the set, its lookups, cached total and cached
    proposer. The Go pointer \<open>Proposer\<close> is \<open>InSet a\<close>, the element with that address, or
    \<open>Detached\<close>, a validator that is not in the slice any more.
  \<^item> \<open>Con_Rotation\<close>: \<open>IncrementProposerPriority\<close> and what it calls; locale \<open>selection\<close> for the
    two loops that keep a best validator. \<open>Con_RoundRobin\<close>: the abstract weighted round robin on
    exact integers, the refinement, and fairness.
  \<^item> \<open>Con_SetUpdate\<close>, \<open>Con_SetChange\<close>: \<open>UpdateWithChangeSet\<close> and that it refines an update of the
    map of stakes. \<open>Con_SetSafety\<close>: rotation and change return a well-formed set whatever the
    powers are, with the arithmetic as it wraps and clips. \<open>Con_SetHistory\<close>: the life of a set as
    an inductive relation, for any powers up to the cap \<open>MaxTotalVotingPower\<close>. What else the
    rotation guarantees, exact turns and priorities below \<open>prio_limit\<close>, needs room in \<open>int64\<close>
    for the power times the number of validators (\<open>regime\<close>, \<open>roomy\<close>).
  \<^item> \<open>Con_SetProto\<close>: sets on the wire and sets of existing validators. \<open>Con_Random\<close>: random sets
    with their private validators.

  \<^bold>\<open>Votes and commits.\<close>
  \<^item> \<open>Con_DataHash\<close> (\<^verbatim>\<open>data_hash.go\<close>, \<^verbatim>\<open>validation.go\<close>, \<^verbatim>\<open>canonical.go\<close>), \<open>Con_Vote\<close>
    (\<^verbatim>\<open>vote.go\<close>), \<open>Con_Commit\<close> (\<^verbatim>\<open>commit.go\<close>), \<open>Con_Proposal\<close> (\<^verbatim>\<open>proposal.go\<close>): data,
    validation, sign bytes, encodings.
  \<^item> \<open>Con_VoteSet\<close> (\<^verbatim>\<open>vote_set.go\<close>): all operations of the vote set. The channel \<open>done\<close> is a
    Boolean, closed or not. \<open>Con_Quorum\<close>: locale \<open>electorate\<close>, sets of voters and their power.
    \<open>Con_Tally\<close>: the invariant of a vote set. \<open>Con_VoteHistory\<close>: its life (votes and claims of
    peers in any order) and what it guarantees. \<open>Con_Arrivals\<close>: where the stored votes come from.
  \<^item> \<open>Con_VerifyCommit\<close>, \<open>Con_CommitProofs\<close>: the three checks of a commit and what they prove.
    \<open>Con_CommitVotes\<close>, \<open>Con_CommitSafety\<close>: commits made of votes and votes made of commits.

  \<^bold>\<open>The protocol.\<close>
  \<^item> \<open>Con_PrivValidator\<close> (\<^verbatim>\<open>priv_validator.go\<close>): locale \<open>signer\<close>, the contract of a
    \<open>PrivProposer\<close>, interpreted for both mock validators, and \<open>working_signer\<close>, one that never
    fails. \<open>Con_TestUtil\<close> (\<^verbatim>\<open>test_util.go\<close>): what any working signers of a set make together.
  \<^item> \<open>Con_Msgs\<close> (\<^verbatim>\<open>msgs.go\<close>, \<^verbatim>\<open>msgs_serde.go\<close>, the step type of \<^verbatim>\<open>round_state.go\<close>).
  \<^item> \<open>Con_Round\<close> (\<^verbatim>\<open>round.go\<close>) and \<open>Con_Conciliator\<close> (\<^verbatim>\<open>conciliator.go\<close>): a round and a node.
    \<open>Propose\<close>, \<open>Vote\<close> and \<open>AgreeOn\<close> block in a \<open>select\<close>. They are split there: \<open>Propose_begin\<close>
    and \<open>Propose_select\<close>, \<open>vote\<close> and \<open>Vote_select\<close>, \<open>AgreeOn_begin\<close> and \<open>AgreeOn_resume\<close>, with a
    \<open>phase\<close> that says where the call waits. A \<open>select\<close> with no case ready gives \<open>Blocks\<close>;
    \<open>ctxDone\<close> is the context, \<open>pick\<close> the choice Go makes between two ready cases. \<open>agree_run\<close> is
    the step relation of one call of \<open>AgreeOn\<close>: its parts, with any messages at all delivered to
    \<open>incoming\<close> in between. A part and a delivery are atomic steps: what they share are the round
    pointer and the vote sets, read and changed under locks, and the channel.
  \<^item> \<open>Con_Agreement\<close>: the invariant of a run. \<open>Con_AgreeSafety\<close>: the commit a node returns,
    agreement. \<open>Con_Delivery\<close>: what is forwarded, rejected or panics, when a waiting node goes
    on, and that a call ends. \<open>Con_Honest\<close>: a node that signs only in its own run signs one
    precommit (\<open>vote_log\<close> is its signing log), so two nodes return the same hash when the
    validators that do not run this code hold at most a third of the power (C2, under
    \<open>faithful\<close>: unmarshalling gives back what was marshalled).
  \<^item> \<open>Con_Cluster\<close>: the nodes together. A \<open>scene\<close> says which validators run this code; a
    \<open>cluster_step\<close> lets one of their nodes go on or handle a message, which may be anything that
    does not forge their signatures (\<open>genuine\<close>). A panic takes its node out of the run: the
    \<open>fate\<close> of a node is up, broken in its own call, or broken by a message. A move is \<open>due\<close> when a fair schedule must make
    it: a node that can go on, a message of one honest node to another. \<open>Con_Members\<close>,
    \<open>Con_MemberInv\<close>, \<open>Con_MemberMsgs\<close>: what one such node publishes and records, as an invariant
    of its round (\<open>round_ok\<close>). \<open>Con_Consensus\<close>: a cluster comes to rest (C6). No honest node breaks
    unless it is sent a \<open>fatal\<close> message, one whose proposal or vote has no sign bytes, which only
    a faulty peer makes (C40 has an example); and at rest all honest nodes that are up have
    returned the proposer's data, as long as they hold more than two thirds of the power (C1).
    What this rests on is spelled out in \<open>staffed\<close>, \<open>works\<close> and \<open>agreeable\<close>; the faulty
    validators hold less than a third of the power and the proposer is not one of them, since the
    code runs a single round and cannot replace its proposer.

  \<^bold>\<open>Texts and events.\<close> \<open>Con_Text\<close>: the \<open>String\<close> and \<open>Error\<close> methods and the JSON form of a vote
  set, over the third-party formatters (\<open>printers\<close>); which of them can panic, and what they
  change. \<open>Con_RoundState\<close> (\<^verbatim>\<open>round_state.go\<close>, \<^verbatim>\<open>peer_round_state.go\<close>): the state of a
  Tendermint round and of a peer, over Tendermint's types.

  \<^bold>\<open>Results.\<close> C1 to C7: the protocol, from agreement of a whole cluster, its safety against
  faulty validators and the commit a node returns to liveness and termination; C38 to C40: what
  a delivered message does, and what a message of a peer can break. C8 to C13: the rotation
  refines a fair weighted round robin, changes refine a map update, and no reachable set panics
  when it is read, changed or rotated.
  C14 to C16, C31 to C33 and C36: encodings, what signatures bind, what validation accepts. C37:
  which texts can panic. C17 to C21, C29 and C30: the vote set stores verified votes only,
  decides exactly by the canonical votes, never changes its mind, and different majorities
  expose double signers; C21 says which vote signals \<open>Done()\<close>, and which decides without it. C22 to C28: commits that pass verification prove a quorum, and the
  commits the vote set makes pass. C34, C35: signing, up to a random set whose validators make a
  commit that verifies. A quorum or a double signer is always shown by votes at hand, those of a
  commit (\<open>commit_votes\<close>) or those a vote set holds (\<open>ballots\<close>), never by a signature that
  merely exists. No loop needed fuel: each runs over a slice or a count, and \<open>AgreeOn\<close> has at
  most four parts (C7). Of \<open>n\<close> honest nodes no run makes more than \<open>n * (4 * n + 3)\<close> moves that
  are due (C6).

  \<^bold>\<open>Not modelled.\<close> The texts of errors without a type of their own and generated protobuf code
  beyond its structs. Mutexes: the model runs what they protect as one step. Sharing of the
  validator set between a round and its vote sets: each keeps its own copy, and \<open>same_set\<close> shows
  that only the cached proposer ever differs. The Go code fills these caches of the shared set
  from several goroutines without a common lock, which the model, with its atomic steps, does
  not see.
\<close>

end
